theory Spec2Isabelle
  imports Main "HOL-Library.Word" "HOL-Library.Multiset" "HOL-Library.Monad_Syntax"
begin

unbundle bit_operations_syntax

section \<open>The PNG optimizer of sboptimizeassets (service/png\_optimizer.go)\<close>

text \<open>
  A shallow embedding of \<^verbatim>\<open>service/png_optimizer.go\<close>. The functions of the
  repository are translated one by one and keep their names. What the repository takes
  from outside (the PNG codec, \<^verbatim>\<open>image/draw\<close>, the order in which \<^verbatim>\<open>range\<close> visits
  a Go map, the operating system's file operations, the part of \<^verbatim>\<open>sort.Sort\<close> that
  handles long slices) is a parameter of the model, collected in the record
  \<open>platform\<close> and the record \<open>faults\<close>.
\<close>

subsection \<open>Colours, rectangles and images\<close>

type_synonym uint8 = "8 word"
type_synonym uint32 = "32 word"

text \<open>Go's \<^verbatim>\<open>uint\<close> on a 64-bit platform. Arithmetic on it wraps around.\<close>

type_synonym uint = "64 word"

type_synonym bytes = "uint8 list"

text \<open>\<^verbatim>\<open>color.NRGBA\<close>, \<^verbatim>\<open>color.RGBA\<close>: four 8-bit channels.\<close>

record NRGBA =
  R :: uint8
  G :: uint8
  B :: uint8
  A :: uint8

text \<open>
  \<^verbatim>\<open>color.Color\<close> is an interface; the values that occur in this program are
  \<^verbatim>\<open>color.NRGBA\<close> and \<^verbatim>\<open>color.Gray\<close> (built by the palette builders) and
  \<^verbatim>\<open>color.RGBA\<close> (palette entries of a decoded file).
\<close>

datatype Color = ColorNRGBA NRGBA | ColorGray uint8 | ColorRGBA uint8 uint8 uint8 uint8

type_synonym Palette = "Color list"

text \<open>\<^verbatim>\<open>image.Rectangle\<close>: \<open>Min\<close> inclusive, \<open>Max\<close> exclusive.\<close>

record Rectangle =
  MinX :: int
  MinY :: int
  MaxX :: int
  MaxY :: int

text \<open>
  An image is its bounds and its samples. The byte layout of \<^verbatim>\<open>Pix\<close> and
  \<^verbatim>\<open>Stride\<close> is abstracted to a function from coordinates to samples; only the
  coordinates inside the bounds are ever read by this program.
\<close>

record 'p raster =
  Rect :: Rectangle
  Pix :: "int \<Rightarrow> int \<Rightarrow> 'p"

type_synonym imageNRGBA = "NRGBA raster"
type_synonym imageGray = "uint8 raster"

definition Bounds :: "('p, 'm) raster_scheme \<Rightarrow> Rectangle" where
  "Bounds img = Rect img"

definition Dx :: "Rectangle \<Rightarrow> int" where
  "Dx r = MaxX r - MinX r"

definition Dy :: "Rectangle \<Rightarrow> int" where
  "Dy r = MaxY r - MinY r"

definition In :: "int \<Rightarrow> int \<Rightarrow> Rectangle \<Rightarrow> bool" where
  "In x y r = (MinX r \<le> x \<and> x < MaxX r \<and> MinY r \<le> y \<and> y < MaxY r)"

text \<open>\<^verbatim>\<open>NRGBAAt\<close>, \<^verbatim>\<open>GrayAt\<close>: the zero colour outside the bounds.\<close>

definition NRGBAAt :: "imageNRGBA \<Rightarrow> int \<Rightarrow> int \<Rightarrow> NRGBA" where
  "NRGBAAt img x y =
     (if In x y (Rect img) then Pix img x y else \<lparr>R = 0, G = 0, B = 0, A = 0\<rparr>)"

definition GrayAt :: "imageGray \<Rightarrow> int \<Rightarrow> int \<Rightarrow> uint8" where
  "GrayAt img x y = (if In x y (Rect img) then Pix img x y else 0)"

text \<open>
  The loops \<^verbatim>\<open>for y := Min.Y; y < Max.Y; y++ { for x := Min.X; x < Max.X; x++ {...} }\<close>
  visit the coordinates in this order.
\<close>

definition scan :: "Rectangle \<Rightarrow> (int \<times> int) list" where
  "scan r = concat (map (\<lambda>y. map (\<lambda>x. (x, y)) [MinX r .. MaxX r - 1]) [MinY r .. MaxY r - 1])"

definition pixelsNRGBA :: "imageNRGBA \<Rightarrow> NRGBA list" where
  "pixelsNRGBA img = map (\<lambda>(x, y). NRGBAAt img x y) (scan (Bounds img))"

definition pixelsGray :: "imageGray \<Rightarrow> uint8 list" where
  "pixelsGray img = map (\<lambda>(x, y). GrayAt img x y) (scan (Bounds img))"

subsection \<open>Frequency tables\<close>

text \<open>
  A Go map \<^verbatim>\<open>map[K]uint\<close>. Reading a key that is absent gives the zero value.
\<close>

definition get :: "('k \<rightharpoonup> uint) \<Rightarrow> 'k \<Rightarrow> uint" where
  "get m k = (case m k of None \<Rightarrow> 0 | Some v \<Rightarrow> v)"

text \<open>\<^verbatim>\<open>colors[c] = colors[c] + 1\<close>\<close>

definition bump :: "('k \<rightharpoonup> uint) \<Rightarrow> 'k \<Rightarrow> ('k \<rightharpoonup> uint)" where
  "bump m c = m(c \<mapsto> get m c + 1)"

definition frequencies :: "'k list \<Rightarrow> ('k \<rightharpoonup> uint)" where
  "frequencies cs = foldl bump Map.empty cs"

subsection \<open>The palette sorter\<close>

record nrgbaPaletteSorter =
  colors :: "NRGBA \<rightharpoonup> uint"
  palette :: "NRGBA list"

definition Len :: "nrgbaPaletteSorter \<Rightarrow> nat" where
  "Len ps = length (palette ps)"

text \<open>An index outside the slice panics: the result is \<open>None\<close>.\<close>

definition Swap :: "nrgbaPaletteSorter \<Rightarrow> nat \<Rightarrow> nat \<Rightarrow> nrgbaPaletteSorter option" where
  "Swap ps i j =
     (if i < length (palette ps) \<and> j < length (palette ps)
      then Some (ps\<lparr>palette := (palette ps)[i := palette ps ! j, j := palette ps ! i]\<rparr>)
      else None)"

text \<open>
  The body of \<^verbatim>\<open>Less\<close> after \<^verbatim>\<open>ci, cj := ps.palette[i], ps.palette[j]\<close>.
  The frequencies are \<^verbatim>\<open>uint\<close>, so \<^verbatim>\<open>ps.colors[ci]-ps.colors[cj] > 0\<close> is a
  comparison of a wrapped difference with zero. \<^verbatim>\<open>math.MaxUint8\<close> is 255.
\<close>

definition lessNRGBA :: "(NRGBA \<rightharpoonup> uint) \<Rightarrow> NRGBA \<Rightarrow> NRGBA \<Rightarrow> bool" where
  "lessNRGBA cols ci cj =
     (if A ci = A cj then get cols ci - get cols cj > 0
      else if A ci = 0 then True
      else if A cj = 0 then False
      else if A ci < 255 \<and> A cj = 255 then True
      else if (A ci < 255 \<and> A cj < 255) \<or> (A ci = 255 \<and> A cj = 255)
        then get cols ci - get cols cj > 0
      else False)"

definition Less :: "nrgbaPaletteSorter \<Rightarrow> nat \<Rightarrow> nat \<Rightarrow> bool option" where
  "Less ps i j =
     (if i < length (palette ps) \<and> j < length (palette ps)
      then Some (lessNRGBA (colors ps) (palette ps ! i) (palette ps ! j))
      else None)"

subsection \<open>Sorting\<close>

text \<open>
  \<^verbatim>\<open>sort.Sort\<close> and \<^verbatim>\<open>sort.Slice\<close> belong to Go's standard library. Both run
  \<^verbatim>\<open>
  func insertionSort(data, a, b int) {
      for i := a + 1; i < b; i++ {
          for j := i; j > a && data.Less(j, j-1); j-- {
              data.Swap(j, j-1)
          }
      }
  }
  \<close>
  on a slice of at most 12 elements (Go 1.19 and later; the repository asks for Go 1.20).
  Longer slices go through the library's pattern-defeating quicksort. What the library
  does with a long slice is a parameter of the model (\<open>pdqsortNRGBA\<close>, \<open>pdqsortGray\<close>
  below); \<open>pdqsort\<close> in this section is that function as Go 1.19 and later have it in
  \<^verbatim>\<open>sort/zsortinterface.go\<close> and \<^verbatim>\<open>sort/zsortfunc.go\<close>, for the properties that
  are stated of the library's own sort.
\<close>

fun insertionInner ::
  "('d \<Rightarrow> nat \<Rightarrow> nat \<Rightarrow> bool option) \<Rightarrow> ('d \<Rightarrow> nat \<Rightarrow> nat \<Rightarrow> 'd option) \<Rightarrow>
   nat \<Rightarrow> nat \<Rightarrow> 'd \<Rightarrow> 'd option" where
  "insertionInner lessf swapf a j data =
     (if j > a then
        (case lessf data j (j - 1) of
           None \<Rightarrow> None
         | Some False \<Rightarrow> Some data
         | Some True \<Rightarrow>
             (case swapf data j (j - 1) of
                None \<Rightarrow> None
              | Some data' \<Rightarrow> insertionInner lessf swapf a (j - 1) data'))
      else Some data)"

function insertionOuter ::
  "('d \<Rightarrow> nat \<Rightarrow> nat \<Rightarrow> bool option) \<Rightarrow> ('d \<Rightarrow> nat \<Rightarrow> nat \<Rightarrow> 'd option) \<Rightarrow>
   nat \<Rightarrow> nat \<Rightarrow> nat \<Rightarrow> 'd \<Rightarrow> 'd option" where
  "insertionOuter lessf swapf a b i data =
     (if i < b then
        (case insertionInner lessf swapf a i data of
           None \<Rightarrow> None
         | Some data' \<Rightarrow> insertionOuter lessf swapf a b (i + 1) data')
      else Some data)"
  by pat_completeness auto
termination
  by (relation "measure (\<lambda>(lessf, swapf, a, b, i, data). b - i)") auto

definition insertionSort ::
  "('d \<Rightarrow> nat \<Rightarrow> nat \<Rightarrow> bool option) \<Rightarrow> ('d \<Rightarrow> nat \<Rightarrow> nat \<Rightarrow> 'd option) \<Rightarrow>
   'd \<Rightarrow> nat \<Rightarrow> nat \<Rightarrow> 'd option" where
  "insertionSort lessf swapf data a b = insertionOuter lessf swapf a b (a + 1) data"

text \<open>
  The rest of the library's sort. An index is a natural number; where the source would
  read or write outside the slice, \<open>lessf\<close> and \<open>swapf\<close> return \<open>None\<close>.
\<close>

type_synonym 'd lessFn = "'d \<Rightarrow> nat \<Rightarrow> nat \<Rightarrow> bool option"
type_synonym 'd swapFn = "'d \<Rightarrow> nat \<Rightarrow> nat \<Rightarrow> 'd option"

datatype sortedHint = unknownHint | increasingHint | decreasingHint

text \<open>A \<^verbatim>\<open>for\<close> loop over the given values of its counter.\<close>

fun forEach :: "(nat \<Rightarrow> 'd \<Rightarrow> 'd option) \<Rightarrow> nat list \<Rightarrow> 'd \<Rightarrow> 'd option" where
  "forEach body [] data = Some data"
| "forEach body (i # is) data =
     (case body i data of None \<Rightarrow> None | Some data' \<Rightarrow> forEach body is data')"

text \<open>\<^verbatim>\<open>siftDown(data, lo, hi, first)\<close>; the loop variable is \<open>root\<close>.\<close>

function siftDownFrom ::
  "'d lessFn \<Rightarrow> 'd swapFn \<Rightarrow> nat \<Rightarrow> nat \<Rightarrow> nat \<Rightarrow> 'd \<Rightarrow> 'd option" where
  "siftDownFrom lessf swapf hi first root data =
     (let child = 2 * root + 1 in
      if child \<ge> hi then Some data
      else
        (case (if child + 1 < hi
               then (case lessf data (first + child) (first + child + 1) of
                       None \<Rightarrow> None
                     | Some c \<Rightarrow> Some (if c then child + 1 else child))
               else Some child) of
           None \<Rightarrow> None
         | Some child' \<Rightarrow>
             (case lessf data (first + root) (first + child') of
                None \<Rightarrow> None
              | Some False \<Rightarrow> Some data
              | Some True \<Rightarrow>
                  (case swapf data (first + root) (first + child') of
                     None \<Rightarrow> None
                   | Some data' \<Rightarrow> siftDownFrom lessf swapf hi first child' data'))))"
  by pat_completeness auto
termination
  apply (relation "measure (\<lambda>(lessf, swapf, hi, first, root, data). hi - root)")
   apply (auto split: if_splits option.splits)
  done

definition siftDown :: "'d lessFn \<Rightarrow> 'd swapFn \<Rightarrow> 'd \<Rightarrow> nat \<Rightarrow> nat \<Rightarrow> nat \<Rightarrow> 'd option" where
  "siftDown lessf swapf data lo hi first = siftDownFrom lessf swapf hi first lo data"

definition heapSort :: "'d lessFn \<Rightarrow> 'd swapFn \<Rightarrow> 'd \<Rightarrow> nat \<Rightarrow> nat \<Rightarrow> 'd option" where
  "heapSort lessf swapf data a b =
     (let first = a; lo = 0; hi = b - a in
      case forEach (\<lambda>i d. siftDown lessf swapf d i hi first) (rev [0..<Suc ((hi - 1) div 2)]) data of
        None \<Rightarrow> None
      | Some data' \<Rightarrow>
          forEach (\<lambda>i d. case swapf d first (first + i) of
                            None \<Rightarrow> None
                          | Some d' \<Rightarrow> siftDown lessf swapf d' lo i first)
            (rev [0..<hi]) data')"

text \<open>\<^verbatim>\<open>for i <= j && data.Less(i, a) { i++ }\<close>\<close>

function scanUp :: "'d lessFn \<Rightarrow> 'd \<Rightarrow> nat \<Rightarrow> nat \<Rightarrow> nat \<Rightarrow> nat option" where
  "scanUp lessf data a i j =
     (if i \<le> j then
        (case lessf data i a of
           None \<Rightarrow> None
         | Some True \<Rightarrow> scanUp lessf data a (i + 1) j
         | Some False \<Rightarrow> Some i)
      else Some i)"
  by pat_completeness auto
termination
  by (relation "measure (\<lambda>(lessf, data, a, i, j). Suc j - i)") auto

text \<open>
  \<^verbatim>\<open>for i <= j && !data.Less(j, a) { j-- }\<close>. In \<^verbatim>\<open>partition\<close> the index \<open>i\<close> is at
  least \<open>a + 1\<close>, so that \<open>i \<le> j\<close> implies \<open>0 < j\<close>.
\<close>

function scanDown :: "'d lessFn \<Rightarrow> 'd \<Rightarrow> nat \<Rightarrow> nat \<Rightarrow> nat \<Rightarrow> nat option" where
  "scanDown lessf data a i j =
     (if i \<le> j \<and> 0 < j then
        (case lessf data j a of
           None \<Rightarrow> None
         | Some False \<Rightarrow> scanDown lessf data a i (j - 1)
         | Some True \<Rightarrow> Some j)
      else Some j)"
  by pat_completeness auto
termination
  by (relation "measure (\<lambda>(lessf, data, a, i, j). j)") auto

text \<open>The \<^verbatim>\<open>for { ... }\<close> loop of \<^verbatim>\<open>partition\<close>; the result is \<open>(data, j)\<close>.\<close>

function partitionLoop ::
  "'d lessFn \<Rightarrow> 'd swapFn \<Rightarrow> nat \<Rightarrow> nat \<Rightarrow> nat \<Rightarrow> 'd \<Rightarrow> ('d \<times> nat) option" where
  "partitionLoop lessf swapf a i j data =
     (case scanUp lessf data a i j of
        None \<Rightarrow> None
      | Some i' \<Rightarrow>
          (case scanDown lessf data a i' j of
             None \<Rightarrow> None
           | Some j' \<Rightarrow>
               if i' > j' then Some (data, j')
               else
                 (case swapf data i' j' of
                    None \<Rightarrow> None
                  | Some data' \<Rightarrow> partitionLoop lessf swapf a (i' + 1) (j' - 1) data')))"
  by pat_completeness auto
termination
proof (relation "measure (\<lambda>(lessf, swapf, a, i, j, data). Suc j - i)", goal_cases)
  case 1
  show ?case by simp
next
  case (2 lessf swapf a i j data i' j' data')
  have up: "scanUp lessf data a i j = Some k \<Longrightarrow> i \<le> k" for i k
  proof (induction "Suc j - i" arbitrary: i)
    case 0
    then have "\<not> i \<le> j" by arith
    then have "scanUp lessf data a i j = Some i" by (subst scanUp.simps) simp
    then show ?case using 0 by simp
  next
    case (Suc n)
    have ij: "i \<le> j" using Suc.hyps(2) by arith
    have e: "scanUp lessf data a i j =
        (case lessf data i a of
           None \<Rightarrow> None
         | Some True \<Rightarrow> scanUp lessf data a (i + 1) j
         | Some False \<Rightarrow> Some i)"
      using ij by (subst scanUp.simps) (simp split: option.splits bool.splits)
    show ?case
    proof (cases "lessf data i a")
      case None
      then show ?thesis using Suc.prems e by simp
    next
      case (Some c)
      show ?thesis
      proof (cases "c = True")
        case True
        then have "scanUp lessf data a (i + 1) j = Some k" using Suc.prems e Some by simp
        moreover have "n = Suc j - (i + 1)" using Suc.hyps(2) by arith
        ultimately have "i + 1 \<le> k" using Suc.hyps(1) by blast
        then show ?thesis by simp
      next
        case False
        then show ?thesis using Suc.prems e Some by simp
      qed
    qed
  qed
  have down: "scanDown lessf data a i j = Some k \<Longrightarrow> k \<le> j" for i j k
  proof (induction j)
    case 0
    have "scanDown lessf data a i 0 = Some 0" by (subst scanDown.simps) simp
    then show ?case using 0 by simp
  next
    case (Suc j)
    show ?case
    proof (cases "i \<le> Suc j")
      case False
      then have "scanDown lessf data a i (Suc j) = Some (Suc j)" by (subst scanDown.simps) simp
      then show ?thesis using Suc.prems by simp
    next
      case True
      have e: "scanDown lessf data a i (Suc j) =
          (case lessf data (Suc j) a of
             None \<Rightarrow> None
           | Some False \<Rightarrow> scanDown lessf data a i j
           | Some True \<Rightarrow> Some (Suc j))"
        using True by (subst scanDown.simps) (simp split: option.splits bool.splits)
      show ?thesis
      proof (cases "lessf data (Suc j) a")
        case None
        then show ?thesis using Suc.prems e by simp
      next
        case (Some c)
        show ?thesis
        proof (cases "c = False")
          case True
          then have "scanDown lessf data a i j = Some k" using Suc.prems e Some by simp
          then have "k \<le> j" by (rule Suc.IH)
          then show ?thesis by simp
        next
          case False
          then show ?thesis using Suc.prems e Some by simp
        qed
      qed
    qed
  qed
  show ?case using 2 up [of i i'] down [of i' j j'] by auto
qed

definition partition' ::
  "'d lessFn \<Rightarrow> 'd swapFn \<Rightarrow> 'd \<Rightarrow> nat \<Rightarrow> nat \<Rightarrow> nat \<Rightarrow> ('d \<times> nat \<times> bool) option" where
  "partition' lessf swapf data a b pivot =
     (case swapf data a pivot of
        None \<Rightarrow> None
      | Some data1 \<Rightarrow>
          (case scanUp lessf data1 a (a + 1) (b - 1) of
             None \<Rightarrow> None
           | Some i \<Rightarrow>
               (case scanDown lessf data1 a i (b - 1) of
                  None \<Rightarrow> None
                | Some j \<Rightarrow>
                    if i > j then
                      (case swapf data1 j a of
                         None \<Rightarrow> None
                       | Some data2 \<Rightarrow> Some (data2, j, True))
                    else
                      (case swapf data1 i j of
                         None \<Rightarrow> None
                       | Some data2 \<Rightarrow>
                           (case partitionLoop lessf swapf a (i + 1) (j - 1) data2 of
                              None \<Rightarrow> None
                            | Some (data3, j') \<Rightarrow>
                                (case swapf data3 j' a of
                                   None \<Rightarrow> None
                                 | Some data4 \<Rightarrow> Some (data4, j', False)))))))"

text \<open>
  \<^verbatim>\<open>partitionEqual\<close>: the scans are \<^verbatim>\<open>for i <= j && !data.Less(a, i) { i++ }\<close> and
  \<^verbatim>\<open>for i <= j && data.Less(a, j) { j-- }\<close>.
\<close>

function scanUpEq :: "'d lessFn \<Rightarrow> 'd \<Rightarrow> nat \<Rightarrow> nat \<Rightarrow> nat \<Rightarrow> nat option" where
  "scanUpEq lessf data a i j =
     (if i \<le> j then
        (case lessf data a i of
           None \<Rightarrow> None
         | Some False \<Rightarrow> scanUpEq lessf data a (i + 1) j
         | Some True \<Rightarrow> Some i)
      else Some i)"
  by pat_completeness auto
termination
  by (relation "measure (\<lambda>(lessf, data, a, i, j). Suc j - i)") auto

function scanDownEq :: "'d lessFn \<Rightarrow> 'd \<Rightarrow> nat \<Rightarrow> nat \<Rightarrow> nat \<Rightarrow> nat option" where
  "scanDownEq lessf data a i j =
     (if i \<le> j \<and> 0 < j then
        (case lessf data a j of
           None \<Rightarrow> None
         | Some True \<Rightarrow> scanDownEq lessf data a i (j - 1)
         | Some False \<Rightarrow> Some j)
      else Some j)"
  by pat_completeness auto
termination
  by (relation "measure (\<lambda>(lessf, data, a, i, j). j)") auto

text \<open>The loop of \<^verbatim>\<open>partitionEqual\<close>; the result is \<open>(data, i)\<close>.\<close>

function partitionEqualLoop ::
  "'d lessFn \<Rightarrow> 'd swapFn \<Rightarrow> nat \<Rightarrow> nat \<Rightarrow> nat \<Rightarrow> 'd \<Rightarrow> ('d \<times> nat) option" where
  "partitionEqualLoop lessf swapf a i j data =
     (case scanUpEq lessf data a i j of
        None \<Rightarrow> None
      | Some i' \<Rightarrow>
          (case scanDownEq lessf data a i' j of
             None \<Rightarrow> None
           | Some j' \<Rightarrow>
               if i' > j' then Some (data, i')
               else
                 (case swapf data i' j' of
                    None \<Rightarrow> None
                  | Some data' \<Rightarrow> partitionEqualLoop lessf swapf a (i' + 1) (j' - 1) data')))"
  by pat_completeness auto
termination
proof (relation "measure (\<lambda>(lessf, swapf, a, i, j, data). Suc j - i)", goal_cases)
  case 1
  show ?case by simp
next
  case (2 lessf swapf a i j data i' j' data')
  have up: "scanUpEq lessf data a i j = Some k \<Longrightarrow> i \<le> k" for i k
  proof (induction "Suc j - i" arbitrary: i)
    case 0
    then have "\<not> i \<le> j" by arith
    then have "scanUpEq lessf data a i j = Some i" by (subst scanUpEq.simps) simp
    then show ?case using 0 by simp
  next
    case (Suc n)
    have ij: "i \<le> j" using Suc.hyps(2) by arith
    have e: "scanUpEq lessf data a i j =
        (case lessf data a i of
           None \<Rightarrow> None
         | Some False \<Rightarrow> scanUpEq lessf data a (i + 1) j
         | Some True \<Rightarrow> Some i)"
      using ij by (subst scanUpEq.simps) (simp split: option.splits bool.splits)
    show ?case
    proof (cases "lessf data a i")
      case None
      then show ?thesis using Suc.prems e by simp
    next
      case (Some c)
      show ?thesis
      proof (cases "c = False")
        case True
        then have "scanUpEq lessf data a (i + 1) j = Some k" using Suc.prems e Some by simp
        moreover have "n = Suc j - (i + 1)" using Suc.hyps(2) by arith
        ultimately have "i + 1 \<le> k" using Suc.hyps(1) by blast
        then show ?thesis by simp
      next
        case False
        then show ?thesis using Suc.prems e Some by simp
      qed
    qed
  qed
  have down: "scanDownEq lessf data a i j = Some k \<Longrightarrow> k \<le> j" for i j k
  proof (induction j)
    case 0
    have "scanDownEq lessf data a i 0 = Some 0" by (subst scanDownEq.simps) simp
    then show ?case using 0 by simp
  next
    case (Suc j)
    show ?case
    proof (cases "i \<le> Suc j")
      case False
      then have "scanDownEq lessf data a i (Suc j) = Some (Suc j)" by (subst scanDownEq.simps) simp
      then show ?thesis using Suc.prems by simp
    next
      case True
      have e: "scanDownEq lessf data a i (Suc j) =
          (case lessf data a (Suc j) of
             None \<Rightarrow> None
           | Some True \<Rightarrow> scanDownEq lessf data a i j
           | Some False \<Rightarrow> Some (Suc j))"
        using True by (subst scanDownEq.simps) (simp split: option.splits bool.splits)
      show ?thesis
      proof (cases "lessf data a (Suc j)")
        case None
        then show ?thesis using Suc.prems e by simp
      next
        case (Some c)
        show ?thesis
        proof (cases "c = True")
          case True
          then have "scanDownEq lessf data a i j = Some k" using Suc.prems e Some by simp
          then have "k \<le> j" by (rule Suc.IH)
          then show ?thesis by simp
        next
          case False
          then show ?thesis using Suc.prems e Some by simp
        qed
      qed
    qed
  qed
  show ?case using 2 up [of i i'] down [of i' j j'] by auto
qed

definition partitionEqual ::
  "'d lessFn \<Rightarrow> 'd swapFn \<Rightarrow> 'd \<Rightarrow> nat \<Rightarrow> nat \<Rightarrow> nat \<Rightarrow> ('d \<times> nat) option" where
  "partitionEqual lessf swapf data a b pivot =
     (case swapf data a pivot of
        None \<Rightarrow> None
      | Some data1 \<Rightarrow> partitionEqualLoop lessf swapf a (a + 1) (b - 1) data1)"


text \<open>
  \<^verbatim>\<open>partialInsertionSort\<close>. The scan \<^verbatim>\<open>for i < b && !data.Less(i, i-1) { i++ }\<close>:
\<close>

function scanSorted :: "'d lessFn \<Rightarrow> 'd \<Rightarrow> nat \<Rightarrow> nat \<Rightarrow> nat option" where
  "scanSorted lessf data b i =
     (if i < b then
        (case lessf data i (i - 1) of
           None \<Rightarrow> None
         | Some False \<Rightarrow> scanSorted lessf data b (i + 1)
         | Some True \<Rightarrow> Some i)
      else Some i)"
  by pat_completeness auto
termination
  by (relation "measure (\<lambda>(lessf, data, b, i). b - i)") auto

text \<open>
  \<^verbatim>\<open>for j := i - 1; j >= 1; j-- { if !data.Less(j, j-1) { break }; data.Swap(j, j-1) }\<close>
\<close>

fun shiftSmaller :: "'d lessFn \<Rightarrow> 'd swapFn \<Rightarrow> nat \<Rightarrow> 'd \<Rightarrow> 'd option" where
  "shiftSmaller lessf swapf j data =
     (if j \<ge> 1 then
        (case lessf data j (j - 1) of
           None \<Rightarrow> None
         | Some False \<Rightarrow> Some data
         | Some True \<Rightarrow>
             (case swapf data j (j - 1) of
                None \<Rightarrow> None
              | Some data' \<Rightarrow> shiftSmaller lessf swapf (j - 1) data'))
      else Some data)"

text \<open>
  \<^verbatim>\<open>for j := i + 1; j < b; j++ { if !data.Less(j, j-1) { break }; data.Swap(j, j-1) }\<close>
\<close>

function shiftGreater :: "'d lessFn \<Rightarrow> 'd swapFn \<Rightarrow> nat \<Rightarrow> nat \<Rightarrow> 'd \<Rightarrow> 'd option" where
  "shiftGreater lessf swapf b j data =
     (if j < b then
        (case lessf data j (j - 1) of
           None \<Rightarrow> None
         | Some False \<Rightarrow> Some data
         | Some True \<Rightarrow>
             (case swapf data j (j - 1) of
                None \<Rightarrow> None
              | Some data' \<Rightarrow> shiftGreater lessf swapf b (j + 1) data'))
      else Some data)"
  by pat_completeness auto
termination
  by (relation "measure (\<lambda>(lessf, swapf, b, j, data). b - j)") auto

text \<open>
  The loop \<^verbatim>\<open>for j := 0; j < maxSteps; j++\<close> with \<open>steps\<close> turns left; \<^verbatim>\<open>maxSteps\<close> is
  5 and \<^verbatim>\<open>shortestShifting\<close> is 50. The result is \<open>(data, sorted)\<close>.
\<close>

fun partialInsertionLoop ::
  "'d lessFn \<Rightarrow> 'd swapFn \<Rightarrow> nat \<Rightarrow> nat \<Rightarrow> nat \<Rightarrow> nat \<Rightarrow> 'd \<Rightarrow> ('d \<times> bool) option" where
  "partialInsertionLoop lessf swapf a b 0 i data = Some (data, False)"
| "partialInsertionLoop lessf swapf a b (Suc steps) i data =
     (case scanSorted lessf data b i of
        None \<Rightarrow> None
      | Some i' \<Rightarrow>
          if i' = b then Some (data, True)
          else if b - a < 50 then Some (data, False)
          else
            (case swapf data i' (i' - 1) of
               None \<Rightarrow> None
             | Some data1 \<Rightarrow>
                 (case (if i' - a \<ge> 2 then shiftSmaller lessf swapf (i' - 1) data1
                        else Some data1) of
                    None \<Rightarrow> None
                  | Some data2 \<Rightarrow>
                      (case (if b - i' \<ge> 2 then shiftGreater lessf swapf b (i' + 1) data2
                             else Some data2) of
                         None \<Rightarrow> None
                       | Some data3 \<Rightarrow> partialInsertionLoop lessf swapf a b steps i' data3))))"

definition partialInsertionSort ::
  "'d lessFn \<Rightarrow> 'd swapFn \<Rightarrow> 'd \<Rightarrow> nat \<Rightarrow> nat \<Rightarrow> ('d \<times> bool) option" where
  "partialInsertionSort lessf swapf data a b = partialInsertionLoop lessf swapf a b 5 (a + 1) data"

text \<open>
  \<^verbatim>\<open>bits.Len\<close>, \<^verbatim>\<open>nextPowerOfTwo\<close> and the generator \<^verbatim>\<open>xorshift\<close>, whose step is
  \<^verbatim>\<open>*r ^= *r << 13; *r ^= *r >> 17; *r ^= *r << 5\<close>. The generator only chooses which
  elements \<^verbatim>\<open>breakPatterns\<close> exchanges; what is proved of \<open>pdqsort\<close> below holds for
  every value it can return.
\<close>

fun bitsLen :: "nat \<Rightarrow> nat" where
  "bitsLen n = (if n = 0 then 0 else Suc (bitsLen (n div 2)))"

definition nextPowerOfTwo :: "nat \<Rightarrow> nat" where
  "nextPowerOfTwo len = 2 ^ bitsLen len"

definition xorshiftNext :: "64 word \<Rightarrow> 64 word" where
  "xorshiftNext r =
     (let r1 = r XOR push_bit 13 r; r2 = r1 XOR drop_bit 17 r1 in r2 XOR push_bit 5 r2)"

text \<open>The loop \<^verbatim>\<open>for i := 0; i < 3; i++\<close> of \<^verbatim>\<open>breakPatterns\<close>.\<close>

fun breakPatternsLoop ::
  "'d swapFn \<Rightarrow> nat \<Rightarrow> nat \<Rightarrow> nat \<Rightarrow> nat \<Rightarrow> nat list \<Rightarrow> 64 word \<Rightarrow> 'd \<Rightarrow> 'd option" where
  "breakPatternsLoop swapf a len modulus idx [] random data = Some data"
| "breakPatternsLoop swapf a len modulus idx (i # is) random data =
     (let random' = xorshiftNext random;
          other = unat (random' AND (of_nat modulus - 1));
          other' = (if other \<ge> len then other - len else other)
      in case swapf data (idx - 1 + i) (a + other') of
           None \<Rightarrow> None
         | Some data' \<Rightarrow> breakPatternsLoop swapf a len modulus idx is random' data')"

definition breakPatterns :: "'d swapFn \<Rightarrow> 'd \<Rightarrow> nat \<Rightarrow> nat \<Rightarrow> 'd option" where
  "breakPatterns swapf data a b =
     (let len = b - a in
      if len \<ge> 8 then
        breakPatternsLoop swapf a len (nextPowerOfTwo len) (a + (len div 4) * 2 - 1)
          [0, 1, 2] (of_nat len) data
      else Some data)"

text \<open>\<^verbatim>\<open>order2\<close>, \<^verbatim>\<open>median\<close>, \<^verbatim>\<open>medianAdjacent\<close>: the counter \<^verbatim>\<open>*swaps\<close> is passed along.\<close>

definition order2 :: "'d lessFn \<Rightarrow> 'd \<Rightarrow> nat \<Rightarrow> nat \<Rightarrow> nat \<Rightarrow> (nat \<times> nat \<times> nat) option" where
  "order2 lessf data x y swaps =
     (case lessf data y x of
        None \<Rightarrow> None
      | Some True \<Rightarrow> Some (y, x, swaps + 1)
      | Some False \<Rightarrow> Some (x, y, swaps))"

definition median :: "'d lessFn \<Rightarrow> 'd \<Rightarrow> nat \<Rightarrow> nat \<Rightarrow> nat \<Rightarrow> nat \<Rightarrow> (nat \<times> nat) option" where
  "median lessf data x y z swaps =
     (case order2 lessf data x y swaps of
        None \<Rightarrow> None
      | Some (x1, y1, s1) \<Rightarrow>
          (case order2 lessf data y1 z s1 of
             None \<Rightarrow> None
           | Some (y2, z2, s2) \<Rightarrow>
               (case order2 lessf data x1 y2 s2 of
                  None \<Rightarrow> None
                | Some (x3, y3, s3) \<Rightarrow> Some (y3, s3))))"

definition medianAdjacent :: "'d lessFn \<Rightarrow> 'd \<Rightarrow> nat \<Rightarrow> nat \<Rightarrow> (nat \<times> nat) option" where
  "medianAdjacent lessf data x swaps =
     (if x = 0 then None else median lessf data (x - 1) x (x + 1) swaps)"

text \<open>\<^verbatim>\<open>choosePivot\<close>: \<^verbatim>\<open>shortestNinther\<close> is 50, \<^verbatim>\<open>maxSwaps\<close> is 12.\<close>

definition choosePivot :: "'d lessFn \<Rightarrow> 'd \<Rightarrow> nat \<Rightarrow> nat \<Rightarrow> (nat \<times> sortedHint) option" where
  "choosePivot lessf data a b =
     (let l = b - a;
          i = a + l div 4 * 1;
          j = a + l div 4 * 2;
          k = a + l div 4 * 3
      in case (if l \<ge> 8 then
                 (case (if l \<ge> 50 then
                          (case medianAdjacent lessf data i 0 of
                             None \<Rightarrow> None
                           | Some (i', s1) \<Rightarrow>
                               (case medianAdjacent lessf data j s1 of
                                  None \<Rightarrow> None
                                | Some (j', s2) \<Rightarrow>
                                    (case medianAdjacent lessf data k s2 of
                                       None \<Rightarrow> None
                                     | Some (k', s3) \<Rightarrow> Some (i', j', k', s3))))
                        else Some (i, j, k, 0)) of
                    None \<Rightarrow> None
                  | Some (i', j', k', s) \<Rightarrow> median lessf data i' j' k' s)
               else Some (j, 0)) of
           None \<Rightarrow> None
         | Some (j', swaps) \<Rightarrow>
             Some (j', if swaps = 0 then increasingHint
                       else if swaps = 12 then decreasingHint else unknownHint))"

text \<open>\<^verbatim>\<open>reverseRange\<close>: \<^verbatim>\<open>for i < j { data.Swap(i, j); i++; j-- }\<close>\<close>

function reverseLoop :: "'d swapFn \<Rightarrow> nat \<Rightarrow> nat \<Rightarrow> 'd \<Rightarrow> 'd option" where
  "reverseLoop swapf i j data =
     (if i < j then
        (case swapf data i j of
           None \<Rightarrow> None
         | Some data' \<Rightarrow> reverseLoop swapf (i + 1) (j - 1) data')
      else Some data)"
  by pat_completeness auto
termination
  by (relation "measure (\<lambda>(swapf, i, j, data). j - i)") auto

definition reverseRange :: "'d swapFn \<Rightarrow> 'd \<Rightarrow> nat \<Rightarrow> nat \<Rightarrow> 'd option" where
  "reverseRange swapf data a b = (if b = 0 then Some data else reverseLoop swapf a (b - 1) data)"

text \<open>
  \<^verbatim>\<open>pdqsort(data, a, b, limit)\<close>. The variables \<^verbatim>\<open>wasBalanced\<close> and \<^verbatim>\<open>wasPartitioned\<close>
  of its loop are arguments here; a call of the source starts with both true.
  \<^verbatim>\<open>maxInsertion\<close> is 12. One turn of the loop up to its partition is \<open>pdqsortTurn\<close>:
  the slice is sorted and the function returns (\<open>Return\<close>), or the turn ends in
  \<^verbatim>\<open>partitionEqual\<close> (\<open>Equal data mid limit\<close>), or in \<^verbatim>\<open>partition\<close>
  (\<open>Split data mid alreadyPartitioned limit\<close>).
\<close>

datatype 'd turn = Return 'd | Equal 'd nat nat | Split 'd nat bool nat

definition pdqsortTurn ::
  "'d lessFn \<Rightarrow> 'd swapFn \<Rightarrow> nat \<Rightarrow> nat \<Rightarrow> nat \<Rightarrow> bool \<Rightarrow> bool \<Rightarrow> 'd \<Rightarrow> 'd turn option" where
  "pdqsortTurn lessf swapf a b limit wasBalanced wasPartitioned data =
     (let len = b - a in
      if len \<le> 12 then map_option Return (insertionSort lessf swapf data a b)
      else if limit = 0 then map_option Return (heapSort lessf swapf data a b)
      else do {
        (data1, limit1) \<leftarrow>
          (if \<not> wasBalanced
           then do { d \<leftarrow> breakPatterns swapf data a b; Some (d, limit - 1) }
           else Some (data, limit));
        (pivot, hint) \<leftarrow> choosePivot lessf data1 a b;
        (data2, pivot2, hint2) \<leftarrow>
          (if hint = decreasingHint
           then do { d \<leftarrow> reverseRange swapf data1 a b;
                     Some (d, (b - 1) - (pivot - a), increasingHint) }
           else Some (data1, pivot, hint));
        (data3, isSorted) \<leftarrow>
          (if wasBalanced \<and> wasPartitioned \<and> hint2 = increasingHint
           then partialInsertionSort lessf swapf data2 a b
           else Some (data2, False));
        if isSorted then Some (Return data3)
        else do {
          equal \<leftarrow>
            (if a > 0 then do { l \<leftarrow> lessf data3 (a - 1) pivot2; Some (\<not> l) }
             else Some False);
          if equal then do {
            (data4, mid) \<leftarrow> partitionEqual lessf swapf data3 a b pivot2;
            Some (Equal data4 mid limit1)
          } else do {
            (data4, mid, alreadyPartitioned) \<leftarrow> partition' lessf swapf data3 a b pivot2;
            Some (Split data4 mid alreadyPartitioned limit1)
          }
        }
      })"

partial_function (option) pdqsortLoop ::
  "'d lessFn \<times> 'd swapFn \<times> nat \<times> nat \<times> nat \<times> bool \<times> bool \<times> 'd \<Rightarrow> 'd option" where
  "pdqsortLoop args =
     (case args of (lessf, swapf, a, b, limit, wasBalanced, wasPartitioned, data) \<Rightarrow>
      (case pdqsortTurn lessf swapf a b limit wasBalanced wasPartitioned data of
         None \<Rightarrow> None
       | Some (Return data') \<Rightarrow> Some data'
       | Some (Equal data' mid limit') \<Rightarrow>
           pdqsortLoop (lessf, swapf, mid, b, limit', wasBalanced, wasPartitioned, data')
       | Some (Split data' mid alreadyPartitioned limit') \<Rightarrow>
           (let leftLen = mid - a; rightLen = b - mid; balanceThreshold = (b - a) div 8
            in if leftLen < rightLen then do {
                 data'' \<leftarrow> pdqsortLoop (lessf, swapf, a, mid, limit', True, True, data');
                 pdqsortLoop (lessf, swapf, mid + 1, b, limit',
                   leftLen \<ge> balanceThreshold, alreadyPartitioned, data'')
               } else do {
                 data'' \<leftarrow> pdqsortLoop (lessf, swapf, mid + 1, b, limit', True, True, data');
                 pdqsortLoop (lessf, swapf, a, mid, limit',
                   rightLen \<ge> balanceThreshold, alreadyPartitioned, data'')
               })))"

declare pdqsortLoop.simps [code]

definition pdqsort :: "'d lessFn \<Rightarrow> 'd swapFn \<Rightarrow> 'd \<Rightarrow> nat \<Rightarrow> nat \<Rightarrow> nat \<Rightarrow> 'd option" where
  "pdqsort lessf swapf data a b limit = pdqsortLoop (lessf, swapf, a, b, limit, True, True, data)"


text \<open>\<^verbatim>\<open>color.RGBA\<close> samples (alpha-premultiplied) and 16-bit samples.\<close>

type_synonym RGBA = "uint8 \<times> uint8 \<times> uint8 \<times> uint8"
type_synonym imageRGBA = "RGBA raster"
type_synonym uint16 = "16 word"

record imagePaletted = "uint8 raster" +
  Palette :: Palette

text \<open>
  What \<^verbatim>\<open>png.Decode\<close> returns (the list in the comment of \<^verbatim>\<open>Optimize\<close>).
\<close>

datatype image =
    ImageRGBA imageRGBA
  | ImageNRGBA imageNRGBA
  | ImagePaletted imagePaletted
  | ImageGray imageGray
  | ImageGray16 "uint16 raster"
  | ImageRGBA64 "(uint16 \<times> uint16 \<times> uint16 \<times> uint16) raster"
  | ImageNRGBA64 "(uint16 \<times> uint16 \<times> uint16 \<times> uint16) raster"

fun imageBounds :: "image \<Rightarrow> Rectangle" where
  "imageBounds (ImageRGBA v) = Bounds v"
| "imageBounds (ImageNRGBA v) = Bounds v"
| "imageBounds (ImagePaletted v) = Bounds v"
| "imageBounds (ImageGray v) = Bounds v"
| "imageBounds (ImageGray16 v) = Bounds v"
| "imageBounds (ImageRGBA64 v) = Bounds v"
| "imageBounds (ImageNRGBA64 v) = Bounds v"

text \<open>\<^verbatim>\<open>image.Rect\<close> puts the corners in order.\<close>

definition imageRect :: "int \<Rightarrow> int \<Rightarrow> int \<Rightarrow> int \<Rightarrow> Rectangle" where
  "imageRect x0 y0 x1 y1 =
     \<lparr>MinX = min x0 x1, MinY = min y0 y1, MaxX = max x0 x1, MaxY = max y0 y1\<rparr>"

definition ColorIndexAt :: "imagePaletted \<Rightarrow> int \<Rightarrow> int \<Rightarrow> uint8" where
  "ColorIndexAt img x y = (if In x y (Rect img) then Pix img x y else 0)"

subsection \<open>Errors\<close>

text \<open>
  \<open>Wrapped p e\<close> is \<^verbatim>\<open>fmt.Errorf(p + "%w", e)\<close>. A run-time panic is not an error
  value in Go; it is an outcome of a call all the same and is carried here as \<open>Panic\<close>.
\<close>

datatype error =
    errNoVariants
  | CodecError string
  | OSError string
  | Wrapped string error
  | Panic

subsection \<open>What the program takes from outside\<close>

record platform =
  Encode :: "image \<Rightarrow> string + bytes"
  Decode :: "bytes \<Rightarrow> string + image"
  DrawNRGBA :: "imageRGBA \<Rightarrow> int \<Rightarrow> int \<Rightarrow> NRGBA"
  DrawPaletted :: "image \<Rightarrow> Palette \<Rightarrow> int \<Rightarrow> int \<Rightarrow> uint8"
  rangeNRGBA :: "(NRGBA \<rightharpoonup> uint) \<Rightarrow> NRGBA list"
  rangeGray :: "(uint8 \<rightharpoonup> uint) \<Rightarrow> uint8 list"
  pdqsortNRGBA :: "nrgbaPaletteSorter \<Rightarrow> nrgbaPaletteSorter option"
  pdqsortGray :: "(uint8 \<rightharpoonup> uint) \<Rightarrow> uint8 list \<Rightarrow> uint8 list option"

text \<open>
  \<^item> \<open>Encode\<close>, \<open>Decode\<close>: \<^verbatim>\<open>png.Encoder.Encode\<close> and \<^verbatim>\<open>png.Decode\<close>, with the
    error message or the bytes.
  \<^item> \<open>DrawNRGBA\<close>, \<open>DrawPaletted\<close>: the samples that \<^verbatim>\<open>draw.Draw\<close> with
    \<^verbatim>\<open>draw.Src\<close> writes into a fresh \<^verbatim>\<open>image.NRGBA\<close> or \<^verbatim>\<open>image.Paletted\<close>.
  \<^item> \<open>rangeNRGBA\<close>, \<open>rangeGray\<close>: the order in which \<^verbatim>\<open>for c := range colors\<close>
    visits the keys of the map. Go leaves the order open; it is a list of the keys, each
    once (\<open>enumerates\<close> below).
  \<^item> \<open>pdqsortNRGBA\<close>, \<open>pdqsortGray\<close>: what the library's sort does with a slice
    of more than 12 elements.
\<close>

definition enumerates :: "'k list \<Rightarrow> ('k \<rightharpoonup> uint) \<Rightarrow> bool" where
  "enumerates ks m = (distinct ks \<and> set ks = dom m)"

text \<open>\<^verbatim>\<open>sort.Sort(s)\<close>\<close>

definition sortSort :: "platform \<Rightarrow> nrgbaPaletteSorter \<Rightarrow> nrgbaPaletteSorter option" where
  "sortSort pf data =
     (let n = Len data in
      if n \<le> 1 then Some data
      else if n \<le> 12 then insertionSort Less Swap data 0 n
      else pdqsortNRGBA pf data)"

text \<open>
  \<^verbatim>\<open>sort.Slice(rawPalette, func(i, j int) bool {
      return colors[rawPalette[i]]-colors[rawPalette[j]] > 0 })\<close>
\<close>

definition lessGray :: "(uint8 \<rightharpoonup> uint) \<Rightarrow> uint8 list \<Rightarrow> nat \<Rightarrow> nat \<Rightarrow> bool option" where
  "lessGray cols rawPalette i j =
     (if i < length rawPalette \<and> j < length rawPalette
      then Some (get cols (rawPalette ! i) - get cols (rawPalette ! j) > 0)
      else None)"

definition swapSlice :: "'a list \<Rightarrow> nat \<Rightarrow> nat \<Rightarrow> 'a list option" where
  "swapSlice xs i j =
     (if i < length xs \<and> j < length xs then Some (xs[i := xs ! j, j := xs ! i]) else None)"

definition sortSlice :: "platform \<Rightarrow> (uint8 \<rightharpoonup> uint) \<Rightarrow> uint8 list \<Rightarrow> uint8 list option" where
  "sortSlice pf cols rawPalette =
     (let n = length rawPalette in
      if n \<le> 12 then insertionSort (lessGray cols) swapSlice rawPalette 0 n
      else pdqsortGray pf cols rawPalette)"

subsection \<open>Colour classifier and palette builders\<close>

text \<open>
  One turn of the loop of \<^verbatim>\<open>countNRGBAColors\<close>; the state is
  \<^verbatim>\<open>(colors, hasTransparent, hasPartAlpha, isGray)\<close>.
\<close>

definition countStep ::
  "NRGBA set \<times> bool \<times> bool \<times> bool \<Rightarrow> NRGBA \<Rightarrow> NRGBA set \<times> bool \<times> bool \<times> bool" where
  "countStep s c =
     (case s of (cols, hasTransparent, hasPartAlpha, isGray) \<Rightarrow>
        (insert c cols,
         (if A c < 255 \<and> A c = 0 then True else hasTransparent),
         (if A c < 255 \<and> A c \<noteq> 0 then True else hasPartAlpha),
         (if R c \<noteq> G c \<or> R c \<noteq> B c \<or> G c \<noteq> B c then False else isGray)))"

text \<open>The result is \<^verbatim>\<open>(n, hasTransparent, hasPartAlpha, isGray)\<close>.\<close>

definition countNRGBAColors :: "imageNRGBA \<Rightarrow> nat \<times> bool \<times> bool \<times> bool" where
  "countNRGBAColors img =
     (case foldl countStep ({}, False, False, True) (pixelsNRGBA img) of
        (cols, hasTransparent, hasPartAlpha, isGray) \<Rightarrow>
          (card cols, hasTransparent, hasPartAlpha, isGray))"

text \<open>
  \<^verbatim>\<open>hint\<close> only sizes the map that \<^verbatim>\<open>make\<close> allocates; it does not change the
  result.
\<close>

definition paletteFromNRGBA :: "platform \<Rightarrow> imageNRGBA \<Rightarrow> nat \<Rightarrow> Palette option" where
  "paletteFromNRGBA pf img hint =
     (let cols = frequencies (pixelsNRGBA img);
          rawPalette = rangeNRGBA pf cols;
          s = \<lparr>colors = cols, palette = rawPalette\<rparr>
      in case sortSort pf s of
           None \<Rightarrow> None
         | Some s' \<Rightarrow> Some (map ColorNRGBA (palette s')))"

definition countGrayColors :: "imageGray \<Rightarrow> nat" where
  "countGrayColors img = card (foldl (\<lambda>cols c. insert c cols) {} (pixelsGray img))"

definition paletteFromGray :: "platform \<Rightarrow> imageGray \<Rightarrow> nat \<Rightarrow> Palette option" where
  "paletteFromGray pf img hint =
     (let cols = frequencies (pixelsGray img);
          rawPalette = rangeGray pf cols
      in case sortSlice pf cols rawPalette of
           None \<Rightarrow> None
         | Some rawPalette' \<Rightarrow> Some (map ColorGray rawPalette'))"


subsection \<open>Representation converters\<close>

text \<open>
  \<^verbatim>\<open>nrgba2gray\<close>: a fresh \<^verbatim>\<open>image.Gray\<close> (all samples zero) over
  \<^verbatim>\<open>image.Rect(0, 0, Dx, Dy)\<close>; the loops set the sample at \<open>(dx, dy)\<close> to the red
  channel of the source at \<open>(Min.X + dx, Min.Y + dy)\<close>.
\<close>

definition nrgba2gray :: "imageNRGBA \<Rightarrow> imageGray" where
  "nrgba2gray img =
     (let bounds = Bounds img in
      \<lparr>Rect = imageRect 0 0 (Dx bounds) (Dy bounds),
       Pix = (\<lambda>dx dy.
         if 0 \<le> dx \<and> dx < Dx bounds \<and> 0 \<le> dy \<and> dy < Dy bounds
         then R (NRGBAAt img (MinX bounds + dx) (MinY bounds + dy))
         else 0)\<rparr>)"

text \<open>
  The method \<^verbatim>\<open>RGBA()\<close> of the three colour types (package \<^verbatim>\<open>image/color\<close>):
  16-bit alpha-premultiplied channels in a \<^verbatim>\<open>uint32\<close>.
\<close>

definition widen :: "uint8 \<Rightarrow> uint32" where
  "widen v = (let r = ucast v in r OR push_bit 8 r)"

fun RGBA :: "Color \<Rightarrow> uint32 \<times> uint32 \<times> uint32 \<times> uint32" where
  "RGBA (ColorNRGBA c) =
     (widen (R c) * ucast (A c) div 255, widen (G c) * ucast (A c) div 255,
      widen (B c) * ucast (A c) div 255, widen (A c))"
| "RGBA (ColorGray y) = (widen y, widen y, widen y, 65535)"
| "RGBA (ColorRGBA r g b a) = (widen r, widen g, widen b, widen a)"

text \<open>\<^verbatim>\<open>math.MaxUint16\<close> is 65535.\<close>

fun isGrayPalette :: "Palette \<Rightarrow> bool" where
  "isGrayPalette [] = True"
| "isGrayPalette (c # cs) =
     (case RGBA c of (r, g, b, a) \<Rightarrow>
        if a < 65535 \<or> r \<noteq> g \<or> r \<noteq> b \<or> g \<noteq> b then False else isGrayPalette cs)"

text \<open>
  \<^verbatim>\<open>paletted2gray\<close> reads \<^verbatim>\<open>img.Palette[img.ColorIndexAt(sx, sy)]\<close>, which panics
  when a sample is not an index of the palette.
\<close>

definition paletted2gray :: "imagePaletted \<Rightarrow> imageGray option" where
  "paletted2gray img =
     (let bounds = Bounds img in
      if list_all (\<lambda>(sx, sy). unat (ColorIndexAt img sx sy) < length (Palette img)) (scan bounds)
      then Some
        \<lparr>Rect = imageRect 0 0 (Dx bounds) (Dy bounds),
         Pix = (\<lambda>dx dy.
           if 0 \<le> dx \<and> dx < Dx bounds \<and> 0 \<le> dy \<and> dy < Dy bounds
           then (case RGBA (Palette img !
                   unat (ColorIndexAt img (MinX bounds + dx) (MinY bounds + dy))) of
                   (r, g, b, a) \<Rightarrow> ucast (drop_bit 8 r))
           else 0)\<rparr>
      else None)"

text \<open>
  \<^verbatim>\<open>asPaletted\<close>: \<^verbatim>\<open>image.NewPaletted\<close> over \<^verbatim>\<open>image.Rect(0, 0, Dx, Dy)\<close> with the
  palette, filled by \<^verbatim>\<open>draw.Draw\<close>, then encoded.
\<close>

definition asPaletted :: "platform \<Rightarrow> image \<Rightarrow> Palette \<Rightarrow> error + bytes" where
  "asPaletted pf src pal =
     (let bounds = imageBounds src;
          paletted = \<lparr>Rect = imageRect 0 0 (Dx bounds) (Dy bounds),
                      Pix = DrawPaletted pf src pal, Palette = pal\<rparr>
      in case Encode pf (ImagePaletted paletted) of
           Inl e \<Rightarrow> Inl (Wrapped ''error encode paletted: '' (CodecError e))
         | Inr buf \<Rightarrow> Inr buf)"

subsection \<open>Variants and the selector\<close>

record variant =
  b :: bytes
  as :: string

type_synonym variantsList = "variant list"

text \<open>The loop \<^verbatim>\<open>for i := 1; i < len(v); i++\<close> of \<^verbatim>\<open>best\<close>, over \<^verbatim>\<open>v[1:]\<close>.\<close>

fun bestFrom :: "variantsList \<Rightarrow> bytes \<Rightarrow> string \<Rightarrow> bytes \<times> string" where
  "bestFrom [] buf label = (buf, label)"
| "bestFrom (vv # vs) buf label =
     (if length (b vv) < length buf then bestFrom vs (b vv) (as vv) else bestFrom vs buf label)"

definition best :: "variantsList \<Rightarrow> error + bytes \<times> string" where
  "best v =
     (if length v = 0 then Inl errNoVariants
      else Inr (bestFrom (tl v) (b (hd v)) (as (hd v))))"

subsection \<open>Variant generators\<close>

text \<open>
  Each \<^verbatim>\<open>optimize...\<close> function of the source builds its \<^verbatim>\<open>variants\<close> and ends
  with \<^verbatim>\<open>return variants.best()\<close>. The part before that statement is the function
  \<open>variants...\<close> here.
\<close>

definition variantsNRGBA :: "platform \<Rightarrow> imageNRGBA \<Rightarrow> error + variantsList" where
  "variantsNRGBA pf src =
     (case Encode pf (ImageNRGBA src) of
        Inl e \<Rightarrow> Inl (Wrapped ''error encode src: '' (CodecError e))
      | Inr b0 \<Rightarrow>
          (let variants = [\<lparr>b = b0, as = ''src (nrgba/rgb)''\<rparr>] in
           case countNRGBAColors src of (nColors, hasTransparent, hasPartAlpha, isGray) \<Rightarrow>
             (let hasAlpha = (hasTransparent \<or> hasPartAlpha) in
              case (if isGray \<and> \<not> hasAlpha
                    then (case Encode pf (ImageGray (nrgba2gray src)) of
                            Inl e \<Rightarrow> Inl (Wrapped ''error encode gray: '' (CodecError e))
                          | Inr b1 \<Rightarrow> Inr (variants @ [\<lparr>b = b1, as = ''gray''\<rparr>]))
                    else Inr variants) of
                Inl e \<Rightarrow> Inl e
              | Inr variants \<Rightarrow>
                  if nColors \<le> 256
                  then (case paletteFromNRGBA pf src nColors of
                          None \<Rightarrow> Inl Panic
                        | Some pal \<Rightarrow>
                            (case asPaletted pf (ImageNRGBA src) pal of
                               Inl e \<Rightarrow> Inl e
                             | Inr b2 \<Rightarrow> Inr (variants @ [\<lparr>b = b2, as = ''paletted''\<rparr>])))
                  else Inr variants)))"

definition optimizeNRGBA :: "platform \<Rightarrow> imageNRGBA \<Rightarrow> error + bytes \<times> string" where
  "optimizeNRGBA pf src =
     (case variantsNRGBA pf src of Inl e \<Rightarrow> Inl e | Inr variants \<Rightarrow> best variants)"

text \<open>
  \<^verbatim>\<open>optimizeRGBA\<close>: a fresh \<^verbatim>\<open>image.NRGBA\<close> over \<^verbatim>\<open>image.Rect(0, 0, Dx, Dy)\<close>
  filled by \<^verbatim>\<open>draw.Draw\<close>, then \<^verbatim>\<open>optimizeNRGBA\<close>.
\<close>

definition RGBA2NRGBA :: "platform \<Rightarrow> imageRGBA \<Rightarrow> imageNRGBA" where
  "RGBA2NRGBA pf src =
     (let bounds = Bounds src in
      \<lparr>Rect = imageRect 0 0 (Dx bounds) (Dy bounds), Pix = DrawNRGBA pf src\<rparr>)"

definition optimizeRGBA :: "platform \<Rightarrow> imageRGBA \<Rightarrow> error + bytes \<times> string" where
  "optimizeRGBA pf src = optimizeNRGBA pf (RGBA2NRGBA pf src)"

definition variantsPaletted :: "platform \<Rightarrow> imagePaletted \<Rightarrow> error + variantsList" where
  "variantsPaletted pf src =
     (case Encode pf (ImagePaletted src) of
        Inl e \<Rightarrow> Inl (Wrapped ''error encode src: '' (CodecError e))
      | Inr b0 \<Rightarrow>
          (let variants = [\<lparr>b = b0, as = ''src (paletted)''\<rparr>] in
           if isGrayPalette (Palette src)
           then (case paletted2gray src of
                   None \<Rightarrow> Inl Panic
                 | Some gray \<Rightarrow>
                     (case Encode pf (ImageGray gray) of
                        Inl e \<Rightarrow> Inl (Wrapped ''error encode gray: '' (CodecError e))
                      | Inr b1 \<Rightarrow> Inr (variants @ [\<lparr>b = b1, as = ''gray''\<rparr>])))
           else Inr variants))"

definition optimizePaletted :: "platform \<Rightarrow> imagePaletted \<Rightarrow> error + bytes \<times> string" where
  "optimizePaletted pf src =
     (case variantsPaletted pf src of Inl e \<Rightarrow> Inl e | Inr variants \<Rightarrow> best variants)"

definition variantsGray :: "platform \<Rightarrow> imageGray \<Rightarrow> error + variantsList" where
  "variantsGray pf src =
     (case Encode pf (ImageGray src) of
        Inl e \<Rightarrow> Inl (Wrapped ''error encode src: '' (CodecError e))
      | Inr b0 \<Rightarrow>
          (let variants = [\<lparr>b = b0, as = ''src (gray)''\<rparr>];
               nColors = countGrayColors src in
           if nColors \<le> 256
           then (case paletteFromGray pf src nColors of
                   None \<Rightarrow> Inl Panic
                 | Some pal \<Rightarrow>
                     (case asPaletted pf (ImageGray src) pal of
                        Inl e \<Rightarrow> Inl e
                      | Inr b1 \<Rightarrow> Inr (variants @ [\<lparr>b = b1, as = ''paletted''\<rparr>])))
           else Inr variants))"

definition optimizeGray :: "platform \<Rightarrow> imageGray \<Rightarrow> error + bytes \<times> string" where
  "optimizeGray pf src =
     (case variantsGray pf src of Inl e \<Rightarrow> Inl e | Inr variants \<Rightarrow> best variants)"


subsection \<open>Files\<close>

text \<open>
  The disk is a map from paths to contents. Whether a call of the operating system
  fails is not decided by the program: \<open>faults\<close> says which of the calls that
  \<^verbatim>\<open>Optimize\<close> makes (each at most once) fails, and with which message. A write that
  fails has written some prefix of the buffer (\<open>writeFault = Some (n, e)\<close>: the first
  \<open>n\<close> bytes). With \<^verbatim>\<open>Close\<close> the operating system reports what it could not carry
  out of the writes it had accepted (\<open>closeFault = Some (n, e)\<close>: only the first \<open>n\<close>
  bytes of what the file held are in the file). A call that fails otherwise leaves the
  disk as it was; \<^verbatim>\<open>os.Rename\<close> is atomic. The file that \<^verbatim>\<open>loadPNG\<close> opens is only
  read, and its \<^verbatim>\<open>Close\<close> changes nothing.
\<close>

type_synonym disk = "string \<rightharpoonup> bytes"

record faults =
  openFault :: "string option"
  statFault :: "string option"
  createFault :: "string option"
  writeFault :: "(nat \<times> string) option"
  closeFault :: "(nat \<times> string) option"
  renameFault :: "string option"

definition osCreate :: "faults \<Rightarrow> disk \<Rightarrow> string \<Rightarrow> disk \<times> error option" where
  "osCreate fl d path =
     (case createFault fl of
        Some e \<Rightarrow> (d, Some (OSError e))
      | None \<Rightarrow> (d(path \<mapsto> []), None))"

definition WriteTo :: "faults \<Rightarrow> disk \<Rightarrow> string \<Rightarrow> bytes \<Rightarrow> disk \<times> error option" where
  "WriteTo fl d path buf =
     (case writeFault fl of
        Some (n, e) \<Rightarrow> (d(path \<mapsto> take n buf), Some (OSError e))
      | None \<Rightarrow> (d(path \<mapsto> buf), None))"

text \<open>What a file holds after \<^verbatim>\<open>Close\<close>, when it held \<open>content\<close> before.\<close>

definition afterClose :: "faults \<Rightarrow> bytes \<Rightarrow> bytes" where
  "afterClose fl content =
     (case closeFault fl of Some (n, e) \<Rightarrow> take n content | None \<Rightarrow> content)"

definition osClose :: "faults \<Rightarrow> disk \<Rightarrow> string \<Rightarrow> disk \<times> error option" where
  "osClose fl d path =
     (case d path of
        None \<Rightarrow> (d, map_option (\<lambda>(n, e). OSError e) (closeFault fl))
      | Some content \<Rightarrow>
          (d(path \<mapsto> afterClose fl content), map_option (\<lambda>(n, e). OSError e) (closeFault fl)))"

definition osRename :: "faults \<Rightarrow> disk \<Rightarrow> string \<Rightarrow> string \<Rightarrow> disk \<times> error option" where
  "osRename fl d oldpath newpath =
     (case renameFault fl of
        Some e \<Rightarrow> (d, Some (OSError e))
      | None \<Rightarrow>
          (case d oldpath of
             None \<Rightarrow> (d, Some (OSError ''no such file or directory''))
           | Some content \<Rightarrow>
               if oldpath = newpath then (d, None)
               else ((d(newpath \<mapsto> content))(oldpath := None), None)))"

record pngImage =
  size' :: int
  img :: image

definition loadPNG :: "platform \<Rightarrow> faults \<Rightarrow> disk \<Rightarrow> string \<Rightarrow> error + pngImage" where
  "loadPNG pf fl d path =
     (case openFault fl of
        Some e \<Rightarrow> Inl (OSError e)
      | None \<Rightarrow>
          (case d path of
             None \<Rightarrow> Inl (OSError ''no such file or directory'')
           | Some content \<Rightarrow>
               (case statFault fl of
                  Some e \<Rightarrow> Inl (OSError e)
                | None \<Rightarrow>
                    (case Decode pf content of
                       Inl e \<Rightarrow> Inl (CodecError e)
                     | Inr v \<Rightarrow> Inr \<lparr>size' = int (length content), img = v\<rparr>))))"

text \<open>
  The function \<^verbatim>\<open>savePNG(path, b)\<close>. After \<^verbatim>\<open>defer fp.Close()\<close> the file is closed
  when the function returns, with or without an error of the write; the error of
  \<^verbatim>\<open>Close\<close> goes nowhere, and the function returns the error of the write.
\<close>

definition savePNG :: "faults \<Rightarrow> disk \<Rightarrow> string \<Rightarrow> bytes \<Rightarrow> disk \<times> error option" where
  "savePNG fl d path buf =
     (case osCreate fl d path of
        (d1, Some e) \<Rightarrow> (d1, Some e)
      | (d1, None) \<Rightarrow>
          (case WriteTo fl d1 path buf of
             (d2, err) \<Rightarrow> (case osClose fl d2 path of (d3, closeErr) \<Rightarrow> (d3, err))))"

text \<open>The method \<^verbatim>\<open>(o *PNGOptimizer) savePNG(path, b)\<close>.\<close>

definition PNGOptimizer_savePNG :: "faults \<Rightarrow> disk \<Rightarrow> string \<Rightarrow> bytes \<Rightarrow> disk \<times> error option" where
  "PNGOptimizer_savePNG fl d path buf =
     (let dstPath = path @ ''.pngtmp'' in
      case savePNG fl d dstPath buf of
        (d', Some e) \<Rightarrow> (d', Some e)
      | (d', None) \<Rightarrow>
          (case osRename fl d' dstPath path of
             (d'', Some e) \<Rightarrow> (d'', Some e)
           | (d'', None) \<Rightarrow> (d'', None)))"

subsection \<open>Optimize\<close>

text \<open>The \<^verbatim>\<open>switch v := img.img.(type)\<close> of \<^verbatim>\<open>Optimize\<close>, with \<^verbatim>\<open>opt, as, err\<close> after it.\<close>

fun optimizeImage :: "platform \<Rightarrow> image \<Rightarrow> error + bytes \<times> string" where
  "optimizeImage pf (ImageRGBA v) = optimizeRGBA pf v"
| "optimizeImage pf (ImageNRGBA v) = optimizeNRGBA pf v"
| "optimizeImage pf (ImagePaletted v) = optimizePaletted pf v"
| "optimizeImage pf (ImageGray v) = optimizeGray pf v"
| "optimizeImage pf v =
     (case Encode pf v of
        Inl e \<Rightarrow> Inl (Wrapped ''error encode src: '' (CodecError e))
      | Inr opt \<Rightarrow> Inr (opt, []))"

text \<open>
  \<^verbatim>\<open>Optimize\<close> returns the bytes saved or an error; the model also returns the disk
  after the call. The two \<^verbatim>\<open>int64\<close> sizes are lengths of byte sequences that exist in
  memory, so their difference does not overflow; it is an \<open>int\<close> here, converted to
  \<^verbatim>\<open>uint\<close> at the end as the source does. What \<^verbatim>\<open>Optimize\<close> prints is left out.
\<close>

definition Optimize :: "platform \<Rightarrow> faults \<Rightarrow> disk \<Rightarrow> string \<Rightarrow> disk \<times> (error + uint)" where
  "Optimize pf fl d path =
     (case loadPNG pf fl d path of
        Inl e \<Rightarrow> (d, Inl (Wrapped ''PNGOptimizer optimize error: '' e))
      | Inr loaded \<Rightarrow>
          (case optimizeImage pf (img loaded) of
             Inl e \<Rightarrow> (d, Inl e)
           | Inr (opt, label) \<Rightarrow>
               (let sz = int (length opt);
                    delta = size' loaded - sz
                in if delta \<le> 0 then (d, Inr 0)
                   else (case PNGOptimizer_savePNG fl d path opt of
                           (d', Some e) \<Rightarrow> (d', Inl e)
                         | (d', None) \<Rightarrow> (d', Inr (word_of_int delta))))))"

text \<open>
  The candidates generated for a decoded image, by colour model: the list that the
  \<^verbatim>\<open>optimize...\<close> function builds, and the single direct re-encode (with the empty
  label) of the \<^verbatim>\<open>default\<close> branch.
\<close>

fun generatedVariants :: "platform \<Rightarrow> image \<Rightarrow> error + variantsList" where
  "generatedVariants pf (ImageRGBA v) = variantsNRGBA pf (RGBA2NRGBA pf v)"
| "generatedVariants pf (ImageNRGBA v) = variantsNRGBA pf v"
| "generatedVariants pf (ImagePaletted v) = variantsPaletted pf v"
| "generatedVariants pf (ImageGray v) = variantsGray pf v"
| "generatedVariants pf v =
     (case Encode pf v of
        Inl e \<Rightarrow> Inl (Wrapped ''error encode src: '' (CodecError e))
      | Inr opt \<Rightarrow> Inr [\<lparr>b = opt, as = []\<rparr>])"


section \<open>Notions used to state the properties\<close>

text \<open>
  The three categories of the palette order: Transparent (alpha 0), Translucent
  (alpha strictly between 0 and 255) and Opaque (alpha 255).
\<close>

definition category :: "NRGBA \<Rightarrow> nat" where
  "category c = (if A c = 0 then 0 else if A c < 255 then 1 else 2)"

definition catSorted :: "NRGBA list \<Rightarrow> bool" where
  "catSorted xs = sorted (map category xs)"

text \<open>
  One run of the inner loop of \<open>insertionSort\<close> seen on the list: \<open>x\<close> moves left
  over the elements before it (\<open>before\<close>, nearest first) as long as \<open>lt x p\<close> holds for
  its left neighbour \<open>p\<close>.
\<close>

fun shiftLeft :: "('a \<Rightarrow> 'a \<Rightarrow> bool) \<Rightarrow> 'a \<Rightarrow> 'a list \<Rightarrow> 'a list \<Rightarrow> 'a list" where
  "shiftLeft lt x [] rest = x # rest"
| "shiftLeft lt x (p # before) rest =
     (if lt x p then shiftLeft lt x before (p # rest) else rev (p # before) @ x # rest)"

text \<open>
  The library's sort reaches the slice only through swaps and it returns: for a long
  slice, the platform's sort gives the slice rearranged.
\<close>

definition sortReturns :: "platform \<Rightarrow> bool" where
  "sortReturns pf =
     ((\<forall>s. \<exists>s'. pdqsortNRGBA pf s = Some s' \<and> mset (palette s') = mset (palette s)) \<and>
      (\<forall>cols xs. \<exists>xs'. pdqsortGray pf cols xs = Some xs' \<and> mset xs' = mset xs))"

text \<open>
  What \<^verbatim>\<open>png.Encoder.Encode\<close> accepts. It starts with
  \<^verbatim>\<open>if mw <= 0 || mh <= 0 || mw >= 1<<32 || mh >= 1<<32\<close> on the width and the height
  of the bounds and returns a \<^verbatim>\<open>FormatError\<close> there; it also returns one for a palette
  without entries or with more than 256; it writes into a buffer in memory. \<open>encodes\<close>
  says of a platform that its encoder returns the bytes for every image with a size and a
  palette that pass, \<open>refuses\<close> that it returns an error for every image whose size does
  not pass.
\<close>

definition sizeOk :: "image \<Rightarrow> bool" where
  "sizeOk im =
     (let r = imageBounds im in 0 < Dx r \<and> Dx r < 2 ^ 32 \<and> 0 < Dy r \<and> Dy r < 2 ^ 32)"

fun paletteOk :: "image \<Rightarrow> bool" where
  "paletteOk (ImagePaletted v) = (1 \<le> length (Palette v) \<and> length (Palette v) \<le> 256)"
| "paletteOk v = True"

definition encodable :: "image \<Rightarrow> bool" where
  "encodable im = (sizeOk im \<and> paletteOk im)"

definition encodes :: "platform \<Rightarrow> bool" where
  "encodes pf = (\<forall>im. encodable im \<longrightarrow> (\<exists>buf. Encode pf im = Inr buf))"


text \<open>
  \<^verbatim>\<open>range\<close> visits every key of the frequency table of the image once (the table of
  the converted image, for a premultiplied source).
\<close>

fun ranges :: "platform \<Rightarrow> image \<Rightarrow> bool" where
  "ranges pf (ImageRGBA v) =
     enumerates (rangeNRGBA pf (frequencies (pixelsNRGBA (RGBA2NRGBA pf v))))
       (frequencies (pixelsNRGBA (RGBA2NRGBA pf v)))"
| "ranges pf (ImageNRGBA v) =
     enumerates (rangeNRGBA pf (frequencies (pixelsNRGBA v))) (frequencies (pixelsNRGBA v))"
| "ranges pf (ImageGray v) =
     enumerates (rangeGray pf (frequencies (pixelsGray v))) (frequencies (pixelsGray v))"
| "ranges pf v = True"



text \<open>A fully transparent pixel is shown the same whatever its colour channels hold.\<close>

definition unifyTransparent :: "NRGBA \<Rightarrow> NRGBA" where
  "unifyTransparent c = (if A c = 0 then \<lparr>R = 0, G = 0, B = 0, A = 0\<rparr> else c)"

text \<open>The samples of an image inside its bounds, row by row.\<close>

definition samples :: "('p, 'm) raster_scheme \<Rightarrow> 'p list" where
  "samples im = map (\<lambda>(x, y). Pix im x y) (scan (Rect im))"


subsection \<open>Notions for the library's sort\<close>

text \<open>
  What the sort needs of its data: behind the data there is a slice \<open>view\<close>; inside the
  slice, \<open>lessf\<close> compares two elements by \<open>lt\<close> and \<open>swapf\<close> exchanges them, keeping
  \<open>ok\<close>.
\<close>

definition sliceOps ::
  "'d lessFn \<Rightarrow> 'd swapFn \<Rightarrow> ('d \<Rightarrow> 'a list) \<Rightarrow> ('a \<Rightarrow> 'a \<Rightarrow> bool) \<Rightarrow> ('d \<Rightarrow> bool) \<Rightarrow> bool" where
  "sliceOps lessf swapf view lt ok =
     ((\<forall>d i j. ok d \<and> i < length (view d) \<and> j < length (view d) \<longrightarrow>
         lessf d i j = Some (lt (view d ! i) (view d ! j))) \<and>
      (\<forall>d i j. ok d \<and> i < length (view d) \<and> j < length (view d) \<longrightarrow>
         (\<exists>d'. swapf d i j = Some d' \<and> ok d' \<and>
            view d' = (view d)[i := view d ! j, j := view d ! i])))"

text \<open>The comparison never contradicts the order of the keys.\<close>

definition agrees :: "('a \<Rightarrow> 'a \<Rightarrow> bool) \<Rightarrow> ('a \<Rightarrow> nat) \<Rightarrow> bool" where
  "agrees lt key = (\<forall>x y. (lt x y \<longrightarrow> key x \<le> key y) \<and> (\<not> lt x y \<longrightarrow> key y \<le> key x))"

definition seg :: "'a list \<Rightarrow> nat \<Rightarrow> nat \<Rightarrow> 'a list" where
  "seg xs a z = take (z - a) (drop a xs)"

text \<open>\<open>xs'\<close> rearranges \<open>xs\<close> between \<open>a\<close> and \<open>z\<close> and is \<open>xs\<close> elsewhere.\<close>

definition segPerm :: "nat \<Rightarrow> nat \<Rightarrow> 'a list \<Rightarrow> 'a list \<Rightarrow> bool" where
  "segPerm a z xs xs' =
     (length xs' = length xs \<and> take a xs' = take a xs \<and> drop z xs' = drop z xs \<and>
      mset xs' = mset xs)"

text \<open>
  \<open>xs'\<close> rearranges \<open>xs\<close>, and the keys of \<open>xs'\<close> are those of \<open>xs\<close> rearranged between \<open>a\<close>
  and \<open>z\<close>: outside, an element may only give way to one of the same key.
\<close>

definition keyPerm :: "('a \<Rightarrow> nat) \<Rightarrow> nat \<Rightarrow> nat \<Rightarrow> 'a list \<Rightarrow> 'a list \<Rightarrow> bool" where
  "keyPerm key a z xs xs' = (mset xs' = mset xs \<and> segPerm a z (map key xs) (map key xs'))"

text \<open>No key before \<open>a\<close> is above a key between \<open>a\<close> and \<open>z\<close>.\<close>

definition isolated :: "('a \<Rightarrow> nat) \<Rightarrow> nat \<Rightarrow> nat \<Rightarrow> 'a list \<Rightarrow> bool" where
  "isolated key a z xs = (\<forall>i j. i < a \<and> a \<le> j \<and> j < z \<longrightarrow> key (xs ! i) \<le> key (xs ! j))"

definition sortedSeg :: "('a \<Rightarrow> nat) \<Rightarrow> nat \<Rightarrow> nat \<Rightarrow> 'a list \<Rightarrow> bool" where
  "sortedSeg key a z xs = (\<forall>i j. a \<le> i \<and> i \<le> j \<and> j < z \<longrightarrow> key (xs ! i) \<le> key (xs ! j))"

text \<open>
  Between \<open>a\<close> and \<open>i\<close> the keys ascend when position \<open>j\<close> is left out, and the key at \<open>j\<close> is
  not above a key after \<open>j\<close>: the state of an insertion that has moved its element down to \<open>j\<close>.
\<close>

definition sortedBut :: "('a \<Rightarrow> nat) \<Rightarrow> nat \<Rightarrow> nat \<Rightarrow> nat \<Rightarrow> 'a list \<Rightarrow> bool" where
  "sortedBut key a j i xs =
     ((\<forall>p q. a \<le> p \<and> p \<le> q \<and> q \<le> i \<and> p \<noteq> j \<and> q \<noteq> j \<longrightarrow> key (xs ! p) \<le> key (xs ! q)) \<and>
      (\<forall>q. j < q \<and> q \<le> i \<longrightarrow> key (xs ! j) \<le> key (xs ! q)))"

definition isChild :: "nat \<Rightarrow> nat \<Rightarrow> bool" where
  "isChild r c = (c = 2 * r + 1 \<or> c = 2 * r + 2)"

text \<open>From node \<open>lo\<close> on, no child below \<open>hi\<close> has a key above its parent's.\<close>

definition heapFrom :: "('a \<Rightarrow> nat) \<Rightarrow> nat \<Rightarrow> nat \<Rightarrow> nat \<Rightarrow> 'a list \<Rightarrow> bool" where
  "heapFrom key first lo hi xs =
     (\<forall>r c. lo \<le> r \<and> isChild r c \<and> c < hi \<longrightarrow> key (xs ! (first + c)) \<le> key (xs ! (first + r)))"

text \<open>
  The same with node \<open>root\<close> left out as a parent; the children of \<open>root\<close> are not above
  the parent of \<open>root\<close>.
\<close>

definition heapBut :: "('a \<Rightarrow> nat) \<Rightarrow> nat \<Rightarrow> nat \<Rightarrow> nat \<Rightarrow> nat \<Rightarrow> 'a list \<Rightarrow> bool" where
  "heapBut key first lo hi root xs =
     ((\<forall>r c. lo \<le> r \<and> r \<noteq> root \<and> isChild r c \<and> c < hi \<longrightarrow>
         key (xs ! (first + c)) \<le> key (xs ! (first + r))) \<and>
      (\<forall>p c. lo \<le> p \<and> isChild p root \<and> isChild root c \<and> c < hi \<longrightarrow>
         key (xs ! (first + c)) \<le> key (xs ! (first + p))))"

text \<open>Position \<open>mid\<close> separates the keys between \<open>a\<close> and \<open>z\<close>.\<close>

definition splitAt :: "('a \<Rightarrow> nat) \<Rightarrow> nat \<Rightarrow> nat \<Rightarrow> nat \<Rightarrow> 'a list \<Rightarrow> bool" where
  "splitAt key a mid z xs =
     ((\<forall>k. a \<le> k \<and> k < mid \<longrightarrow> key (xs ! k) \<le> key (xs ! mid)) \<and>
      (\<forall>k. mid < k \<and> k < z \<longrightarrow> key (xs ! mid) \<le> key (xs ! k)))"

text \<open>No key between \<open>a\<close> and \<open>z\<close> is below a key between \<open>a\<close> and \<open>mid\<close>.\<close>

definition leastBlock :: "('a \<Rightarrow> nat) \<Rightarrow> nat \<Rightarrow> nat \<Rightarrow> nat \<Rightarrow> 'a list \<Rightarrow> bool" where
  "leastBlock key a mid z xs =
     (\<forall>k j. a \<le> k \<and> k < mid \<and> a \<le> j \<and> j < z \<longrightarrow> key (xs ! k) \<le> key (xs ! j))"

text \<open>What one turn of the loop leaves behind.\<close>

definition turnPost ::
  "('a \<Rightarrow> nat) \<Rightarrow> ('d \<Rightarrow> 'a list) \<Rightarrow> ('d \<Rightarrow> bool) \<Rightarrow> nat \<Rightarrow> nat \<Rightarrow> 'a list \<Rightarrow> 'd turn \<Rightarrow> bool" where
  "turnPost key view ok a z xs t =
     (case t of
        Return d' \<Rightarrow> ok d' \<and> keyPerm key a z xs (view d') \<and> sortedSeg key a z (view d')
      | Equal d' mid limit' \<Rightarrow>
          ok d' \<and> keyPerm key a z xs (view d') \<and> a < mid \<and> mid \<le> z \<and>
          leastBlock key a mid z (view d')
      | Split d' mid alreadyPartitioned limit' \<Rightarrow>
          ok d' \<and> keyPerm key a z xs (view d') \<and> a \<le> mid \<and> mid < z \<and>
          splitAt key a mid z (view d'))"

text \<open>
  The platform sorts a long slice as \<open>pdqsort\<close> does, called as \<^verbatim>\<open>sort.Sort\<close> and
  \<^verbatim>\<open>sort.Slice\<close> call it: on the whole slice, with \<^verbatim>\<open>bits.Len\<close> of its length as the
  limit.
\<close>

definition librarySort :: "platform \<Rightarrow> bool" where
  "librarySort pf =
     ((\<forall>s. pdqsortNRGBA pf s = pdqsort Less Swap s 0 (Len s) (bitsLen (Len s))) \<and>
      (\<forall>cols xs. pdqsortGray pf cols xs =
         pdqsort (lessGray cols) swapSlice xs 0 (length xs) (bitsLen (length xs))))"

section \<open>Concrete inputs\<close>

text \<open>Colours, one-row images, an encoder and a platform to run the model on.\<close>

definition opaqueX :: NRGBA where
  "opaqueX = \<lparr>R = 10, G = 20, B = 30, A = 255\<rparr>"

definition opaqueY :: NRGBA where
  "opaqueY = \<lparr>R = 1, G = 2, B = 3, A = 255\<rparr>"

definition clearBlack :: NRGBA where
  "clearBlack = \<lparr>R = 0, G = 0, B = 0, A = 0\<rparr>"

definition clearRed :: NRGBA where
  "clearRed = \<lparr>R = 255, G = 0, B = 0, A = 0\<rparr>"

text \<open>The image of one row that holds the samples \<open>ps\<close> from left to right.\<close>

definition rowImage :: "'p list \<Rightarrow> 'p \<Rightarrow> 'p raster" where
  "rowImage ps outside =
     \<lparr>Rect = \<lparr>MinX = 0, MinY = 0, MaxX = int (length ps), MaxY = 1\<rparr>,
      Pix = (\<lambda>x y. if 0 \<le> x \<and> nat x < length ps then ps ! nat x else outside)\<rparr>"

text \<open>
  The bytes of the example encoder: a zero byte for every stored channel, four per
  pixel of a truecolour image, one per pixel of a grayscale image, three per palette
  entry and one per pixel of an indexed image.
\<close>

fun exampleEncode :: "image \<Rightarrow> string + bytes" where
  "exampleEncode (ImageRGBA v) = Inr (replicate (4 * length (scan (Bounds v))) 0)"
| "exampleEncode (ImageNRGBA v) = Inr (replicate (4 * length (scan (Bounds v))) 0)"
| "exampleEncode (ImagePaletted v) =
     Inr (replicate (3 * length (Palette v) + length (scan (Bounds v))) 0)"
| "exampleEncode (ImageGray v) = Inr (replicate (length (scan (Bounds v))) 0)"
| "exampleEncode (ImageGray16 v) = Inr (replicate (2 * length (scan (Bounds v))) 0)"
| "exampleEncode (ImageRGBA64 v) = Inr (replicate (8 * length (scan (Bounds v))) 0)"
| "exampleEncode (ImageNRGBA64 v) = Inr (replicate (8 * length (scan (Bounds v))) 0)"

text \<open>
  The example encoder refuses what \<^verbatim>\<open>png.Encoder.Encode\<close> refuses, with its message:
  the \<^verbatim>\<open>FormatError\<close> \<^verbatim>\<open>invalid image size\<close> with the width and the height in
  decimal for an image without pixels or with a side of \<open>2\<^sup>3\<^sup>2\<close> pixels or more, and
  \<^verbatim>\<open>bad palette length\<close> with the length for a palette without entries or with more
  than 256.
\<close>

function showNat :: "nat \<Rightarrow> string" where
  "showNat n =
     (if n < 10 then [''0123456789'' ! n]
      else showNat (n div 10) @ [''0123456789'' ! (n mod 10)])"
  by pat_completeness auto
termination
  by (relation "measure id") auto

definition showInt :: "int \<Rightarrow> string" where
  "showInt i = (if i < 0 then ''-'' @ showNat (nat (- i)) else showNat (nat i))"

fun paletteError :: "image \<Rightarrow> string" where
  "paletteError (ImagePaletted v) =
     ''png: invalid format: bad palette length: '' @ showNat (length (Palette v))"
| "paletteError v = []"

definition strictEncode :: "image \<Rightarrow> string + bytes" where
  "strictEncode im =
     (let r = imageBounds im in
      if Dx r \<le> 0 \<or> Dy r \<le> 0 \<or> 2 ^ 32 \<le> Dx r \<or> 2 ^ 32 \<le> Dy r
      then Inl (''png: invalid format: invalid image size: '' @ showInt (Dx r) @ ''x'' @
                showInt (Dy r))
      else if \<not> paletteOk im then Inl (paletteError im)
      else exampleEncode im)"

text \<open>
  A platform with this encoder, whose decoder returns \<open>decoded\<close> for every file, whose
  \<^verbatim>\<open>range\<close> visits the keys of a map in the order \<open>orderNRGBA\<close> (\<open>orderGray\<close>), whose
  \<^verbatim>\<open>draw.Draw\<close> writes zero samples, and whose sort leaves a long slice as it is.
\<close>

definition examplePlatform :: "image \<Rightarrow> NRGBA list \<Rightarrow> uint8 list \<Rightarrow> platform" where
  "examplePlatform decoded orderNRGBA orderGray =
     \<lparr>Encode = strictEncode,
      Decode = (\<lambda>content. Inr decoded),
      DrawNRGBA = (\<lambda>src x y. clearBlack),
      DrawPaletted = (\<lambda>src pal x y. 0),
      rangeNRGBA = (\<lambda>cols. orderNRGBA),
      rangeGray = (\<lambda>cols. orderGray),
      pdqsortNRGBA = Some,
      pdqsortGray = (\<lambda>cols. Some)\<rparr>"

definition exampleVariants :: variantsList where
  "exampleVariants =
     [\<lparr>b = [1, 2, 3], as = ''src (nrgba/rgb)''\<rparr>, \<lparr>b = [1, 2], as = ''gray''\<rparr>,
      \<lparr>b = [4, 5], as = ''paletted''\<rparr>]"

text \<open>Three opaque pixels: \<open>opaqueX\<close> twice, \<open>opaqueY\<close> once.\<close>

definition twoOpaque :: imageNRGBA where
  "twoOpaque = rowImage [opaqueX, opaqueX, opaqueY] clearBlack"

definition twoOpaquePlatform :: platform where
  "twoOpaquePlatform = examplePlatform (ImageNRGBA twoOpaque) [opaqueX, opaqueY] []"

text \<open>Three gray pixels: level 7 twice, level 9 once.\<close>

definition twoGrays :: imageGray where
  "twoGrays = rowImage [7, 7, 9] 0"

definition twoGraysPlatform :: platform where
  "twoGraysPlatform = examplePlatform (ImageGray twoGrays) [] [7, 9]"

text \<open>Two fully transparent pixels with different colour channels, and an opaque one.\<close>

definition twoClear :: imageNRGBA where
  "twoClear = rowImage [opaqueX, clearBlack, clearRed] clearBlack"

definition twoClearPlatform :: platform where
  "twoClearPlatform = examplePlatform (ImageNRGBA twoClear) [opaqueX, clearBlack, clearRed] []"

text \<open>One fully transparent colour among three.\<close>

definition oneClear :: imageNRGBA where
  "oneClear = rowImage [opaqueX, opaqueY, clearRed, opaqueX] clearBlack"

definition oneClearPlatform :: platform where
  "oneClearPlatform = examplePlatform (ImageNRGBA oneClear) [opaqueX, opaqueY, clearRed] []"

text \<open>
  Fifty colours, one pixel each: 49 opaque ones and the fully transparent \<open>clearRed\<close>
  as the last pixel. \<^verbatim>\<open>range\<close> visits \<open>clearRed\<close> last, and the platform sorts a long
  slice with \<open>pdqsort\<close>.
\<close>

definition shade :: "nat \<Rightarrow> NRGBA" where
  "shade n = \<lparr>R = of_nat n, G = 0, B = 0, A = 255\<rparr>"

definition fiftyColours :: imageNRGBA where
  "fiftyColours = rowImage (map shade [0..<49] @ [clearRed]) clearBlack"

definition fiftyPlatform :: platform where
  "fiftyPlatform =
     (examplePlatform (ImageNRGBA fiftyColours) (map shade [0..<49] @ [clearRed]) [])
       \<lparr>pdqsortNRGBA := (\<lambda>s. pdqsort Less Swap s 0 (Len s) (bitsLen (Len s))),
        pdqsortGray := (\<lambda>cols xs.
          pdqsort (lessGray cols) swapSlice xs 0 (length xs) (bitsLen (length xs)))\<rparr>"



text \<open>A 16-bit grayscale image of one pixel.\<close>

definition deepGray :: "uint16 raster" where
  "deepGray = rowImage [5] 0"

definition deepGrayPlatform :: platform where
  "deepGrayPlatform = examplePlatform (ImageGray16 deepGray) [] []"

text \<open>
  A disk with one file of 20 bytes; the operating system without faults, with a failing
  rename, and with a write that fails after 4 bytes.
\<close>

definition exampleDisk :: disk where
  "exampleDisk = Map.empty(''a.png'' \<mapsto> replicate 20 0)"

definition noFaults :: faults where
  "noFaults = \<lparr>openFault = None, statFault = None, createFault = None, writeFault = None,
     closeFault = None, renameFault = None\<rparr>"

definition renameFails :: faults where
  "renameFails = noFaults\<lparr>renameFault := Some ''permission denied''\<rparr>"

definition writeFails :: faults where
  "writeFails = noFaults\<lparr>writeFault := Some (4, ''no space left on device'')\<rparr>"


section \<open>Frequency tables and the comparator\<close>

declare insertionInner.simps [simp del]
declare insertionOuter.simps [simp del]

lemma dom_foldl_bump: "dom (foldl bump m cs) = dom m \<union> set cs"
  by (induction cs arbitrary: m) (auto simp: bump_def)

lemma dom_frequencies: "dom (frequencies cs) = set cs"
  by (simp add: frequencies_def dom_foldl_bump)

text \<open>On \<^verbatim>\<open>uint\<close>, a difference is above zero exactly when the operands differ.\<close>

lemma uint_diff_pos: "((u::uint) - v > 0) = (u \<noteq> v)"
  by (simp add: word_greater_zero_iff)

lemma u8_top: "(\<not> (x::uint8) < 255) = (x = 255)"
proof -
  have "unat x < 256" using unsigned_less [of x, where ?'a = nat] by simp
  then show ?thesis
    by (auto simp: word_less_nat_alt word_unat_eq_iff)
qed

text \<open>
  What \<^verbatim>\<open>Less\<close> decides: the category first; inside a category it answers whether the
  two frequencies differ, in either argument order.
\<close>

lemma lessNRGBA_category:
  "lessNRGBA cols ci cj =
     (category ci < category cj \<or> (category ci = category cj \<and> get cols ci \<noteq> get cols cj))"
  by (auto simp: lessNRGBA_def category_def uint_diff_pos u8_top)

lemma lessNRGBA_symmetric_in_category:
  "category ci = category cj \<Longrightarrow> lessNRGBA cols ci cj = lessNRGBA cols cj ci"
  by (auto simp: lessNRGBA_category)

section \<open>Insertion sort with the palette comparator\<close>

lemma shiftLeft_append: "shiftLeft lt x before rest = shiftLeft lt x before [] @ rest"
proof (induction before arbitrary: rest)
  case Nil
  show ?case by simp
next
  case (Cons p before)
  show ?case
    using Cons.IH [of "p # rest"] Cons.IH [of "[p]"] by simp
qed

lemma length_shiftLeft: "length (shiftLeft lt x before rest) = Suc (length before + length rest)"
  by (induction before arbitrary: rest) auto

lemma mset_shiftLeft: "mset (shiftLeft lt x before rest) = add_mset x (mset before + mset rest)"
  by (induction before arbitrary: rest) auto

lemma sorted_shiftLeft:
  assumes up: "\<And>p. lt x p \<Longrightarrow> key x \<le> (key p :: nat)"
      and down: "\<And>p. \<not> lt x p \<Longrightarrow> key p \<le> key x"
  shows "sorted (map key (rev before)) \<Longrightarrow> sorted (map key rest) \<Longrightarrow>
         (\<forall>r \<in> set rest. key x \<le> key r) \<Longrightarrow>
         (\<forall>p \<in> set before. \<forall>r \<in> set rest. key p \<le> key r) \<Longrightarrow>
         sorted (map key (shiftLeft lt x before rest))"
proof (induction before arbitrary: rest)
  case Nil
  then show ?case by simp
next
  case (Cons p before)
  show ?case
  proof (cases "lt x p")
    case True
    have s1: "sorted (map key (rev before))"
      using Cons.prems(1) by (simp add: sorted_append)
    have s2: "sorted (map key (p # rest))"
      using Cons.prems(2,4) by simp
    have s3: "\<forall>r \<in> set (p # rest). key x \<le> key r"
      using Cons.prems(3) up [OF True] by simp
    have s4: "\<forall>q \<in> set before. \<forall>r \<in> set (p # rest). key q \<le> key r"
      using Cons.prems(1,4) by (auto simp: sorted_append)
    show ?thesis
      using True Cons.IH [OF s1 s2 s3 s4] by simp
  next
    case False
    have "\<forall>q \<in> set before. key q \<le> key p"
      using Cons.prems(1) by (auto simp: sorted_append)
    then show ?thesis
      using False down [OF False] Cons.prems
      by (fastforce simp: sorted_append)
  qed
qed

text \<open>
  The two loops of \<open>insertionSort\<close>, for any data with a slice \<open>view\<close> behind it,
  a comparison \<open>lessf\<close> that compares the elements at two indices by \<open>lt\<close>, and a
  \<open>swapf\<close> that exchanges them; \<open>ok\<close> is what the swaps keep. The inner loop never
  leaves the slice (no panic) and moves the element as \<open>shiftLeft\<close> does. The outer
  loop returns a rearrangement of the slice, ordered by every \<open>key\<close> that \<open>lt\<close>
  respects.
\<close>

lemma inner_generic:
  fixes view :: "'d \<Rightarrow> 'a list"
  assumes L: "\<And>d i j. ok d \<Longrightarrow> i < length (view d) \<Longrightarrow> j < length (view d) \<Longrightarrow>
                lessf d i j = Some (lt (view d ! i) (view d ! j))"
      and S: "\<And>d i j. ok d \<Longrightarrow> i < length (view d) \<Longrightarrow> j < length (view d) \<Longrightarrow>
                \<exists>d'. swapf d i j = Some d' \<and> ok d' \<and>
                  view d' = (view d)[i := view d ! j, j := view d ! i]"
  shows "ok d \<Longrightarrow> j < length (view d) \<Longrightarrow>
         \<exists>d'. insertionInner lessf swapf 0 j d = Some d' \<and> ok d' \<and>
           view d' = shiftLeft lt (view d ! j) (rev (take j (view d))) (drop (Suc j) (view d))"
proof (induction j arbitrary: d)
  case 0
  then have "view d ! 0 # drop (Suc 0) (view d) = view d"
    by (simp add: Cons_nth_drop_Suc)
  then show ?case
    using "0.prems"(1) by (subst insertionInner.simps) simp
next
  case (Suc k)
  let ?xs = "view d"
  have k: "k < length ?xs" using Suc.prems by simp
  have less: "lessf d (Suc k) k = Some (lt (?xs ! Suc k) (?xs ! k))"
    using L [OF Suc.prems(1) Suc.prems(2) k] .
  have rv: "rev (take (Suc k) ?xs) = ?xs ! k # rev (take k ?xs)"
    using k by (simp add: take_Suc_conv_app_nth)
  show ?case
  proof (cases "lt (?xs ! Suc k) (?xs ! k)")
    case False
    have "take (Suc k) ?xs @ ?xs ! Suc k # drop (Suc (Suc k)) ?xs = ?xs"
      using Suc.prems by (simp add: id_take_nth_drop [symmetric])
    then show ?thesis
      using False less rv k Suc.prems(1)
      by (subst insertionInner.simps) (simp add: take_Suc_conv_app_nth)
  next
    case True
    from S [OF Suc.prems(1) Suc.prems(2) k]
    obtain d' where swap: "swapf d (Suc k) k = Some d'" and ok': "ok d'"
      and v': "view d' = ?xs[Suc k := ?xs ! k, k := ?xs ! Suc k]" by blast
    have len: "k < length (view d')" using k by (simp add: v')
    have at: "view d' ! k = ?xs ! Suc k" using k by (simp add: v')
    have tk: "take k (view d') = take k ?xs" by (simp add: v')
    have dr: "drop (Suc k) (view d') = ?xs ! k # drop (Suc (Suc k)) ?xs"
      using Suc.prems(2) unfolding v'
      by (simp, metis Cons_nth_drop_Suc drop_update_cancel length_list_update lessI
          nth_list_update_eq)
    have "insertionInner lessf swapf 0 (Suc k) d = insertionInner lessf swapf 0 k d'"
      using True less swap by (subst insertionInner.simps) simp
    moreover from Suc.IH [OF ok' len]
    obtain d'' where "insertionInner lessf swapf 0 k d' = Some d''" "ok d''"
      "view d'' = shiftLeft lt (?xs ! Suc k) (rev (take k ?xs)) (?xs ! k # drop (Suc (Suc k)) ?xs)"
      by (auto simp: at tk dr)
    ultimately show ?thesis
      using True rv by simp
  qed
qed

lemma outer_generic:
  fixes view :: "'d \<Rightarrow> 'a list" and key :: "'a \<Rightarrow> nat"
  assumes L: "\<And>d i j. ok d \<Longrightarrow> i < length (view d) \<Longrightarrow> j < length (view d) \<Longrightarrow>
                lessf d i j = Some (lt (view d ! i) (view d ! j))"
      and S: "\<And>d i j. ok d \<Longrightarrow> i < length (view d) \<Longrightarrow> j < length (view d) \<Longrightarrow>
                \<exists>d'. swapf d i j = Some d' \<and> ok d' \<and>
                  view d' = (view d)[i := view d ! j, j := view d ! i]"
      and up: "\<And>x y. lt x y \<Longrightarrow> key x \<le> key y"
      and down: "\<And>x y. \<not> lt x y \<Longrightarrow> key y \<le> key x"
  shows "n = length (view d) - i \<Longrightarrow> ok d \<Longrightarrow> 0 < i \<Longrightarrow> i \<le> length (view d) \<Longrightarrow>
         sorted (map key (take i (view d))) \<Longrightarrow>
         \<exists>d'. insertionOuter lessf swapf 0 (length (view d)) i d = Some d' \<and> ok d' \<and>
           mset (view d') = mset (view d) \<and> sorted (map key (view d'))"
proof (induction n arbitrary: i d)
  case 0
  then have "i = length (view d)" by simp
  then show ?case
    using "0.prems"(2,5) by (subst insertionOuter.simps) simp
next
  case (Suc n)
  let ?xs = "view d"
  let ?ins = "shiftLeft lt (?xs ! i) (rev (take i ?xs))"
  have i: "i < length ?xs" using Suc.prems(1) by simp
  from inner_generic [of ok view lessf lt swapf, OF L S Suc.prems(2) i]
  obtain d1 where inner: "insertionInner lessf swapf 0 i d = Some d1" and ok1: "ok d1"
    and v1: "view d1 = ?ins (drop (Suc i) ?xs)" by blast
  have split: "view d1 = ?ins [] @ drop (Suc i) ?xs"
    using shiftLeft_append [of _ _ _ "drop (Suc i) ?xs"] by (simp add: v1)
  have len_ins: "length (?ins []) = Suc i"
    using i by (simp add: length_shiftLeft)
  have len: "length (view d1) = length ?xs"
    using i by (simp add: v1 length_shiftLeft)
  have ms: "mset (view d1) = mset ?xs"
  proof -
    have "mset ?xs = mset (take i ?xs) + mset (?xs ! i # drop (Suc i) ?xs)"
      using i by (metis Cons_nth_drop_Suc append_take_drop_id mset_append)
    then show ?thesis by (simp add: v1 mset_shiftLeft)
  qed
  have tk: "take (Suc i) (view d1) = ?ins []"
    using split len_ins by simp
  have "sorted (map key (shiftLeft lt (?xs ! i) (rev (take i ?xs)) []))"
    by (rule sorted_shiftLeft) (use up down Suc.prems(5) in auto)
  then have srt: "sorted (map key (take (Suc i) (view d1)))"
    using tk by simp
  have "\<exists>d'. insertionOuter lessf swapf 0 (length (view d1)) (Suc i) d1 = Some d' \<and> ok d' \<and>
           mset (view d') = mset (view d1) \<and> sorted (map key (view d'))"
    using Suc.prems(1) i len srt ok1 by (intro Suc.IH) auto
  then show ?case
    using i inner len ms
    by (subst insertionOuter.simps) auto
qed

text \<open>\<^verbatim>\<open>sort.Sort\<close> with \<^verbatim>\<open>nrgbaPaletteSorter\<close>, on at most 12 colours.\<close>

lemma sortSort_small:
  assumes "Len s \<le> 12"
  shows "\<exists>s'. sortSort pf s = Some s' \<and> colors s' = colors s \<and>
           mset (palette s') = mset (palette s) \<and> catSorted (palette s')"
proof (cases "Len s \<le> 1")
  case True
  then have "length (palette s) \<le> 1" by (simp add: Len_def)
  then have "catSorted (palette s)"
    by (cases "palette s") (auto simp: catSorted_def)
  then show ?thesis using True by (simp add: sortSort_def)
next
  case False
  then have pos: "0 < (1::nat)" "1 \<le> length (palette s)" by (simp_all add: Len_def)
  have first: "sorted (map category (take 1 (palette s)))"
    by (cases "palette s") auto
  have "\<exists>s'. insertionOuter Less Swap 0 (length (palette s)) 1 s = Some s' \<and>
          colors s' = colors s \<and> mset (palette s') = mset (palette s) \<and>
          sorted (map category (palette s'))"
  proof (rule outer_generic [where ok = "\<lambda>d. colors d = colors s" and view = palette
        and lt = "lessNRGBA (colors s)" and key = category and n = "length (palette s) - 1"])
    show "colors d = colors s \<Longrightarrow> i < length (palette d) \<Longrightarrow> j < length (palette d) \<Longrightarrow>
          Less d i j = Some (lessNRGBA (colors s) (palette d ! i) (palette d ! j))" for d i j
      by (simp add: Less_def)
    show "colors d = colors s \<Longrightarrow> i < length (palette d) \<Longrightarrow> j < length (palette d) \<Longrightarrow>
          \<exists>d'. Swap d i j = Some d' \<and> colors d' = colors s \<and>
            palette d' = (palette d)[i := palette d ! j, j := palette d ! i]" for d i j
      by (simp add: Swap_def)
    show "lessNRGBA (colors s) x y \<Longrightarrow> category x \<le> category y" for x y
      by (auto simp: lessNRGBA_category)
    show "\<not> lessNRGBA (colors s) x y \<Longrightarrow> category y \<le> category x" for x y
      by (auto simp: lessNRGBA_category)
  qed (use pos first in simp_all)
  then show ?thesis
    using False assms by (simp add: sortSort_def insertionSort_def Len_def catSorted_def)
qed

text \<open>\<^verbatim>\<open>sort.Slice\<close> with the comparison of \<^verbatim>\<open>paletteFromGray\<close>, on at most 12 levels.\<close>

lemma sorted_map_const: "sorted (map (\<lambda>x. c :: nat) ys)"
  by (induction ys) auto

lemma sortSlice_small:
  assumes "length xs \<le> 12"
  shows "\<exists>xs'. sortSlice pf cols xs = Some xs' \<and> mset xs' = mset xs"
proof (cases "length xs \<le> 1")
  case True
  then have "insertionOuter (lessGray cols) swapSlice 0 (length xs) (Suc 0) xs = Some xs"
    by (subst insertionOuter.simps) simp
  then show ?thesis using True by (simp add: sortSlice_def insertionSort_def)
next
  case False
  have "\<exists>xs'. insertionOuter (lessGray cols) swapSlice 0 (length ((\<lambda>d. d) xs)) 1 xs = Some xs' \<and>
          True \<and> mset ((\<lambda>d. d) xs') = mset ((\<lambda>d. d) xs) \<and> sorted (map (\<lambda>x. 0::nat) ((\<lambda>d. d) xs'))"
  proof (rule outer_generic [where ok = "\<lambda>d. True" and view = "\<lambda>d. d"
        and lt = "\<lambda>x y. get cols x - get cols y > 0" and n = "length xs - 1"])
    show "i < length d \<Longrightarrow> j < length d \<Longrightarrow>
          lessGray cols d i j = Some (0 < get cols (d ! i) - get cols (d ! j))" for d :: "uint8 list" and i j
      by (simp add: lessGray_def)
    show "i < length d \<Longrightarrow> j < length d \<Longrightarrow>
          \<exists>d'. swapSlice d i j = Some d' \<and> True \<and> d' = d[i := d ! j, j := d ! i]"
      for d :: "uint8 list" and i j
      by (simp add: swapSlice_def)
  qed (use False in \<open>simp_all add: sorted_map_const\<close>)
  then obtain xs' where "insertionOuter (lessGray cols) swapSlice 0 (length xs) 1 xs = Some xs'"
    "mset xs' = mset xs" by auto
  then show ?thesis
    using False assms by (simp add: sortSlice_def insertionSort_def)
qed

text \<open>
  The palette of an image with at most 12 colours: every colour of the image once, in
  category order.
\<close>

lemma paletteFromNRGBA_small:
  assumes "enumerates (rangeNRGBA pf (frequencies (pixelsNRGBA im))) (frequencies (pixelsNRGBA im))"
      and "card (set (pixelsNRGBA im)) \<le> 12"
  shows "\<exists>xs. paletteFromNRGBA pf im hint = Some (map ColorNRGBA xs) \<and> distinct xs \<and>
           set xs = set (pixelsNRGBA im) \<and> catSorted xs"
proof -
  let ?cols = "frequencies (pixelsNRGBA im)"
  let ?raw = "rangeNRGBA pf ?cols"
  let ?s = "\<lparr>colors = ?cols, palette = ?raw\<rparr>"
  have d: "distinct ?raw" and st: "set ?raw = set (pixelsNRGBA im)"
    using assms(1) by (simp_all add: enumerates_def dom_frequencies)
  have "length ?raw = card (set (pixelsNRGBA im))"
    using d st by (metis distinct_card)
  then have "Len ?s \<le> 12" using assms(2) by (simp add: Len_def)
  from sortSort_small [OF this, of pf]
  obtain s' where s': "sortSort pf ?s = Some s'" "mset (palette s') = mset ?raw"
    "catSorted (palette s')" by auto
  have "distinct (palette s')" using s'(2) d by (metis mset_eq_imp_distinct_iff)
  moreover have "set (palette s') = set (pixelsNRGBA im)"
    using s'(2) st by (metis mset_eq_setD)
  moreover have "paletteFromNRGBA pf im hint = Some (map ColorNRGBA (palette s'))"
    using s'(1) by (simp add: paletteFromNRGBA_def Let_def)
  ultimately show ?thesis
    using s'(3) by blast
qed

lemma paletteFromGray_small:
  assumes "enumerates (rangeGray pf (frequencies (pixelsGray im))) (frequencies (pixelsGray im))"
      and "card (set (pixelsGray im)) \<le> 12"
  shows "\<exists>xs. paletteFromGray pf im hint = Some (map ColorGray xs) \<and> distinct xs \<and>
           set xs = set (pixelsGray im)"
proof -
  let ?cols = "frequencies (pixelsGray im)"
  let ?raw = "rangeGray pf ?cols"
  have d: "distinct ?raw" and st: "set ?raw = set (pixelsGray im)"
    using assms(1) by (simp_all add: enumerates_def dom_frequencies)
  have "length ?raw = card (set (pixelsGray im))"
    using d st by (metis distinct_card)
  then have "length ?raw \<le> 12" using assms(2) by simp
  from sortSlice_small [OF this, of pf ?cols]
  obtain xs where xs: "sortSlice pf ?cols ?raw = Some xs" "mset xs = mset ?raw" by auto
  have "distinct xs" using xs(2) d by (metis mset_eq_imp_distinct_iff)
  moreover have "set xs = set (pixelsGray im)"
    using xs(2) st by (metis mset_eq_setD)
  moreover have "paletteFromGray pf im hint = Some (map ColorGray xs)"
    using xs(1) by (simp add: paletteFromGray_def Let_def)
  ultimately show ?thesis by blast
qed

section \<open>The library's sort\<close>

text \<open>
  The pattern-defeating quicksort of the library, run with any comparison that never
  contradicts the order of some key: it returns, and it leaves the slice rearranged with
  ascending keys. The comparison need not be an order.
\<close>

declare siftDownFrom.simps [simp del]
declare scanUp.simps [simp del] scanDown.simps [simp del]
declare scanUpEq.simps [simp del] scanDownEq.simps [simp del]
declare partitionLoop.simps [simp del] partitionEqualLoop.simps [simp del]
declare scanSorted.simps [simp del] shiftSmaller.simps [simp del] shiftGreater.simps [simp del]
declare reverseLoop.simps [simp del]
declare bitsLen.simps [simp del]

subsection \<open>Swaps\<close>

lemma sliceOps_less:
  "sliceOps lessf swapf view lt ok \<Longrightarrow> ok d \<Longrightarrow> i < length (view d) \<Longrightarrow> j < length (view d) \<Longrightarrow>
   lessf d i j = Some (lt (view d ! i) (view d ! j))"
  by (simp add: sliceOps_def)

lemma sliceOps_swap:
  "sliceOps lessf swapf view lt ok \<Longrightarrow> ok d \<Longrightarrow> i < length (view d) \<Longrightarrow> j < length (view d) \<Longrightarrow>
   \<exists>d'. swapf d i j = Some d' \<and> ok d' \<and> view d' = (view d)[i := view d ! j, j := view d ! i]"
  by (simp add: sliceOps_def)

lemma mset_swap2: "i < length xs \<Longrightarrow> j < length xs \<Longrightarrow> mset (xs[i := xs ! j, j := xs ! i]) = mset xs"
  by (simp add: mset_swap)

lemma segPerm_refl: "segPerm a z xs xs"
  by (simp add: segPerm_def)

lemma segPerm_trans: "segPerm a z xs ys \<Longrightarrow> segPerm a z ys zs \<Longrightarrow> segPerm a z xs zs"
  by (simp add: segPerm_def)

lemma segPerm_mono: "segPerm a z xs ys \<Longrightarrow> a' \<le> a \<Longrightarrow> z \<le> z' \<Longrightarrow> segPerm a' z' xs ys"
proof -
  assume p: "segPerm a z xs ys" and a: "a' \<le> a" and z: "z \<le> z'"
  have "take a' ys = take a' (take a ys)" using a by (simp add: min_def)
  also have "\<dots> = take a' (take a xs)" using p by (simp add: segPerm_def)
  also have "\<dots> = take a' xs" using a by (simp add: min_def)
  finally have t: "take a' ys = take a' xs" .
  have "drop z' ys = drop (z' - z) (drop z ys)" using z by simp
  also have "\<dots> = drop (z' - z) (drop z xs)" using p by (simp add: segPerm_def)
  also have "\<dots> = drop z' xs" using z by simp
  finally show ?thesis using p t by (simp add: segPerm_def)
qed

lemma segPerm_swap:
  assumes "a \<le> i" "i < z" "a \<le> j" "j < z" "z \<le> length xs"
  shows "segPerm a z xs (xs[i := xs ! j, j := xs ! i])"
  using assms by (simp add: segPerm_def mset_swap)

lemma segPerm_nth:
  assumes "segPerm a z xs ys" and "k < a \<or> z \<le> k" and "k < length xs"
  shows "ys ! k = xs ! k"
proof (cases "k < a")
  case True
  have "ys ! k = take a ys ! k" using True by simp
  also have "\<dots> = take a xs ! k" using assms(1) by (simp add: segPerm_def)
  finally show ?thesis using True by simp
next
  case False
  then have zk: "z \<le> k" using assms(2) by simp
  have l: "length ys = length xs" using assms(1) by (simp add: segPerm_def)
  have "ys ! k = drop z ys ! (k - z)" using zk assms(3) l by (simp add: nth_drop)
  also have "\<dots> = drop z xs ! (k - z)" using assms(1) by (simp add: segPerm_def)
  also have "\<dots> = xs ! k" using zk assms(3) by (simp add: nth_drop)
  finally show ?thesis .
qed

lemma nth_swap2:
  "i < length xs \<Longrightarrow> j < length xs \<Longrightarrow> k < length xs \<Longrightarrow>
   (xs[i := xs ! j, j := xs ! i]) ! k = (if k = j then xs ! i else if k = i then xs ! j else xs ! k)"
  by (simp add: nth_list_update)

lemma segPerm_sub:
  "segPerm a' z' xs ys \<Longrightarrow> a \<le> a' \<Longrightarrow> z' \<le> z \<Longrightarrow> segPerm a z xs ys"
  by (rule segPerm_mono)

lemma segPerm_sym: "segPerm a z xs ys \<Longrightarrow> segPerm a z ys xs"
  by (simp add: segPerm_def)

lemma segPerm_map: "segPerm a z xs ys \<Longrightarrow> segPerm a z (map f xs) (map f ys)"
  by (simp add: segPerm_def take_map drop_map)

lemma segPerm_keyPerm: "segPerm a z xs ys \<Longrightarrow> keyPerm key a z xs ys"
  using segPerm_map [of a z xs ys key] by (simp add: keyPerm_def segPerm_def)

lemma keyPerm_refl: "keyPerm key a z xs xs"
  by (simp add: keyPerm_def segPerm_refl)

lemma keyPerm_trans: "keyPerm key a z xs ys \<Longrightarrow> keyPerm key a z ys zs \<Longrightarrow> keyPerm key a z xs zs"
  using segPerm_trans [of a z "map key xs" "map key ys" "map key zs"] by (simp add: keyPerm_def)

lemma keyPerm_mono: "keyPerm key a z xs ys \<Longrightarrow> a' \<le> a \<Longrightarrow> z \<le> z' \<Longrightarrow> keyPerm key a' z' xs ys"
  using segPerm_mono [of a z "map key xs" "map key ys" a' z'] by (simp add: keyPerm_def)

lemma keyPerm_length: "keyPerm key a z xs ys \<Longrightarrow> length ys = length xs"
  using mset_eq_length [of ys xs] by (simp add: keyPerm_def)

lemma keyPerm_nth:
  assumes "keyPerm key a z xs ys" and "k < a \<or> z \<le> k" and "k < length xs"
  shows "key (ys ! k) = key (xs ! k)"
proof -
  have l: "length ys = length xs" using assms(1) by (rule keyPerm_length)
  have "map key ys ! k = map key xs ! k"
    using segPerm_nth [of a z "map key xs" "map key ys" k] assms by (simp add: keyPerm_def)
  then show ?thesis using assms(3) l by simp
qed

lemma split3: "a \<le> z \<Longrightarrow> xs = take a xs @ seg xs a z @ drop z xs"
proof -
  assume az: "a \<le> z"
  have e: "drop (z - a) (drop a xs) = drop z xs" using az by simp
  have "take (z - a) (drop a xs) @ drop (z - a) (drop a xs) = drop a xs"
    by (rule append_take_drop_id)
  then have "seg xs a z @ drop z xs = drop a xs" unfolding seg_def e .
  then show ?thesis by simp
qed

lemma segPerm_seg:
  assumes p: "segPerm a z xs ys" and az: "a \<le> z"
  shows "mset (seg ys a z) = mset (seg xs a z)"
proof -
  have t: "take a ys = take a xs" and d: "drop z ys = drop z xs" and m: "mset ys = mset xs"
    using p by (simp_all add: segPerm_def)
  have "mset ys = mset (take a ys) + mset (seg ys a z) + mset (drop z ys)"
    using split3 [OF az, of ys] by (metis mset_append add.assoc)
  moreover have "mset xs = mset (take a xs) + mset (seg xs a z) + mset (drop z xs)"
    using split3 [OF az, of xs] by (metis mset_append add.assoc)
  ultimately have "mset (take a xs) + mset (seg ys a z) + mset (drop z xs) =
      mset (take a xs) + mset (seg xs a z) + mset (drop z xs)"
    using t d m by simp
  then show ?thesis by simp
qed

lemma seg_nth: "a \<le> k \<Longrightarrow> k < z \<Longrightarrow> z \<le> length xs \<Longrightarrow> seg xs a z ! (k - a) = xs ! k"
  by (simp add: seg_def)

lemma length_seg: "z \<le> length xs \<Longrightarrow> length (seg xs a z) = z - a"
  by (simp add: seg_def)

lemma segPerm_in:
  assumes p: "segPerm a z xs ys" and k: "a \<le> k" "k < z" and z: "z \<le> length xs"
  shows "\<exists>k'. a \<le> k' \<and> k' < z \<and> xs ! k' = ys ! k"
proof -
  have l: "length ys = length xs" using p by (simp add: segPerm_def)
  have az: "a \<le> z" using k by simp
  have "ys ! k = seg ys a z ! (k - a)" using seg_nth [OF k(1) k(2), of ys] z l by simp
  moreover have "k - a < length (seg ys a z)" using length_seg [of z ys a] z l k by simp
  ultimately have "ys ! k \<in> set (seg ys a z)" by (metis nth_mem)
  then have "ys ! k \<in> set (seg xs a z)"
    using segPerm_seg [OF p az] by (metis mset_eq_setD)
  then obtain m where m: "m < length (seg xs a z)" "seg xs a z ! m = ys ! k"
    by (auto simp add: in_set_conv_nth)
  have mz: "m < z - a" using m(1) length_seg [OF z, of a] by simp
  then have "seg xs a z ! (a + m - a) = xs ! (a + m)"
    using seg_nth [of a "a + m" z xs] z by simp
  then have "xs ! (a + m) = ys ! k" using m(2) by simp
  moreover have "a \<le> a + m" "a + m < z" using mz by simp_all
  ultimately show ?thesis by blast
qed

lemma keyPerm_in:
  assumes p: "keyPerm key a z xs ys" and k: "a \<le> k" "k < z" and z: "z \<le> length xs"
  shows "\<exists>k'. a \<le> k' \<and> k' < z \<and> key (xs ! k') = key (ys ! k)"
proof -
  have l: "length ys = length xs" using p by (rule keyPerm_length)
  have "segPerm a z (map key xs) (map key ys)" using p by (simp add: keyPerm_def)
  then obtain k' where k': "a \<le> k'" "k' < z" "map key xs ! k' = map key ys ! k"
    using segPerm_in [of a z "map key xs" "map key ys" k] k z by auto
  then have "key (xs ! k') = key (ys ! k)" using z l k by simp
  then show ?thesis using k'(1,2) by blast
qed

lemma isolated_keyPerm:
  assumes p: "keyPerm key a z xs ys" and i: "isolated key a z xs" and z: "z \<le> length xs"
  shows "isolated key a z ys"
  unfolding isolated_def
proof (intro allI impI)
  fix i j
  assume ij: "i < a \<and> a \<le> j \<and> j < z"
  obtain j' where j': "a \<le> j'" "j' < z" "key (xs ! j') = key (ys ! j)"
    using keyPerm_in [OF p _ _ z, of j] ij by blast
  have "key (ys ! i) = key (xs ! i)" using keyPerm_nth [OF p, of i] ij z by simp
  moreover have "key (xs ! i) \<le> key (xs ! j')" using i ij j' unfolding isolated_def by blast
  ultimately show "key (ys ! i) \<le> key (ys ! j)" using j'(3) by simp
qed

subsection \<open>Insertion sort\<close>

lemma sortedButD1:
  "sortedBut key a j i xs \<Longrightarrow> a \<le> p \<Longrightarrow> p \<le> q \<Longrightarrow> q \<le> i \<Longrightarrow> p \<noteq> j \<Longrightarrow> q \<noteq> j \<Longrightarrow>
   key (xs ! p) \<le> key (xs ! q)"
  by (simp add: sortedBut_def)

lemma sortedButD2: "sortedBut key a j i xs \<Longrightarrow> j < q \<Longrightarrow> q \<le> i \<Longrightarrow> key (xs ! j) \<le> key (xs ! q)"
  by (simp add: sortedBut_def)

lemma sortedSegD:
  "sortedSeg key a z xs \<Longrightarrow> a \<le> p \<Longrightarrow> p \<le> q \<Longrightarrow> q < z \<Longrightarrow> key (xs ! p) \<le> key (xs ! q)"
  by (simp add: sortedSeg_def)

lemma sortedBut_start: "sortedSeg key a i xs \<Longrightarrow> sortedBut key a i i xs"
  by (simp add: sortedSeg_def sortedBut_def)

lemma sortedBut_done:
  assumes s: "sortedBut key a j i xs" and h: "j = a \<or> key (xs ! (j - 1)) \<le> key (xs ! j)"
    and r: "a \<le> j" "j \<le> i"
  shows "sortedSeg key a (Suc i) xs"
  unfolding sortedSeg_def
proof (intro allI impI)
  fix p q
  assume pq: "a \<le> p \<and> p \<le> q \<and> q < Suc i"
  have c1: "key (xs ! p) \<le> key (xs ! q)" if "p = q"
    using that by simp
  have c2: "key (xs ! p) \<le> key (xs ! q)" if "p \<noteq> q" "p = j"
    using sortedButD2 [OF s, of q] that pq by simp
  have c3: "key (xs ! p) \<le> key (xs ! q)" if "p \<noteq> j" "q \<noteq> j"
    using sortedButD1 [OF s, of p q] that pq by simp
  have c4: "key (xs ! p) \<le> key (xs ! q)" if "p \<noteq> q" "q = j"
  proof -
    have aj: "a < j" using pq that by arith
    then have k: "key (xs ! (j - 1)) \<le> key (xs ! j)" using h by simp
    have "key (xs ! p) \<le> key (xs ! (j - 1))"
    proof (cases "p = j - 1")
      case True
      then show ?thesis by simp
    next
      case False
      have "p \<le> j - 1" "j - 1 \<le> i" "p \<noteq> j" "j - 1 \<noteq> j" using pq that aj r by arith+
      then show ?thesis using sortedButD1 [OF s, of p "j - 1"] pq by simp
    qed
    then show ?thesis using k that by simp
  qed
  show "key (xs ! p) \<le> key (xs ! q)" using c1 c2 c3 c4 by blast
qed

lemma sortedBut_step:
  assumes s: "sortedBut key a j i xs" and h: "key (xs ! j) \<le> key (xs ! (j - 1))"
    and r: "a < j" "j \<le> i" "i < length xs"
  shows "sortedBut key a (j - 1) i (xs[j := xs ! (j - 1), j - 1 := xs ! j])"
proof -
  let ?ys = "xs[j := xs ! (j - 1), j - 1 := xs ! j]"
  have jl: "j < length xs" "j - 1 < length xs" "j - 1 \<noteq> j" using r by arith+
  have n: "?ys ! k = (if k = j - 1 then xs ! j else if k = j then xs ! (j - 1) else xs ! k)"
    if "k \<le> i" for k
    using that r jl by (simp add: nth_list_update)
  show ?thesis
    unfolding sortedBut_def
  proof (intro conjI allI impI)
    fix p q
    assume pq: "a \<le> p \<and> p \<le> q \<and> q \<le> i \<and> p \<noteq> j - 1 \<and> q \<noteq> j - 1"
    have pi: "p \<le> i" using pq by simp
    have c1: "key (?ys ! p) \<le> key (?ys ! q)" if "p = q"
      using that by simp
    have c2: "key (?ys ! p) \<le> key (?ys ! q)" if "p \<noteq> q" "q = j"
    proof -
      have "p \<le> j - 1" "j - 1 \<le> i" "p \<noteq> j" using pq that r by arith+
      then have "key (xs ! p) \<le> key (xs ! (j - 1))"
        using sortedButD1 [OF s, of p "j - 1"] pq jl by simp
      then show ?thesis using n [of p] n [of q] pq that pi by simp
    qed
    have c3: "key (?ys ! p) \<le> key (?ys ! q)" if "p \<noteq> q" "p = j"
    proof -
      have "j - 1 \<le> q" "q \<noteq> j" "a \<le> j - 1" using pq that r by arith+
      then have "key (xs ! (j - 1)) \<le> key (xs ! q)"
        using sortedButD1 [OF s, of "j - 1" q] pq jl by simp
      then show ?thesis using n [of p] n [of q] pq that pi by simp
    qed
    have c4: "key (?ys ! p) \<le> key (?ys ! q)" if "p \<noteq> j" "q \<noteq> j"
      using sortedButD1 [OF s, of p q] pq that n [of p] n [of q] pi by simp
    show "key (?ys ! p) \<le> key (?ys ! q)" using c1 c2 c3 c4 by blast
  next
    fix q
    assume q: "j - 1 < q \<and> q \<le> i"
    show "key (?ys ! (j - 1)) \<le> key (?ys ! q)"
    proof (cases "q = j")
      case True
      then show ?thesis using n [of j] n [of "j - 1"] r h jl by simp
    next
      case False
      then have "j < q" using q by arith
      then have "key (xs ! j) \<le> key (xs ! q)" using sortedButD2 [OF s, of q] q by simp
      then show ?thesis using n [of q] n [of "j - 1"] q r False by simp
    qed
  qed
qed

lemma agrees_lt: "agrees lt key \<Longrightarrow> lt x y \<Longrightarrow> key x \<le> key y"
  by (simp add: agrees_def)

lemma agrees_not_lt: "agrees lt key \<Longrightarrow> \<not> lt x y \<Longrightarrow> key y \<le> key x"
  by (simp add: agrees_def)

lemma insertionInner_sorts:
  assumes ops: "sliceOps lessf swapf view lt ok" and ag: "agrees lt key"
  shows "ok d \<Longrightarrow> a \<le> j \<Longrightarrow> j \<le> i \<Longrightarrow> i < length (view d) \<Longrightarrow> sortedBut key a j i (view d) \<Longrightarrow>
         \<exists>d'. insertionInner lessf swapf a j d = Some d' \<and> ok d' \<and>
              segPerm a (Suc i) (view d) (view d') \<and> sortedSeg key a (Suc i) (view d')"
proof (induction "j - a" arbitrary: j d)
  case 0
  then have "j = a" by simp
  then show ?case
    using 0 sortedBut_done [of key a j i "view d"]
    by (subst insertionInner.simps) (simp add: segPerm_refl)
next
  case (Suc k)
  let ?xs = "view d"
  have aj: "a < j" using Suc.hyps(2) by arith
  have jl: "j < length ?xs" "j - 1 < length ?xs" using Suc.prems by arith+
  have l: "lessf d j (j - 1) = Some (lt (?xs ! j) (?xs ! (j - 1)))"
    using sliceOps_less [OF ops Suc.prems(1) jl] .
  show ?case
  proof (cases "lt (?xs ! j) (?xs ! (j - 1))")
    case False
    have "sortedSeg key a (Suc i) ?xs"
      using sortedBut_done [of key a j i ?xs] Suc.prems agrees_not_lt [OF ag False] by simp
    then show ?thesis
      using l False aj Suc.prems by (subst insertionInner.simps) (simp add: segPerm_refl)
  next
    case True
    obtain d1 where d1: "swapf d j (j - 1) = Some d1" "ok d1"
        "view d1 = ?xs[j := ?xs ! (j - 1), j - 1 := ?xs ! j]"
      using sliceOps_swap [OF ops Suc.prems(1) jl] by auto
    have s1: "sortedBut key a (j - 1) i (view d1)"
      unfolding d1(3)
      using sortedBut_step [of key a j i ?xs] Suc.prems aj agrees_lt [OF ag True] by simp
    have k: "k = j - 1 - a" "a \<le> j - 1" "j - 1 \<le> i" "i < length (view d1)"
      using Suc.hyps(2) Suc.prems d1(3) by simp_all
    obtain d' where d': "insertionInner lessf swapf a (j - 1) d1 = Some d'" "ok d'"
        "segPerm a (Suc i) (view d1) (view d')" "sortedSeg key a (Suc i) (view d')"
      using Suc.hyps(1) [OF k(1) d1(2) k(2) k(3) k(4) s1] by blast
    have "segPerm a (Suc i) ?xs (view d1)"
      unfolding d1(3) using segPerm_swap [of a j "Suc i" "j - 1" ?xs] aj Suc.prems by simp
    then have "segPerm a (Suc i) ?xs (view d')" using d'(3) by (rule segPerm_trans)
    then show ?thesis
      using l True aj d1 d' by (subst insertionInner.simps) simp
  qed
qed

lemma sortedSeg_empty: "z \<le> Suc a \<Longrightarrow> sortedSeg key a z xs"
  unfolding sortedSeg_def
proof (intro allI impI)
  fix i j
  assume "z \<le> Suc a" and "a \<le> i \<and> i \<le> j \<and> j < z"
  then have "i = j" by arith
  then show "key (xs ! i) \<le> key (xs ! j)" by simp
qed

lemma insertionOuter_sorts:
  assumes ops: "sliceOps lessf swapf view lt ok" and ag: "agrees lt key"
  shows "ok d \<Longrightarrow> a \<le> i \<Longrightarrow> z \<le> length (view d) \<Longrightarrow> sortedSeg key a (min i z) (view d) \<Longrightarrow>
         \<exists>d'. insertionOuter lessf swapf a z i d = Some d' \<and> ok d' \<and>
              segPerm a z (view d) (view d') \<and> sortedSeg key a z (view d')"
proof (induction "z - i" arbitrary: i d)
  case 0
  then show ?case
    by (subst insertionOuter.simps) (simp add: segPerm_refl min_def split: if_splits)
next
  case (Suc k)
  have iz: "i < z" using Suc.hyps(2) by arith
  have il: "i < length (view d)" using iz Suc.prems by arith
  have "sortedBut key a i i (view d)"
    using Suc.prems(4) iz by (simp add: sortedBut_start min_def)
  then obtain d1 where d1: "insertionInner lessf swapf a i d = Some d1" "ok d1"
      "segPerm a (Suc i) (view d) (view d1)" "sortedSeg key a (Suc i) (view d1)"
    using insertionInner_sorts [OF ops ag Suc.prems(1) Suc.prems(2) order_refl il] by blast
  have l1: "length (view d1) = length (view d)" using d1(3) by (simp add: segPerm_def)
  have k: "k = z - (i + 1)" "a \<le> i + 1" "z \<le> length (view d1)"
      "sortedSeg key a (min (i + 1) z) (view d1)"
    using Suc.hyps(2) Suc.prems l1 d1(4) iz by (simp_all add: min_def)
  obtain d' where d': "insertionOuter lessf swapf a z (i + 1) d1 = Some d'" "ok d'"
      "segPerm a z (view d1) (view d')" "sortedSeg key a z (view d')"
    using Suc.hyps(1) [OF k(1) d1(2) k(2) k(3) k(4)] by blast
  have "segPerm a z (view d) (view d1)" using segPerm_mono [OF d1(3), of a z] iz by simp
  then have "segPerm a z (view d) (view d')" using d'(3) by (rule segPerm_trans)
  then show ?case using d1 d' iz by (subst insertionOuter.simps) simp
qed

lemma insertionSort_sorts:
  assumes ops: "sliceOps lessf swapf view lt ok" and ag: "agrees lt key"
    and "ok d" "z \<le> length (view d)"
  shows "\<exists>d'. insertionSort lessf swapf d a z = Some d' \<and> ok d' \<and>
              segPerm a z (view d) (view d') \<and> sortedSeg key a z (view d')"
  unfolding insertionSort_def
  using insertionOuter_sorts [OF ops ag assms(3), of a "a + 1" z] assms(4)
  by (simp add: sortedSeg_empty)

subsection \<open>Partition\<close>

lemma scanUp_spec:
  assumes ops: "sliceOps lessf swapf view lt ok" and d: "ok d"
    and r: "a < length (view d)" "j < length (view d)"
  shows "\<exists>i'. scanUp lessf d a i j = Some i' \<and> i \<le> i' \<and> i' \<le> max i (Suc j) \<and>
           (\<forall>k. i \<le> k \<and> k < i' \<longrightarrow> lt (view d ! k) (view d ! a)) \<and>
           (i' \<le> j \<longrightarrow> \<not> lt (view d ! i') (view d ! a))"
proof (induction "Suc j - i" arbitrary: i)
  case 0
  then have "\<not> i \<le> j" by arith
  then show ?case by (subst scanUp.simps) auto
next
  case (Suc n)
  let ?xs = "view d"
  have ij: "i \<le> j" using Suc.hyps(2) by arith
  then have il: "i < length ?xs" using r by arith
  have l: "lessf d i a = Some (lt (?xs ! i) (?xs ! a))"
    using sliceOps_less [OF ops d il r(1)] .
  show ?case
  proof (cases "lt (?xs ! i) (?xs ! a)")
    case False
    then show ?thesis using l ij by (subst scanUp.simps) auto
  next
    case True
    have n: "n = Suc j - (i + 1)" using Suc.hyps(2) by arith
    obtain i' where i': "scanUp lessf d a (i + 1) j = Some i'" "i + 1 \<le> i'"
        "i' \<le> max (i + 1) (Suc j)"
        "\<forall>k. i + 1 \<le> k \<and> k < i' \<longrightarrow> lt (?xs ! k) (?xs ! a)"
        "i' \<le> j \<longrightarrow> \<not> lt (?xs ! i') (?xs ! a)"
      using Suc.hyps(1) [OF n] by blast
    have "\<forall>k. i \<le> k \<and> k < i' \<longrightarrow> lt (?xs ! k) (?xs ! a)"
    proof (intro allI impI)
      fix k
      assume k: "i \<le> k \<and> k < i'"
      show "lt (?xs ! k) (?xs ! a)"
      proof (cases "k = i")
        case True
        then show ?thesis using \<open>lt (?xs ! i) (?xs ! a)\<close> by simp
      next
        case False
        then have "i + 1 \<le> k" using k by arith
        then show ?thesis using i'(4) k by simp
      qed
    qed
    moreover have "scanUp lessf d a i j = Some i'"
      using l True ij i'(1) by (subst scanUp.simps) simp
    moreover have "i \<le> i'" "i' \<le> max i (Suc j)" using i'(2,3) ij by arith+
    ultimately show ?thesis using i'(5) by blast
  qed
qed

lemma scanDown_spec:
  assumes ops: "sliceOps lessf swapf view lt ok" and d: "ok d"
    and r: "a < length (view d)" "0 < i"
  shows "j < length (view d) \<Longrightarrow>
         \<exists>j'. scanDown lessf d a i j = Some j' \<and> j' \<le> j \<and> (i \<le> Suc j \<longrightarrow> i \<le> Suc j') \<and>
           (\<forall>k. j' < k \<and> k \<le> j \<longrightarrow> \<not> lt (view d ! k) (view d ! a)) \<and>
           (i \<le> j' \<longrightarrow> lt (view d ! j') (view d ! a))"
proof (induction j)
  case 0
  then show ?case using r by (subst scanDown.simps) simp
next
  case (Suc j)
  let ?xs = "view d"
  show ?case
  proof (cases "i \<le> Suc j")
    case False
    then show ?thesis by (subst scanDown.simps) auto
  next
    case ij: True
    have l: "lessf d (Suc j) a = Some (lt (?xs ! Suc j) (?xs ! a))"
      using sliceOps_less [OF ops d Suc.prems r(1)] .
    show ?thesis
    proof (cases "lt (?xs ! Suc j) (?xs ! a)")
      case True
      then show ?thesis using l ij by (subst scanDown.simps) auto
    next
      case False
      have jl: "j < length ?xs" using Suc.prems by arith
      obtain j' where j': "scanDown lessf d a i j = Some j'" "j' \<le> j"
          "i \<le> Suc j \<longrightarrow> i \<le> Suc j'"
          "\<forall>k. j' < k \<and> k \<le> j \<longrightarrow> \<not> lt (?xs ! k) (?xs ! a)"
          "i \<le> j' \<longrightarrow> lt (?xs ! j') (?xs ! a)"
        using Suc.IH [OF jl] by blast
      have "\<forall>k. j' < k \<and> k \<le> Suc j \<longrightarrow> \<not> lt (?xs ! k) (?xs ! a)"
      proof (intro allI impI)
        fix k
        assume k: "j' < k \<and> k \<le> Suc j"
        show "\<not> lt (?xs ! k) (?xs ! a)"
        proof (cases "k = Suc j")
          case True
          then show ?thesis using False by simp
        next
          case ne: False
          then have "k \<le> j" using k by arith
          then show ?thesis using j'(4) k by simp
        qed
      qed
      moreover have "scanDown lessf d a i (Suc j) = Some j'"
        using l False ij j'(1) by (subst scanDown.simps) simp
      moreover have "j' \<le> Suc j" using j'(2) by arith
      moreover have "i \<le> Suc (Suc j) \<longrightarrow> i \<le> Suc j'"
      proof (cases "i \<le> Suc j'")
        case True
        then show ?thesis by simp
      next
        case f: False
        then have "\<not> i \<le> Suc j" using j'(3) by blast
        then show ?thesis using ij by simp
      qed
      ultimately show ?thesis using j'(5) by blast
    qed
  qed
qed

lemma partitionLoop_spec:
  assumes ops: "sliceOps lessf swapf view lt ok"
  shows "ok d \<Longrightarrow> a < i \<Longrightarrow> i \<le> Suc j \<Longrightarrow> j < z \<Longrightarrow> z \<le> length (view d) \<Longrightarrow>
     (\<forall>k. a < k \<and> k < i \<longrightarrow> lt (view d ! k) (view d ! a)) \<Longrightarrow>
     (\<forall>k. j < k \<and> k < z \<longrightarrow> \<not> lt (view d ! k) (view d ! a)) \<Longrightarrow>
     \<exists>d' m. partitionLoop lessf swapf a i j d = Some (d', m) \<and> ok d' \<and>
        segPerm (Suc a) z (view d) (view d') \<and> a \<le> m \<and> m < z \<and>
        (\<forall>k. a < k \<and> k \<le> m \<longrightarrow> lt (view d' ! k) (view d' ! a)) \<and>
        (\<forall>k. m < k \<and> k < z \<longrightarrow> \<not> lt (view d' ! k) (view d' ! a))"
proof (induction "Suc j - i" arbitrary: i j d rule: less_induct)
  case less
  let ?xs = "view d"
  note ok = less.prems(1) and ai = less.prems(2) and ij = less.prems(3) and jz = less.prems(4)
    and zl = less.prems(5) and low = less.prems(6) and high = less.prems(7)
  have al: "a < length ?xs" and jl: "j < length ?xs" using ai ij jz zl by arith+
  obtain i' where i': "scanUp lessf d a i j = Some i'" "i \<le> i'" "i' \<le> max i (Suc j)"
      "\<forall>k. i \<le> k \<and> k < i' \<longrightarrow> lt (?xs ! k) (?xs ! a)"
      "i' \<le> j \<longrightarrow> \<not> lt (?xs ! i') (?xs ! a)"
    using scanUp_spec [OF ops ok al jl, of i] by blast
  have i0: "0 < i'" using ai i'(2) by arith
  obtain j' where j': "scanDown lessf d a i' j = Some j'" "j' \<le> j" "i' \<le> Suc j \<longrightarrow> i' \<le> Suc j'"
      "\<forall>k. j' < k \<and> k \<le> j \<longrightarrow> \<not> lt (?xs ! k) (?xs ! a)"
      "i' \<le> j' \<longrightarrow> lt (?xs ! j') (?xs ! a)"
    using scanDown_spec [OF ops ok al i0 jl] by blast
  have i'j: "i' \<le> Suc j" using i'(3) ij by arith
  then have i'j': "i' \<le> Suc j'" using j'(3) by simp
  have lowS: "lt (?xs ! k) (?xs ! a)" if "a < k" "k < i'" for k
  proof (cases "k < i")
    case True
    then show ?thesis using low that by simp
  next
    case False
    then show ?thesis using i'(4) that by simp
  qed
  have highS: "\<not> lt (?xs ! k) (?xs ! a)" if "j' < k" "k < z" for k
  proof (cases "k \<le> j")
    case True
    then show ?thesis using j'(4) that by simp
  next
    case False
    then show ?thesis using high that by simp
  qed
  show ?case
  proof (cases "i' > j'")
    case True
    then have e: "i' = Suc j'" using i'j' by arith
    have r: "partitionLoop lessf swapf a i j d = Some (d, j')"
      using i'(1) j'(1) True by (subst partitionLoop.simps) simp
    have "a \<le> j'" "j' < z" using e ai i'(2) j'(2) jz by arith+
    moreover have "\<forall>k. a < k \<and> k \<le> j' \<longrightarrow> lt (?xs ! k) (?xs ! a)"
      using lowS e by simp
    moreover have "\<forall>k. j' < k \<and> k < z \<longrightarrow> \<not> lt (?xs ! k) (?xs ! a)"
      using highS by simp
    ultimately show ?thesis using r ok segPerm_refl [of "Suc a" z ?xs] by blast
  next
    case False
    then have le: "i' \<le> j'" by simp
    have hi': "\<not> lt (?xs ! i') (?xs ! a)" using i'(5) le j'(2) by simp
    have hj': "lt (?xs ! j') (?xs ! a)" using j'(5) le by simp
    have "i' \<noteq> j'" using hi' hj' by auto
    then have lt': "i' < j'" using le by arith
    have il': "i' < length ?xs" and jl': "j' < length ?xs" using lt' j'(2) jl by arith+
    obtain d1 where d1: "swapf d i' j' = Some d1" "ok d1"
        "view d1 = ?xs[i' := ?xs ! j', j' := ?xs ! i']"
      using sliceOps_swap [OF ops ok il' jl'] by blast
    let ?ys = "view d1"
    have n: "?ys ! k = (if k = j' then ?xs ! i' else if k = i' then ?xs ! j' else ?xs ! k)"
      if "k < length ?xs" for k
      unfolding d1(3) using nth_swap2 [OF il' jl' that] .
    have ya: "?ys ! a = ?xs ! a" using n [OF al] ai i'(2) lt' by simp
    have m: "Suc (j' - 1) - (i' + 1) < Suc j - i" using lt' j'(2) i'(2) by arith
    have p: "a < i' + 1" "i' + 1 \<le> Suc (j' - 1)" "j' - 1 < z" "z \<le> length ?ys"
      using ai i'(2) lt' j'(2) jz zl d1(3) by simp_all
    have low1: "\<forall>k. a < k \<and> k < i' + 1 \<longrightarrow> lt (?ys ! k) (?ys ! a)"
    proof (intro allI impI)
      fix k
      assume k: "a < k \<and> k < i' + 1"
      then have kl: "k < length ?xs" using il' by arith
      show "lt (?ys ! k) (?ys ! a)"
      proof (cases "k = i'")
        case True
        then show ?thesis using n [OF kl] ya hj' lt' by simp
      next
        case False
        then have "k < i'" using k by arith
        then show ?thesis using n [OF kl] ya lowS [of k] k lt' by simp
      qed
    qed
    have high1: "\<forall>k. j' - 1 < k \<and> k < z \<longrightarrow> \<not> lt (?ys ! k) (?ys ! a)"
    proof (intro allI impI)
      fix k
      assume k: "j' - 1 < k \<and> k < z"
      then have kl: "k < length ?xs" using zl by arith
      show "\<not> lt (?ys ! k) (?ys ! a)"
      proof (cases "k = j'")
        case True
        then show ?thesis using n [OF kl] ya hi' by simp
      next
        case False
        then have "j' < k" using k by arith
        then show ?thesis using n [OF kl] ya highS [of k] k lt' by simp
      qed
    qed
    obtain d' m where d': "partitionLoop lessf swapf a (i' + 1) (j' - 1) d1 = Some (d', m)" "ok d'"
        "segPerm (Suc a) z ?ys (view d')" "a \<le> m" "m < z"
        "\<forall>k. a < k \<and> k \<le> m \<longrightarrow> lt (view d' ! k) (view d' ! a)"
        "\<forall>k. m < k \<and> k < z \<longrightarrow> \<not> lt (view d' ! k) (view d' ! a)"
      using less.hyps [OF m d1(2) p low1 high1] by blast
    have "segPerm (Suc a) z ?xs ?ys"
      unfolding d1(3) using segPerm_swap [of "Suc a" i' z j' ?xs] ai i'(2) lt' j'(2) jz zl by simp
    then have sp: "segPerm (Suc a) z ?xs (view d')" using d'(3) by (rule segPerm_trans)
    have r: "partitionLoop lessf swapf a i j d = Some (d', m)"
      using i'(1) j'(1) False d1(1) d'(1) by (subst partitionLoop.simps) simp
    show ?thesis using r d'(2) sp d'(4,5,6,7) by blast
  qed
qed

lemma partition_loop:
  "map_option (\<lambda>(d', m, f). (d', m)) (partition' lessf swapf d a z pivot) =
     (case swapf d a pivot of
        None \<Rightarrow> None
      | Some d1 \<Rightarrow>
          (case partitionLoop lessf swapf a (a + 1) (z - 1) d1 of
             None \<Rightarrow> None
           | Some (d3, m) \<Rightarrow> map_option (\<lambda>d4. (d4, m)) (swapf d3 m a)))"
proof (cases "swapf d a pivot")
  case None
  then show ?thesis by (simp add: partition'_def)
next
  case (Some d1)
  have e: "partitionLoop lessf swapf a (a + 1) (z - 1) d1 =
     (case scanUp lessf d1 a (a + 1) (z - 1) of
        None \<Rightarrow> None
      | Some i' \<Rightarrow>
          (case scanDown lessf d1 a i' (z - 1) of
             None \<Rightarrow> None
           | Some j' \<Rightarrow>
               if i' > j' then Some (d1, j')
               else
                 (case swapf d1 i' j' of
                    None \<Rightarrow> None
                  | Some data' \<Rightarrow> partitionLoop lessf swapf a (i' + 1) (j' - 1) data')))"
    by (rule partitionLoop.simps)
  show ?thesis
    unfolding partition'_def Some option.case e
    by (simp split: option.splits prod.splits)
qed

lemma partition_spec:
  assumes ops: "sliceOps lessf swapf view lt ok" and ag: "agrees lt key"
    and ok: "ok d" and r: "a \<le> pivot" "pivot < z" "z \<le> length (view d)"
  shows "\<exists>d' m f. partition' lessf swapf d a z pivot = Some (d', m, f) \<and> ok d' \<and>
           segPerm a z (view d) (view d') \<and> a \<le> m \<and> m < z \<and>
           (\<forall>k. a \<le> k \<and> k < m \<longrightarrow> key (view d' ! k) \<le> key (view d' ! m)) \<and>
           (\<forall>k. m < k \<and> k < z \<longrightarrow> key (view d' ! m) \<le> key (view d' ! k))"
proof -
  let ?xs = "view d"
  have al: "a < length ?xs" and pl: "pivot < length ?xs" using r by arith+
  obtain d1 where d1: "swapf d a pivot = Some d1" "ok d1"
      "view d1 = ?xs[a := ?xs ! pivot, pivot := ?xs ! a]"
    using sliceOps_swap [OF ops ok al pl] by blast
  have s1: "segPerm a z ?xs (view d1)"
    unfolding d1(3) using segPerm_swap [of a a z pivot ?xs] r by simp
  have l1: "length (view d1) = length ?xs" using d1(3) by simp
  have p: "a < a + 1" "a + 1 \<le> Suc (z - 1)" "z - 1 < z" "z \<le> length (view d1)"
    using r l1 by simp_all
  obtain d3 m where d3: "partitionLoop lessf swapf a (a + 1) (z - 1) d1 = Some (d3, m)" "ok d3"
      "segPerm (Suc a) z (view d1) (view d3)" "a \<le> m" "m < z"
      "\<forall>k. a < k \<and> k \<le> m \<longrightarrow> lt (view d3 ! k) (view d3 ! a)"
      "\<forall>k. m < k \<and> k < z \<longrightarrow> \<not> lt (view d3 ! k) (view d3 ! a)"
  proof -
    have low0: "\<forall>k. a < k \<and> k < a + 1 \<longrightarrow> lt (view d1 ! k) (view d1 ! a)" by auto
    have high0: "\<forall>k. z - 1 < k \<and> k < z \<longrightarrow> \<not> lt (view d1 ! k) (view d1 ! a)" by auto
    show ?thesis using partitionLoop_spec [OF ops d1(2) p low0 high0] that by blast
  qed
  let ?ys = "view d3"
  have l3: "length ?ys = length ?xs" using d3(3) l1 by (simp add: segPerm_def)
  have ml: "m < length ?ys" and al3: "a < length ?ys" using d3(5) r l3 by arith+
  obtain d4 where d4: "swapf d3 m a = Some d4" "ok d4"
      "view d4 = ?ys[m := ?ys ! a, a := ?ys ! m]"
    using sliceOps_swap [OF ops d3(2) ml al3] by blast
  let ?zs = "view d4"
  have n: "?zs ! k = (if k = a then ?ys ! m else if k = m then ?ys ! a else ?ys ! k)"
    if "k < length ?ys" for k
    unfolding d4(3) using nth_swap2 [OF ml al3 that] .
  have zm: "?zs ! m = ?ys ! a" using n [OF ml] by simp
  have "map_option (\<lambda>(d', m, f). (d', m)) (partition' lessf swapf d a z pivot) = Some (d4, m)"
    unfolding partition_loop using d1(1) d3(1) d4(1) by simp
  then obtain f where res: "partition' lessf swapf d a z pivot = Some (d4, m, f)"
    by auto
  have "segPerm a z (view d1) ?ys" using segPerm_mono [OF d3(3), of a z] by simp
  then have s3: "segPerm a z ?xs ?ys" using s1 segPerm_trans by blast
  have "segPerm a z ?ys ?zs"
    unfolding d4(3) using segPerm_swap [of a m z a ?ys] d3(4,5) r l3 by simp
  then have s4: "segPerm a z ?xs ?zs" using s3 segPerm_trans by blast
  have low: "\<forall>k. a \<le> k \<and> k < m \<longrightarrow> key (?zs ! k) \<le> key (?zs ! m)"
  proof (intro allI impI)
    fix k
    assume k: "a \<le> k \<and> k < m"
    then have kl: "k < length ?ys" using ml by arith
    show "key (?zs ! k) \<le> key (?zs ! m)"
    proof (cases "k = a")
      case True
      have "lt (?ys ! m) (?ys ! a)" using d3(6) k by simp
      then show ?thesis using n [OF kl] zm True agrees_lt [OF ag] by simp
    next
      case False
      then have "lt (?ys ! k) (?ys ! a)" using d3(6) k by simp
      then show ?thesis using n [OF kl] zm False k agrees_lt [OF ag] by simp
    qed
  qed
  have high: "\<forall>k. m < k \<and> k < z \<longrightarrow> key (?zs ! m) \<le> key (?zs ! k)"
  proof (intro allI impI)
    fix k
    assume k: "m < k \<and> k < z"
    then have kl: "k < length ?ys" using r l3 by arith
    have "\<not> lt (?ys ! k) (?ys ! a)" using d3(7) k by simp
    then show "key (?zs ! m) \<le> key (?zs ! k)"
      using n [OF kl] zm k d3(4) agrees_not_lt [OF ag] by simp
  qed
  show ?thesis using res d4(2) s4 d3(4,5) low high by blast
qed

subsection \<open>Partition around a least pivot\<close>

lemma scanUpEq_spec:
  assumes ops: "sliceOps lessf swapf view lt ok" and d: "ok d"
    and r: "a < length (view d)" "j < length (view d)"
  shows "\<exists>i'. scanUpEq lessf d a i j = Some i' \<and> i \<le> i' \<and> i' \<le> max i (Suc j) \<and>
           (\<forall>k. i \<le> k \<and> k < i' \<longrightarrow> \<not> lt (view d ! a) (view d ! k)) \<and>
           (i' \<le> j \<longrightarrow> lt (view d ! a) (view d ! i'))"
proof (induction "Suc j - i" arbitrary: i)
  case 0
  then have "\<not> i \<le> j" by arith
  then show ?case by (subst scanUpEq.simps) auto
next
  case (Suc n)
  let ?xs = "view d"
  have ij: "i \<le> j" using Suc.hyps(2) by arith
  then have il: "i < length ?xs" using r by arith
  have l: "lessf d a i = Some (lt (?xs ! a) (?xs ! i))"
    using sliceOps_less [OF ops d r(1) il] .
  show ?case
  proof (cases "lt (?xs ! a) (?xs ! i)")
    case True
    then show ?thesis using l ij by (subst scanUpEq.simps) auto
  next
    case False
    have n: "n = Suc j - (i + 1)" using Suc.hyps(2) by arith
    obtain i' where i': "scanUpEq lessf d a (i + 1) j = Some i'" "i + 1 \<le> i'"
        "i' \<le> max (i + 1) (Suc j)"
        "\<forall>k. i + 1 \<le> k \<and> k < i' \<longrightarrow> \<not> lt (?xs ! a) (?xs ! k)"
        "i' \<le> j \<longrightarrow> lt (?xs ! a) (?xs ! i')"
      using Suc.hyps(1) [OF n] by blast
    have "\<forall>k. i \<le> k \<and> k < i' \<longrightarrow> \<not> lt (?xs ! a) (?xs ! k)"
    proof (intro allI impI)
      fix k
      assume k: "i \<le> k \<and> k < i'"
      show "\<not> lt (?xs ! a) (?xs ! k)"
      proof (cases "k = i")
        case True
        then show ?thesis using False by simp
      next
        case ne: False
        then have "i + 1 \<le> k" using k by arith
        then show ?thesis using i'(4) k by simp
      qed
    qed
    moreover have "scanUpEq lessf d a i j = Some i'"
      using l False ij i'(1) by (subst scanUpEq.simps) simp
    moreover have "i \<le> i'" "i' \<le> max i (Suc j)" using i'(2,3) ij by arith+
    ultimately show ?thesis using i'(5) by blast
  qed
qed

lemma scanDownEq_spec:
  assumes ops: "sliceOps lessf swapf view lt ok" and d: "ok d"
    and r: "a < length (view d)" "0 < i"
  shows "j < length (view d) \<Longrightarrow>
         \<exists>j'. scanDownEq lessf d a i j = Some j' \<and> j' \<le> j \<and> (i \<le> Suc j \<longrightarrow> i \<le> Suc j') \<and>
           (\<forall>k. j' < k \<and> k \<le> j \<longrightarrow> lt (view d ! a) (view d ! k)) \<and>
           (i \<le> j' \<longrightarrow> \<not> lt (view d ! a) (view d ! j'))"
proof (induction j)
  case 0
  then show ?case using r by (subst scanDownEq.simps) simp
next
  case (Suc j)
  let ?xs = "view d"
  show ?case
  proof (cases "i \<le> Suc j")
    case False
    then show ?thesis by (subst scanDownEq.simps) auto
  next
    case ij: True
    have l: "lessf d a (Suc j) = Some (lt (?xs ! a) (?xs ! Suc j))"
      using sliceOps_less [OF ops d r(1) Suc.prems] .
    show ?thesis
    proof (cases "lt (?xs ! a) (?xs ! Suc j)")
      case False
      then show ?thesis using l ij by (subst scanDownEq.simps) auto
    next
      case True
      have jl: "j < length ?xs" using Suc.prems by arith
      obtain j' where j': "scanDownEq lessf d a i j = Some j'" "j' \<le> j"
          "i \<le> Suc j \<longrightarrow> i \<le> Suc j'"
          "\<forall>k. j' < k \<and> k \<le> j \<longrightarrow> lt (?xs ! a) (?xs ! k)"
          "i \<le> j' \<longrightarrow> \<not> lt (?xs ! a) (?xs ! j')"
        using Suc.IH [OF jl] by blast
      have "\<forall>k. j' < k \<and> k \<le> Suc j \<longrightarrow> lt (?xs ! a) (?xs ! k)"
      proof (intro allI impI)
        fix k
        assume k: "j' < k \<and> k \<le> Suc j"
        show "lt (?xs ! a) (?xs ! k)"
        proof (cases "k = Suc j")
          case True
          then show ?thesis using \<open>lt (?xs ! a) (?xs ! Suc j)\<close> by simp
        next
          case ne: False
          then have "k \<le> j" using k by arith
          then show ?thesis using j'(4) k by simp
        qed
      qed
      moreover have "scanDownEq lessf d a i (Suc j) = Some j'"
        using l True ij j'(1) by (subst scanDownEq.simps) simp
      moreover have "j' \<le> Suc j" using j'(2) by arith
      moreover have "i \<le> Suc (Suc j) \<longrightarrow> i \<le> Suc j'"
      proof (cases "i \<le> Suc j'")
        case True
        then show ?thesis by simp
      next
        case f: False
        then have "\<not> i \<le> Suc j" using j'(3) by blast
        then show ?thesis using ij by simp
      qed
      ultimately show ?thesis using j'(5) by blast
    qed
  qed
qed

lemma partitionEqualLoop_spec:
  assumes ops: "sliceOps lessf swapf view lt ok"
  shows "ok d \<Longrightarrow> a < i \<Longrightarrow> i \<le> Suc j \<Longrightarrow> j < z \<Longrightarrow> z \<le> length (view d) \<Longrightarrow>
     (\<forall>k. a < k \<and> k < i \<longrightarrow> \<not> lt (view d ! a) (view d ! k)) \<Longrightarrow>
     (\<forall>k. j < k \<and> k < z \<longrightarrow> lt (view d ! a) (view d ! k)) \<Longrightarrow>
     \<exists>d' m. partitionEqualLoop lessf swapf a i j d = Some (d', m) \<and> ok d' \<and>
        segPerm (Suc a) z (view d) (view d') \<and> a < m \<and> m \<le> z \<and>
        (\<forall>k. a < k \<and> k < m \<longrightarrow> \<not> lt (view d' ! a) (view d' ! k)) \<and>
        (\<forall>k. m \<le> k \<and> k < z \<longrightarrow> lt (view d' ! a) (view d' ! k))"
proof (induction "Suc j - i" arbitrary: i j d rule: less_induct)
  case less
  let ?xs = "view d"
  note ok = less.prems(1) and ai = less.prems(2) and ij = less.prems(3) and jz = less.prems(4)
    and zl = less.prems(5) and low = less.prems(6) and high = less.prems(7)
  have al: "a < length ?xs" and jl: "j < length ?xs" using ai ij jz zl by arith+
  obtain i' where i': "scanUpEq lessf d a i j = Some i'" "i \<le> i'" "i' \<le> max i (Suc j)"
      "\<forall>k. i \<le> k \<and> k < i' \<longrightarrow> \<not> lt (?xs ! a) (?xs ! k)"
      "i' \<le> j \<longrightarrow> lt (?xs ! a) (?xs ! i')"
    using scanUpEq_spec [OF ops ok al jl, of i] by blast
  have i0: "0 < i'" using ai i'(2) by arith
  obtain j' where j': "scanDownEq lessf d a i' j = Some j'" "j' \<le> j"
      "i' \<le> Suc j \<longrightarrow> i' \<le> Suc j'"
      "\<forall>k. j' < k \<and> k \<le> j \<longrightarrow> lt (?xs ! a) (?xs ! k)"
      "i' \<le> j' \<longrightarrow> \<not> lt (?xs ! a) (?xs ! j')"
    using scanDownEq_spec [OF ops ok al i0 jl] by blast
  have i'j: "i' \<le> Suc j" using i'(3) ij by arith
  then have i'j': "i' \<le> Suc j'" using j'(3) by simp
  have lowS: "\<not> lt (?xs ! a) (?xs ! k)" if "a < k" "k < i'" for k
  proof (cases "k < i")
    case True
    then show ?thesis using low that by simp
  next
    case False
    then show ?thesis using i'(4) that by simp
  qed
  have highS: "lt (?xs ! a) (?xs ! k)" if "j' < k" "k < z" for k
  proof (cases "k \<le> j")
    case True
    then show ?thesis using j'(4) that by simp
  next
    case False
    then show ?thesis using high that by simp
  qed
  show ?case
  proof (cases "i' > j'")
    case True
    then have e: "i' = Suc j'" using i'j' by arith
    have r: "partitionEqualLoop lessf swapf a i j d = Some (d, i')"
      using i'(1) j'(1) True by (subst partitionEqualLoop.simps) simp
    have "a < i'" "i' \<le> z" using e ai i'(2) j'(2) jz by arith+
    moreover have "\<forall>k. a < k \<and> k < i' \<longrightarrow> \<not> lt (?xs ! a) (?xs ! k)"
      using lowS by simp
    moreover have "\<forall>k. i' \<le> k \<and> k < z \<longrightarrow> lt (?xs ! a) (?xs ! k)"
      using highS e by simp
    ultimately show ?thesis using r ok segPerm_refl [of "Suc a" z ?xs] by blast
  next
    case False
    then have le: "i' \<le> j'" by simp
    have hi': "lt (?xs ! a) (?xs ! i')" using i'(5) le j'(2) by simp
    have hj': "\<not> lt (?xs ! a) (?xs ! j')" using j'(5) le by simp
    have "i' \<noteq> j'" using hi' hj' by auto
    then have lt': "i' < j'" using le by arith
    have il': "i' < length ?xs" and jl': "j' < length ?xs" using lt' j'(2) jl by arith+
    obtain d1 where d1: "swapf d i' j' = Some d1" "ok d1"
        "view d1 = ?xs[i' := ?xs ! j', j' := ?xs ! i']"
      using sliceOps_swap [OF ops ok il' jl'] by blast
    let ?ys = "view d1"
    have n: "?ys ! k = (if k = j' then ?xs ! i' else if k = i' then ?xs ! j' else ?xs ! k)"
      if "k < length ?xs" for k
      unfolding d1(3) using nth_swap2 [OF il' jl' that] .
    have ya: "?ys ! a = ?xs ! a" using n [OF al] ai i'(2) lt' by simp
    have m: "Suc (j' - 1) - (i' + 1) < Suc j - i" using lt' j'(2) i'(2) by arith
    have p: "a < i' + 1" "i' + 1 \<le> Suc (j' - 1)" "j' - 1 < z" "z \<le> length ?ys"
      using ai i'(2) lt' j'(2) jz zl d1(3) by simp_all
    have low1: "\<forall>k. a < k \<and> k < i' + 1 \<longrightarrow> \<not> lt (?ys ! a) (?ys ! k)"
    proof (intro allI impI)
      fix k
      assume k: "a < k \<and> k < i' + 1"
      then have kl: "k < length ?xs" using il' by arith
      show "\<not> lt (?ys ! a) (?ys ! k)"
      proof (cases "k = i'")
        case True
        then show ?thesis using n [OF kl] ya hj' lt' by simp
      next
        case False
        then have "k < i'" using k by arith
        then show ?thesis using n [OF kl] ya lowS [of k] k lt' by simp
      qed
    qed
    have high1: "\<forall>k. j' - 1 < k \<and> k < z \<longrightarrow> lt (?ys ! a) (?ys ! k)"
    proof (intro allI impI)
      fix k
      assume k: "j' - 1 < k \<and> k < z"
      then have kl: "k < length ?xs" using zl by arith
      show "lt (?ys ! a) (?ys ! k)"
      proof (cases "k = j'")
        case True
        then show ?thesis using n [OF kl] ya hi' by simp
      next
        case False
        then have "j' < k" using k by arith
        then show ?thesis using n [OF kl] ya highS [of k] k lt' by simp
      qed
    qed
    obtain d' m where d': "partitionEqualLoop lessf swapf a (i' + 1) (j' - 1) d1 = Some (d', m)"
        "ok d'" "segPerm (Suc a) z ?ys (view d')" "a < m" "m \<le> z"
        "\<forall>k. a < k \<and> k < m \<longrightarrow> \<not> lt (view d' ! a) (view d' ! k)"
        "\<forall>k. m \<le> k \<and> k < z \<longrightarrow> lt (view d' ! a) (view d' ! k)"
      using less.hyps [OF m d1(2) p low1 high1] by blast
    have "segPerm (Suc a) z ?xs ?ys"
      unfolding d1(3) using segPerm_swap [of "Suc a" i' z j' ?xs] ai i'(2) lt' j'(2) jz zl by simp
    then have sp: "segPerm (Suc a) z ?xs (view d')" using d'(3) by (rule segPerm_trans)
    have r: "partitionEqualLoop lessf swapf a i j d = Some (d', m)"
      using i'(1) j'(1) False d1(1) d'(1) by (subst partitionEqualLoop.simps) simp
    show ?thesis using r d'(2) sp d'(4,5,6,7) by blast
  qed
qed

lemma partitionEqual_spec:
  assumes ops: "sliceOps lessf swapf view lt ok" and ag: "agrees lt key"
    and ok: "ok d" and r: "a \<le> pivot" "pivot < z" "z \<le> length (view d)"
  shows "\<exists>d' m. partitionEqual lessf swapf d a z pivot = Some (d', m) \<and> ok d' \<and>
           segPerm a z (view d) (view d') \<and> a < m \<and> m \<le> z \<and>
           (\<forall>k. a \<le> k \<and> k < m \<longrightarrow> key (view d' ! k) \<le> key (view d ! pivot)) \<and>
           (\<forall>k. m \<le> k \<and> k < z \<longrightarrow> key (view d ! pivot) \<le> key (view d' ! k))"
proof -
  let ?xs = "view d"
  have al: "a < length ?xs" and pl: "pivot < length ?xs" using r by arith+
  obtain d1 where d1: "swapf d a pivot = Some d1" "ok d1"
      "view d1 = ?xs[a := ?xs ! pivot, pivot := ?xs ! a]"
    using sliceOps_swap [OF ops ok al pl] by blast
  have s1: "segPerm a z ?xs (view d1)"
    unfolding d1(3) using segPerm_swap [of a a z pivot ?xs] r by simp
  have l1: "length (view d1) = length ?xs" using d1(3) by simp
  have a1: "view d1 ! a = ?xs ! pivot"
    unfolding d1(3) using nth_swap2 [OF al pl al] by simp
  have p: "a < a + 1" "a + 1 \<le> Suc (z - 1)" "z - 1 < z" "z \<le> length (view d1)"
    using r l1 by simp_all
  obtain d3 m where d3: "partitionEqualLoop lessf swapf a (a + 1) (z - 1) d1 = Some (d3, m)" "ok d3"
      "segPerm (Suc a) z (view d1) (view d3)" "a < m" "m \<le> z"
      "\<forall>k. a < k \<and> k < m \<longrightarrow> \<not> lt (view d3 ! a) (view d3 ! k)"
      "\<forall>k. m \<le> k \<and> k < z \<longrightarrow> lt (view d3 ! a) (view d3 ! k)"
  proof -
    have low0: "\<forall>k. a < k \<and> k < a + 1 \<longrightarrow> \<not> lt (view d1 ! a) (view d1 ! k)" by auto
    have high0: "\<forall>k. z - 1 < k \<and> k < z \<longrightarrow> lt (view d1 ! a) (view d1 ! k)" by auto
    show ?thesis using partitionEqualLoop_spec [OF ops d1(2) p low0 high0] that by blast
  qed
  let ?ys = "view d3"
  have a3: "?ys ! a = ?xs ! pivot"
    using segPerm_nth [OF d3(3), of a] al l1 a1 by simp
  have res: "partitionEqual lessf swapf d a z pivot = Some (d3, m)"
    using d1(1) d3(1) by (simp add: partitionEqual_def)
  have "segPerm a z (view d1) ?ys" using segPerm_mono [OF d3(3), of a z] by simp
  then have s3: "segPerm a z ?xs ?ys" using s1 segPerm_trans by blast
  have low: "\<forall>k. a \<le> k \<and> k < m \<longrightarrow> key (?ys ! k) \<le> key (?xs ! pivot)"
  proof (intro allI impI)
    fix k
    assume k: "a \<le> k \<and> k < m"
    show "key (?ys ! k) \<le> key (?xs ! pivot)"
    proof (cases "k = a")
      case True
      then show ?thesis using a3 by simp
    next
      case False
      then have "\<not> lt (?ys ! a) (?ys ! k)" using d3(6) k by simp
      then show ?thesis using a3 agrees_not_lt [OF ag] by simp
    qed
  qed
  have high: "\<forall>k. m \<le> k \<and> k < z \<longrightarrow> key (?xs ! pivot) \<le> key (?ys ! k)"
  proof (intro allI impI)
    fix k
    assume k: "m \<le> k \<and> k < z"
    then have "lt (?ys ! a) (?ys ! k)" using d3(7) by simp
    then show "key (?xs ! pivot) \<le> key (?ys ! k)" using a3 agrees_lt [OF ag] by simp
  qed
  show ?thesis using res d3(2) s3 d3(4,5) low high by blast
qed

subsection \<open>Reversal, pattern breaking, choice of the pivot\<close>

lemma reverseLoop_spec:
  assumes ops: "sliceOps lessf swapf view lt ok"
  shows "ok d \<Longrightarrow> a \<le> i \<Longrightarrow> j < z \<Longrightarrow> z \<le> length (view d) \<Longrightarrow>
         \<exists>d'. reverseLoop swapf i j d = Some d' \<and> ok d' \<and> segPerm a z (view d) (view d')"
proof (induction "j - i" arbitrary: i j d rule: less_induct)
  case less
  show ?case
  proof (cases "i < j")
    case False
    then show ?thesis using less.prems(1) by (subst reverseLoop.simps) (simp add: segPerm_refl)
  next
    case True
    have il: "i < length (view d)" and jl: "j < length (view d)"
      using True less.prems by arith+
    obtain d1 where d1: "swapf d i j = Some d1" "ok d1"
        "view d1 = (view d)[i := view d ! j, j := view d ! i]"
      using sliceOps_swap [OF ops less.prems(1) il jl] by blast
    have s1: "segPerm a z (view d) (view d1)"
      unfolding d1(3) using segPerm_swap [of a i z j "view d"] True less.prems by simp
    have m: "j - 1 - (i + 1) < j - i" using True by arith
    have p: "a \<le> i + 1" "j - 1 < z" "z \<le> length (view d1)"
      using less.prems d1(3) by simp_all
    obtain d' where d': "reverseLoop swapf (i + 1) (j - 1) d1 = Some d'" "ok d'"
        "segPerm a z (view d1) (view d')"
      using less.hyps [OF m d1(2) p] by blast
    have "segPerm a z (view d) (view d')" using s1 d'(3) by (rule segPerm_trans)
    then show ?thesis using True d1(1) d' by (subst reverseLoop.simps) simp
  qed
qed

lemma reverseRange_spec:
  assumes ops: "sliceOps lessf swapf view lt ok" and ok: "ok d" and r: "z \<le> length (view d)"
  shows "\<exists>d'. reverseRange swapf d a z = Some d' \<and> ok d' \<and> segPerm a z (view d) (view d')"
proof (cases "z = 0")
  case True
  then show ?thesis using ok by (simp add: reverseRange_def segPerm_refl)
next
  case False
  then have "z - 1 < z" by simp
  then show ?thesis
    using reverseLoop_spec [OF ops ok order_refl _ r, of "z - 1" a] False
    by (simp add: reverseRange_def)
qed

lemma bitsLen_bound: "0 < n \<Longrightarrow> 2 ^ bitsLen n \<le> 2 * n"
proof (induction n rule: bitsLen.induct)
  case (1 n)
  show ?case
  proof (cases "n div 2 = 0")
    case True
    then have "n = 1" using 1(2) by arith
    then show ?thesis by (simp add: bitsLen.simps [of "Suc 0"] bitsLen.simps [of 0])
  next
    case False
    then have "2 ^ bitsLen (n div 2) \<le> 2 * (n div 2)" using 1 by simp
    then have "2 ^ bitsLen n \<le> 2 * (2 * (n div 2))"
      using 1(2) by (subst bitsLen.simps) simp
    then show ?thesis by arith
  qed
qed

lemma masked_bound: "unat ((r :: 64 word) AND (of_nat (2 ^ k) - 1)) < 2 ^ k"
proof -
  have "(of_nat (2 ^ k) - 1 :: 64 word) = mask k"
    by (simp add: mask_eq_exp_minus_1)
  then have "r AND (of_nat (2 ^ k) - 1) = take_bit k r"
    by (simp add: take_bit_eq_mask)
  then show ?thesis
    by (simp add: unsigned_take_bit_eq)
qed

lemma wrap_bound: "(n :: nat) < 2 * len \<Longrightarrow> (if n \<ge> len then n - len else n) < len"
  by auto

lemma breakPatternsLoop_spec:
  assumes ops: "sliceOps lessf swapf view lt ok"
  shows "ok d \<Longrightarrow> a + len \<le> length (view d) \<Longrightarrow> 0 < len \<Longrightarrow> 2 ^ k \<le> 2 * len \<Longrightarrow>
         (\<forall>i \<in> set is. a \<le> idx - 1 + i \<and> idx - 1 + i < a + len) \<Longrightarrow>
         \<exists>d'. breakPatternsLoop swapf a len (2 ^ k) idx is random d = Some d' \<and> ok d' \<and>
              segPerm a (a + len) (view d) (view d')"
proof (induction "is" arbitrary: random d)
  case Nil
  then show ?case by (simp add: segPerm_refl)
next
  case (Cons i "is")
  let ?r = "xorshiftNext random"
  let ?o = "unat (?r AND (of_nat (2 ^ k) - 1))"
  let ?o' = "if ?o \<ge> len then ?o - len else ?o"
  have "?o < 2 * len" using masked_bound [of ?r k] Cons.prems(4) by arith
  then have o: "?o' < len" by (rule wrap_bound)
  have il: "idx - 1 + i < length (view d)" and ol: "a + ?o' < length (view d)"
    using Cons.prems o by auto
  obtain d1 where d1: "swapf d (idx - 1 + i) (a + ?o') = Some d1" "ok d1"
      "view d1 = (view d)[idx - 1 + i := view d ! (a + ?o'), a + ?o' := view d ! (idx - 1 + i)]"
    using sliceOps_swap [OF ops Cons.prems(1) il ol] by blast
  have s1: "segPerm a (a + len) (view d) (view d1)"
    unfolding d1(3)
    using segPerm_swap [of a "idx - 1 + i" "a + len" "a + ?o'" "view d"] Cons.prems o by simp
  have p: "a + len \<le> length (view d1)" "\<forall>i \<in> set is. a \<le> idx - 1 + i \<and> idx - 1 + i < a + len"
    using Cons.prems d1(3) by simp_all
  obtain d' where d': "breakPatternsLoop swapf a len (2 ^ k) idx is ?r d1 = Some d'" "ok d'"
      "segPerm a (a + len) (view d1) (view d')"
    using Cons.IH [OF d1(2) p(1) Cons.prems(3,4) p(2)] by blast
  have s: "segPerm a (a + len) (view d) (view d')" using s1 d'(3) by (rule segPerm_trans)
  have "breakPatternsLoop swapf a len (2 ^ k) idx (i # is) random d =
        breakPatternsLoop swapf a len (2 ^ k) idx is ?r d1"
    unfolding breakPatternsLoop.simps Let_def d1(1) by simp
  then show ?case using d'(1,2) s by simp
qed

lemma breakPatterns_spec:
  assumes ops: "sliceOps lessf swapf view lt ok" and ok: "ok d"
    and r: "a \<le> z" "z \<le> length (view d)"
  shows "\<exists>d'. breakPatterns swapf d a z = Some d' \<and> ok d' \<and> segPerm a z (view d) (view d')"
proof (cases "z - a \<ge> 8")
  case False
  then show ?thesis using ok by (simp add: breakPatterns_def segPerm_refl)
next
  case True
  let ?len = "z - a"
  let ?idx = "a + (?len div 4) * 2 - 1"
  have q: "2 \<le> ?len div 4" using True by arith
  have p: "a + ?len \<le> length (view d)" "0 < ?len" "2 ^ bitsLen ?len \<le> 2 * ?len"
    using r True bitsLen_bound [of ?len] by simp_all
  have i: "\<forall>i \<in> set [0, 1, 2]. a \<le> ?idx - 1 + i \<and> ?idx - 1 + i < a + ?len"
    using q True by auto
  obtain d' where "breakPatternsLoop swapf a ?len (2 ^ bitsLen ?len) ?idx [0, 1, 2] (of_nat ?len) d
        = Some d'" "ok d'" "segPerm a (a + ?len) (view d) (view d')"
    using breakPatternsLoop_spec [OF ops ok p i] by blast
  then show ?thesis using True r by (simp add: breakPatterns_def nextPowerOfTwo_def Let_def)
qed

lemma order2_spec:
  assumes ops: "sliceOps lessf swapf view lt ok" and ok: "ok d"
    and r: "x < length (view d)" "y < length (view d)"
  shows "\<exists>x' y' s'. order2 lessf d x y s = Some (x', y', s') \<and>
           ((x' = x \<and> y' = y) \<or> (x' = y \<and> y' = x))"
  using sliceOps_less [OF ops ok r(2) r(1)]
  by (cases "lt (view d ! y) (view d ! x)") (simp_all add: order2_def)

lemma median_spec:
  assumes ops: "sliceOps lessf swapf view lt ok" and ok: "ok d"
    and r: "x < length (view d)" "y < length (view d)" "w < length (view d)"
  shows "\<exists>m s'. median lessf d x y w s = Some (m, s') \<and> (m = x \<or> m = y \<or> m = w)"
proof -
  obtain x1 y1 s1 where o1: "order2 lessf d x y s = Some (x1, y1, s1)"
      "(x1 = x \<and> y1 = y) \<or> (x1 = y \<and> y1 = x)"
    using order2_spec [OF ops ok r(1) r(2)] by blast
  then have l1: "x1 < length (view d)" "y1 < length (view d)" using r by auto
  obtain y2 z2 s2 where o2: "order2 lessf d y1 w s1 = Some (y2, z2, s2)"
      "(y2 = y1 \<and> z2 = w) \<or> (y2 = w \<and> z2 = y1)"
    using order2_spec [OF ops ok l1(2) r(3)] by blast
  then have l2: "y2 < length (view d)" using r l1 by auto
  obtain x3 y3 s3 where o3: "order2 lessf d x1 y2 s2 = Some (x3, y3, s3)"
      "(x3 = x1 \<and> y3 = y2) \<or> (x3 = y2 \<and> y3 = x1)"
    using order2_spec [OF ops ok l1(1) l2] by blast
  have "median lessf d x y w s = Some (y3, s3)"
    using o1(1) o2(1) o3(1) by (simp add: median_def)
  moreover have "y3 = x \<or> y3 = y \<or> y3 = w" using o1(2) o2(2) o3(2) by auto
  ultimately show ?thesis by blast
qed

lemma medianAdjacent_spec:
  assumes ops: "sliceOps lessf swapf view lt ok" and ok: "ok d"
    and r: "0 < x" "x + 1 < length (view d)"
  shows "\<exists>m s'. medianAdjacent lessf d x s = Some (m, s') \<and> x - 1 \<le> m \<and> m \<le> x + 1"
proof -
  have l: "x - 1 < length (view d)" "x < length (view d)" using r by arith+
  obtain m s' where m: "median lessf d (x - 1) x (x + 1) s = Some (m, s')"
      "m = x - 1 \<or> m = x \<or> m = x + 1"
    using median_spec [OF ops ok l r(2)] by blast
  have "x - 1 \<le> m \<and> m \<le> x + 1" using m(2) by arith
  then show ?thesis using m(1) r by (simp add: medianAdjacent_def)
qed

lemma choosePivot_spec:
  assumes ops: "sliceOps lessf swapf view lt ok" and ok: "ok d"
    and r: "12 < z - a" "z \<le> length (view d)"
  shows "\<exists>p h. choosePivot lessf d a z = Some (p, h) \<and> a \<le> p \<and> p < z"
proof -
  define l where "l = z - a"
  define q where "q = l div 4"
  define i where "i = a + q * 1"
  define j where "j = a + q * 2"
  define k where "k = a + q * 3"
  have q: "3 \<le> q" "q * 3 + 1 < l" using r by (simp_all add: q_def l_def)
  have z: "z = a + l" using r by (simp add: l_def)
  have bnd: "0 < i" "i + 1 < z" "0 < j" "j + 1 < z" "0 < k" "k + 1 < z"
    using q by (simp_all add: i_def j_def k_def z)
  define three where "three = (if l \<ge> 50 then
       (case medianAdjacent lessf d i 0 of
          None \<Rightarrow> None
        | Some (i', s1) \<Rightarrow>
            (case medianAdjacent lessf d j s1 of
               None \<Rightarrow> None
             | Some (j', s2) \<Rightarrow>
                 (case medianAdjacent lessf d k s2 of
                    None \<Rightarrow> None
                  | Some (k', s3) \<Rightarrow> Some (i', j', k', s3))))
     else Some (i, j, k, 0))"
  have "\<exists>i' j' k' s. three = Some (i', j', k', s) \<and>
          a \<le> i' \<and> i' < z \<and> a \<le> j' \<and> j' < z \<and> a \<le> k' \<and> k' < z"
  proof (cases "l \<ge> 50")
    case False
    have "a \<le> i" "i < z" "a \<le> j" "j < z" "a \<le> k" "k < z"
      using q by (simp_all add: i_def j_def k_def z)
    then show ?thesis using False by (simp add: three_def)
  next
    case True
    have bl: "i + 1 < length (view d)" "j + 1 < length (view d)" "k + 1 < length (view d)"
      using bnd r(2) by simp_all
    obtain i' s1 where i': "medianAdjacent lessf d i 0 = Some (i', s1)" "i - 1 \<le> i'" "i' \<le> i + 1"
      using medianAdjacent_spec [OF ops ok bnd(1) bl(1)] by blast
    obtain j' s2 where j': "medianAdjacent lessf d j s1 = Some (j', s2)" "j - 1 \<le> j'" "j' \<le> j + 1"
      using medianAdjacent_spec [OF ops ok bnd(3) bl(2)] by blast
    obtain k' s3 where k': "medianAdjacent lessf d k s2 = Some (k', s3)" "k - 1 \<le> k'" "k' \<le> k + 1"
      using medianAdjacent_spec [OF ops ok bnd(5) bl(3)] by blast
    have "a \<le> i - 1" "a \<le> j - 1" "a \<le> k - 1"
      using q by (simp_all add: i_def j_def k_def)
    then have "a \<le> i'" "i' < z" "a \<le> j'" "j' < z" "a \<le> k'" "k' < z"
      using i'(2,3) j'(2,3) k'(2,3) bnd by simp_all
    then show ?thesis using True i'(1) j'(1) k'(1) by (simp add: three_def)
  qed
  then obtain i' j' k' s where t: "three = Some (i', j', k', s)"
      and tb: "a \<le> i'" "i' < z" "a \<le> j'" "j' < z" "a \<le> k'" "k' < z"
    by blast
  have tl: "i' < length (view d)" "j' < length (view d)" "k' < length (view d)"
    using tb r(2) by simp_all
  obtain m s' where m: "median lessf d i' j' k' s = Some (m, s')" "m = i' \<or> m = j' \<or> m = k'"
    using median_spec [OF ops ok tl] by blast
  have mb: "a \<le> m \<and> m < z" using m(2) tb by auto
  have l8: "l \<ge> 8" using r by (simp add: l_def)
  have "choosePivot lessf d a z =
     (case (if l \<ge> 8 then
              (case three of
                 None \<Rightarrow> None
               | Some (i', j', k', s) \<Rightarrow> median lessf d i' j' k' s)
            else Some (j, 0)) of
        None \<Rightarrow> None
      | Some (j', swaps) \<Rightarrow>
          Some (j', if swaps = 0 then increasingHint
                    else if swaps = 12 then decreasingHint else unknownHint))"
    unfolding choosePivot_def Let_def three_def i_def j_def k_def q_def l_def ..
  then show ?thesis using l8 t m(1) mb by simp
qed

subsection \<open>Partial insertion sort\<close>

lemma scanSorted_spec:
  assumes ops: "sliceOps lessf swapf view lt ok" and d: "ok d"
    and r: "0 < i" "z \<le> length (view d)"
  shows "\<exists>i'. scanSorted lessf d z i = Some i' \<and> i \<le> i' \<and> i' \<le> max i z \<and>
           (\<forall>k. i \<le> k \<and> k < i' \<longrightarrow> \<not> lt (view d ! k) (view d ! (k - 1))) \<and>
           (i' < z \<longrightarrow> lt (view d ! i') (view d ! (i' - 1)))"
  using r(1)
proof (induction "z - i" arbitrary: i)
  case 0
  then have "\<not> i < z" by arith
  then show ?case by (subst scanSorted.simps) auto
next
  case (Suc n)
  let ?xs = "view d"
  have iz: "i < z" using Suc.hyps(2) by arith
  then have il: "i < length ?xs" "i - 1 < length ?xs" using r by arith+
  have l: "lessf d i (i - 1) = Some (lt (?xs ! i) (?xs ! (i - 1)))"
    using sliceOps_less [OF ops d il] .
  show ?case
  proof (cases "lt (?xs ! i) (?xs ! (i - 1))")
    case True
    then show ?thesis using l iz by (subst scanSorted.simps) auto
  next
    case False
    have n: "n = z - (i + 1)" "0 < i + 1" using Suc.hyps(2) by arith+
    obtain i' where i': "scanSorted lessf d z (i + 1) = Some i'" "i + 1 \<le> i'"
        "i' \<le> max (i + 1) z"
        "\<forall>k. i + 1 \<le> k \<and> k < i' \<longrightarrow> \<not> lt (?xs ! k) (?xs ! (k - 1))"
        "i' < z \<longrightarrow> lt (?xs ! i') (?xs ! (i' - 1))"
      using Suc.hyps(1) [OF n] by blast
    have "\<forall>k. i \<le> k \<and> k < i' \<longrightarrow> \<not> lt (?xs ! k) (?xs ! (k - 1))"
    proof (intro allI impI)
      fix k
      assume k: "i \<le> k \<and> k < i'"
      show "\<not> lt (?xs ! k) (?xs ! (k - 1))"
      proof (cases "k = i")
        case True
        then show ?thesis using False by simp
      next
        case ne: False
        then have "i + 1 \<le> k" using k by arith
        then show ?thesis using i'(4) k by simp
      qed
    qed
    moreover have "scanSorted lessf d z i = Some i'"
      using l False iz i'(1) by (subst scanSorted.simps) simp
    moreover have "i \<le> i'" "i' \<le> max i z" using i'(2,3) iz by arith+
    ultimately show ?thesis using i'(5) by blast
  qed
qed

lemma sortedSeg_extend:
  assumes s: "sortedSeg key a i xs"
    and e: "\<forall>k. i \<le> k \<and> k < i' \<longrightarrow> key (xs ! (k - 1)) \<le> key (xs ! k)"
  shows "sortedSeg key a i' xs"
  unfolding sortedSeg_def
proof (intro allI impI)
  fix p q
  assume pq: "a \<le> p \<and> p \<le> q \<and> q < i'"
  have "p \<le> q \<Longrightarrow> q < i' \<Longrightarrow> key (xs ! p) \<le> key (xs ! q)"
  proof (induction q)
    case 0
    then show ?case by simp
  next
    case (Suc q)
    show ?case
    proof (cases "p = Suc q")
      case True
      then show ?thesis by simp
    next
      case False
      then have pq': "p \<le> q" "q < i'" using Suc.prems by arith+
      show ?thesis
      proof (cases "Suc q < i")
        case True
        then show ?thesis using sortedSegD [OF s, of p "Suc q"] pq Suc.prems by simp
      next
        case False
        then have "key (xs ! (Suc q - 1)) \<le> key (xs ! Suc q)"
          using e [rule_format, of "Suc q"] Suc.prems by simp
        then show ?thesis using Suc.IH [OF pq'] by simp
      qed
    qed
  qed
  then show "key (xs ! p) \<le> key (xs ! q)" using pq by simp
qed

lemma sortedSeg_cong:
  assumes "\<forall>k. a \<le> k \<and> k < z \<longrightarrow> key (ys ! k) = key (xs ! k)" and "sortedSeg key a z xs"
  shows "sortedSeg key a z ys"
  using assms by (simp add: sortedSeg_def)

lemma sortedSeg_mono: "sortedSeg key a z xs \<Longrightarrow> a \<le> a' \<Longrightarrow> z' \<le> z \<Longrightarrow> sortedSeg key a' z' xs"
  by (simp add: sortedSeg_def)

lemma map_key_swap:
  assumes "i < length xs" "j < length xs" "key (xs ! i) = key (xs ! j)"
  shows "map key (xs[i := xs ! j, j := xs ! i]) = map key xs"
proof (rule nth_equalityI)
  show "length (map key (xs[i := xs ! j, j := xs ! i])) = length (map key xs)" by simp
next
  fix k
  assume "k < length (map key (xs[i := xs ! j, j := xs ! i]))"
  then have k: "k < length xs" by simp
  show "map key (xs[i := xs ! j, j := xs ! i]) ! k = map key xs ! k"
    using nth_swap2 [OF assms(1,2) k] k assms(3) by simp
qed

lemma isolatedD:
  "isolated key a z xs \<Longrightarrow> i < a \<Longrightarrow> a \<le> j \<Longrightarrow> j < z \<Longrightarrow> key (xs ! i) \<le> key (xs ! j)"
  by (simp add: isolated_def)

lemma shiftSmaller_leak:
  assumes ops: "sliceOps lessf swapf view lt ok" and ag: "agrees lt key"
  shows "ok d \<Longrightarrow> j < length (view d) \<Longrightarrow> (\<forall>p < j. key (view d ! p) \<le> key (view d ! j)) \<Longrightarrow>
         \<exists>d'. shiftSmaller lessf swapf j d = Some d' \<and> ok d' \<and>
              mset (view d') = mset (view d) \<and> map key (view d') = map key (view d)"
proof (induction j arbitrary: d)
  case 0
  then show ?case by (subst shiftSmaller.simps) simp
next
  case (Suc j)
  let ?xs = "view d"
  have jl: "j < length ?xs" using Suc.prems by arith
  have l: "lessf d (Suc j) j = Some (lt (?xs ! Suc j) (?xs ! j))"
    using sliceOps_less [OF ops Suc.prems(1) Suc.prems(2) jl] .
  show ?case
  proof (cases "lt (?xs ! Suc j) (?xs ! j)")
    case False
    then show ?thesis using l Suc.prems(1) by (subst shiftSmaller.simps) simp
  next
    case True
    have "key (?xs ! j) \<le> key (?xs ! Suc j)" using Suc.prems(3) by simp
    then have e: "key (?xs ! Suc j) = key (?xs ! j)" using agrees_lt [OF ag True] by simp
    obtain d1 where d1: "swapf d (Suc j) j = Some d1" "ok d1"
        "view d1 = ?xs[Suc j := ?xs ! j, j := ?xs ! Suc j]"
      using sliceOps_swap [OF ops Suc.prems(1) Suc.prems(2) jl] by blast
    have k1: "map key (view d1) = map key ?xs"
      unfolding d1(3) using map_key_swap [OF Suc.prems(2) jl e] .
    have m1: "mset (view d1) = mset ?xs"
      unfolding d1(3) using mset_swap2 [OF Suc.prems(2) jl] .
    have l1: "length (view d1) = length ?xs" using d1(3) by simp
    have n: "view d1 ! k = (if k = j then ?xs ! Suc j else if k = Suc j then ?xs ! j else ?xs ! k)"
      if "k < length ?xs" for k
      unfolding d1(3) using nth_swap2 [OF Suc.prems(2) jl that] .
    have dom: "\<forall>p < j. key (view d1 ! p) \<le> key (view d1 ! j)"
    proof (intro allI impI)
      fix p
      assume p: "p < j"
      then have pl: "p < length ?xs" using jl by arith
      have "key (?xs ! p) \<le> key (?xs ! Suc j)" using Suc.prems(3) p by simp
      then show "key (view d1 ! p) \<le> key (view d1 ! j)" using n [OF pl] n [OF jl] p by simp
    qed
    have jl1: "j < length (view d1)" using jl l1 by simp
    obtain d' where d': "shiftSmaller lessf swapf j d1 = Some d'" "ok d'"
        "mset (view d') = mset (view d1)" "map key (view d') = map key (view d1)"
      using Suc.IH [OF d1(2) jl1 dom] by blast
    show ?thesis
      using l True d1(1) d' k1 m1 by (subst shiftSmaller.simps) simp
  qed
qed

lemma keyPerm_same_keys: "mset ys = mset xs \<Longrightarrow> map key ys = map key xs \<Longrightarrow> keyPerm key a z xs ys"
  by (simp add: keyPerm_def segPerm_refl)

lemma same_keys_nth: "map key ys = map key xs \<Longrightarrow> k < length xs \<Longrightarrow> key (ys ! k) = key (xs ! k)"
  by (metis length_map nth_map)

lemma shiftSmaller_spec:
  assumes ops: "sliceOps lessf swapf view lt ok" and ag: "agrees lt key"
  shows "ok d \<Longrightarrow> a \<le> j \<Longrightarrow> j \<le> i \<Longrightarrow> i < z \<Longrightarrow> z \<le> length (view d) \<Longrightarrow>
         sortedBut key a j i (view d) \<Longrightarrow> isolated key a z (view d) \<Longrightarrow>
         \<exists>d'. shiftSmaller lessf swapf j d = Some d' \<and> ok d' \<and>
              keyPerm key a (Suc i) (view d) (view d') \<and> sortedSeg key a (Suc i) (view d')"
proof (induction "j - a" arbitrary: j d)
  case 0
  let ?xs = "view d"
  have ja: "j = a" using 0 by simp
  have jl: "j < length ?xs" using 0 by arith
  have az: "a < z" using 0(4,5) ja by arith
  have dom: "\<forall>p < j. key (?xs ! p) \<le> key (?xs ! j)"
    using isolatedD [OF 0(8) _ order_refl az] ja by simp
  obtain d' where d': "shiftSmaller lessf swapf j d = Some d'" "ok d'"
      "mset (view d') = mset ?xs" "map key (view d') = map key ?xs"
    using shiftSmaller_leak [OF ops ag 0(2) jl dom] by blast
  have s: "sortedSeg key a (Suc i) ?xs"
    using sortedBut_done [OF 0(7)] ja 0(4) by simp
  have "\<forall>k. a \<le> k \<and> k < Suc i \<longrightarrow> key (view d' ! k) = key (?xs ! k)"
    using same_keys_nth [OF d'(4)] 0(5,6) by simp
  then have "sortedSeg key a (Suc i) (view d')" using s by (rule sortedSeg_cong)
  then show ?case using d' keyPerm_same_keys [OF d'(3,4)] by blast
next
  case (Suc n)
  let ?xs = "view d"
  note ok = Suc.prems(1) and aj = Suc.prems(2) and ji = Suc.prems(3) and iz = Suc.prems(4)
    and zl = Suc.prems(5) and sb = Suc.prems(6) and iso = Suc.prems(7)
  have a: "a < j" using Suc.hyps(2) by arith
  have jl: "j < length ?xs" "j - 1 < length ?xs" using ji iz zl by arith+
  have l: "lessf d j (j - 1) = Some (lt (?xs ! j) (?xs ! (j - 1)))"
    using sliceOps_less [OF ops ok jl] .
  show ?case
  proof (cases "lt (?xs ! j) (?xs ! (j - 1))")
    case False
    have "sortedSeg key a (Suc i) ?xs"
      using sortedBut_done [OF sb _ aj ji] agrees_not_lt [OF ag False] by simp
    then show ?thesis
      using l False a ok by (subst shiftSmaller.simps) (simp add: keyPerm_refl)
  next
    case True
    obtain d1 where d1: "swapf d j (j - 1) = Some d1" "ok d1"
        "view d1 = ?xs[j := ?xs ! (j - 1), j - 1 := ?xs ! j]"
      using sliceOps_swap [OF ops ok jl] by blast
    have il: "i < length ?xs" using iz zl by arith
    have s1: "sortedBut key a (j - 1) i (view d1)"
      unfolding d1(3) using sortedBut_step [OF sb agrees_lt [OF ag True] a ji il] .
    have p1: "segPerm a (Suc i) ?xs (view d1)"
      unfolding d1(3) using segPerm_swap [of a j "Suc i" "j - 1" ?xs] a ji il by simp
    have "keyPerm key a z ?xs (view d1)"
      using keyPerm_mono [OF segPerm_keyPerm [OF p1], of a z] iz by simp
    then have iso1: "isolated key a z (view d1)" using iso zl by (rule isolated_keyPerm)
    have k: "n = j - 1 - a" "a \<le> j - 1" "j - 1 \<le> i" "z \<le> length (view d1)"
      using Suc.hyps(2) ji zl d1(3) by simp_all
    obtain d' where d': "shiftSmaller lessf swapf (j - 1) d1 = Some d'" "ok d'"
        "keyPerm key a (Suc i) (view d1) (view d')" "sortedSeg key a (Suc i) (view d')"
      using Suc.hyps(1) [OF k(1) d1(2) k(2) k(3) iz k(4) s1 iso1] by blast
    have "keyPerm key a (Suc i) ?xs (view d')"
      using keyPerm_trans [OF segPerm_keyPerm [OF p1] d'(3)] .
    then show ?thesis
      using l True a d1(1) d'(1,2,4) by (subst shiftSmaller.simps) simp
  qed
qed

lemma shiftGreater_spec:
  assumes ops: "sliceOps lessf swapf view lt ok"
  shows "ok d \<Longrightarrow> lo < j \<Longrightarrow> z \<le> length (view d) \<Longrightarrow>
         \<exists>d'. shiftGreater lessf swapf z j d = Some d' \<and> ok d' \<and> segPerm lo z (view d) (view d')"
proof (induction "z - j" arbitrary: j d)
  case 0
  then have "\<not> j < z" by arith
  then show ?case using 0 by (subst shiftGreater.simps) (simp add: segPerm_refl)
next
  case (Suc n)
  let ?xs = "view d"
  have jz: "j < z" using Suc.hyps(2) by arith
  have jl: "j < length ?xs" "j - 1 < length ?xs" using jz Suc.prems by arith+
  have l: "lessf d j (j - 1) = Some (lt (?xs ! j) (?xs ! (j - 1)))"
    using sliceOps_less [OF ops Suc.prems(1) jl] .
  show ?case
  proof (cases "lt (?xs ! j) (?xs ! (j - 1))")
    case False
    then show ?thesis
      using l jz Suc.prems(1) by (subst shiftGreater.simps) (simp add: segPerm_refl)
  next
    case True
    obtain d1 where d1: "swapf d j (j - 1) = Some d1" "ok d1"
        "view d1 = ?xs[j := ?xs ! (j - 1), j - 1 := ?xs ! j]"
      using sliceOps_swap [OF ops Suc.prems(1) jl] by blast
    have p1: "segPerm lo z ?xs (view d1)"
      unfolding d1(3) using segPerm_swap [of lo j z "j - 1" ?xs] jz Suc.prems by simp
    have k: "n = z - (j + 1)" "lo < j + 1" "z \<le> length (view d1)"
      using Suc.hyps(2) Suc.prems d1(3) by simp_all
    obtain d' where d': "shiftGreater lessf swapf z (j + 1) d1 = Some d'" "ok d'"
        "segPerm lo z (view d1) (view d')"
      using Suc.hyps(1) [OF k(1) d1(2) k(2) k(3)] by blast
    have "segPerm lo z ?xs (view d')" using p1 d'(3) by (rule segPerm_trans)
    then show ?thesis
      using l True jz d1(1) d'(1,2) by (subst shiftGreater.simps) simp
  qed
qed

lemma partialInsertionLoop_spec:
  assumes ops: "sliceOps lessf swapf view lt ok" and ag: "agrees lt key"
  shows "ok d \<Longrightarrow> a < i \<Longrightarrow> i \<le> z \<Longrightarrow> z \<le> length (view d) \<Longrightarrow>
         sortedSeg key a i (view d) \<Longrightarrow> isolated key a z (view d) \<Longrightarrow>
         \<exists>d' f. partialInsertionLoop lessf swapf a z steps i d = Some (d', f) \<and> ok d' \<and>
              keyPerm key a z (view d) (view d') \<and> (f \<longrightarrow> sortedSeg key a z (view d'))"
proof (induction steps arbitrary: i d)
  case 0
  then show ?case by (auto simp add: keyPerm_refl)
next
  case (Suc steps)
  let ?xs = "view d"
  note ok = Suc.prems(1) and ai = Suc.prems(2) and iz = Suc.prems(3) and zl = Suc.prems(4)
    and srt = Suc.prems(5) and iso = Suc.prems(6)
  have i0: "0 < i" using ai by arith
  obtain i' where i': "scanSorted lessf d z i = Some i'" "i \<le> i'" "i' \<le> max i z"
      "\<forall>k. i \<le> k \<and> k < i' \<longrightarrow> \<not> lt (?xs ! k) (?xs ! (k - 1))"
      "i' < z \<longrightarrow> lt (?xs ! i') (?xs ! (i' - 1))"
    using scanSorted_spec [OF ops ok i0 zl] by blast
  have i'z: "i' \<le> z" using i'(3) iz by arith
  have "\<forall>k. i \<le> k \<and> k < i' \<longrightarrow> key (?xs ! (k - 1)) \<le> key (?xs ! k)"
    using i'(4) agrees_not_lt [OF ag] by simp
  then have srt': "sortedSeg key a i' ?xs" by (rule sortedSeg_extend [OF srt])
  show ?case
  proof (cases "i' = z")
    case True
    then show ?thesis using i'(1) ok srt' by (auto simp add: keyPerm_refl)
  next
    case ne: False
    show ?thesis
    proof (cases "z - a < 50")
      case True
      then show ?thesis using i'(1) ne ok by (auto simp add: keyPerm_refl)
    next
      case big: False
      have lt': "i' < z" using ne i'z by arith
      have ai': "a < i'" using ai i'(2) by arith
      have l: "lt (?xs ! i') (?xs ! (i' - 1))" using i'(5) lt' by simp
      have il: "i' < length ?xs" "i' - 1 < length ?xs" using lt' zl by arith+
      obtain d1 where d1: "swapf d i' (i' - 1) = Some d1" "ok d1"
          "view d1 = ?xs[i' := ?xs ! (i' - 1), i' - 1 := ?xs ! i']"
        using sliceOps_swap [OF ops ok il] by blast
      have sb0: "sortedBut key a i' i' ?xs" using srt' by (rule sortedBut_start)
      have sb1: "sortedBut key a (i' - 1) i' (view d1)"
        unfolding d1(3)
        using sortedBut_step [OF sb0 agrees_lt [OF ag l] ai' order_refl il(1)] .
      have p1: "segPerm a (Suc i') ?xs (view d1)"
        unfolding d1(3) using segPerm_swap [of a i' "Suc i'" "i' - 1" ?xs] ai' il by simp
      have kp1: "keyPerm key a (Suc i') ?xs (view d1)" using p1 by (rule segPerm_keyPerm)
      have l1: "length (view d1) = length ?xs" using d1(3) by simp
      have "keyPerm key a z ?xs (view d1)" using keyPerm_mono [OF kp1, of a z] lt' by simp
      then have iso1: "isolated key a z (view d1)" using iso zl by (rule isolated_keyPerm)
      define second where
        "second = (if i' - a \<ge> 2 then shiftSmaller lessf swapf (i' - 1) d1 else Some d1)"
      have "\<exists>d2. second = Some d2 \<and> ok d2 \<and> keyPerm key a (Suc i') (view d1) (view d2) \<and>
              sortedSeg key a (Suc i') (view d2)"
      proof (cases "i' - a \<ge> 2")
        case True
        have r: "a \<le> i' - 1" "i' - 1 \<le> i'" "z \<le> length (view d1)"
          using ai' zl l1 by simp_all
        show ?thesis
          using shiftSmaller_spec [OF ops ag d1(2) r(1) r(2) lt' r(3) sb1 iso1] True
          by (simp add: second_def)
      next
        case False
        then have e: "i' - 1 = a" using ai' by arith
        have "sortedSeg key a (Suc i') (view d1)"
          using sortedBut_done [OF sb1] e by simp
        then show ?thesis using False d1(2) by (simp add: second_def keyPerm_refl)
      qed
      then obtain d2 where d2: "second = Some d2" "ok d2"
          "keyPerm key a (Suc i') (view d1) (view d2)" "sortedSeg key a (Suc i') (view d2)"
        by blast
      have l2: "length (view d2) = length ?xs" using keyPerm_length [OF d2(3)] l1 by simp
      define third where
        "third = (if z - i' \<ge> 2 then shiftGreater lessf swapf z (i' + 1) d2 else Some d2)"
      have "\<exists>d3. third = Some d3 \<and> ok d3 \<and> segPerm i' z (view d2) (view d3)"
      proof (cases "z - i' \<ge> 2")
        case True
        have r: "i' < i' + 1" "z \<le> length (view d2)" using zl l2 by simp_all
        show ?thesis
          using shiftGreater_spec [OF ops d2(2) r] True by (simp add: third_def)
      next
        case False
        then show ?thesis using d2(2) by (simp add: third_def segPerm_refl)
      qed
      then obtain d3 where d3: "third = Some d3" "ok d3" "segPerm i' z (view d2) (view d3)"
        by blast
      have l3: "length (view d3) = length ?xs" using d3(3) l2 by (simp add: segPerm_def)
      have kp2: "keyPerm key a z ?xs (view d2)"
        using keyPerm_mono [OF keyPerm_trans [OF kp1 d2(3)], of a z] lt' by simp
      have "keyPerm key a z (view d2) (view d3)"
        using keyPerm_mono [OF segPerm_keyPerm [OF d3(3)], of a z] ai' by simp
      then have kp3: "keyPerm key a z ?xs (view d3)" using kp2 keyPerm_trans by blast
      have iso3: "isolated key a z (view d3)" using kp3 iso zl by (rule isolated_keyPerm)
      have "\<forall>k. a \<le> k \<and> k < i' \<longrightarrow> key (view d3 ! k) = key (view d2 ! k)"
        using segPerm_nth [OF d3(3)] il(1) l2 by simp
      then have srt3: "sortedSeg key a i' (view d3)"
      proof (rule sortedSeg_cong)
        show "sortedSeg key a i' (view d2)" using sortedSeg_mono [OF d2(4), of a i'] by simp
      qed
      have r: "z \<le> length (view d3)" using zl l3 by simp
      obtain d' f where d': "partialInsertionLoop lessf swapf a z steps i' d3 = Some (d', f)" "ok d'"
          "keyPerm key a z (view d3) (view d')" "f \<longrightarrow> sortedSeg key a z (view d')"
        using Suc.IH [OF d3(2) ai' i'z r srt3 iso3] by blast
      have kp: "keyPerm key a z ?xs (view d')" using kp3 d'(3) by (rule keyPerm_trans)
      have "partialInsertionLoop lessf swapf a z (Suc steps) i d =
            (case second of
               None \<Rightarrow> None
             | Some data2 \<Rightarrow>
                 (case (if z - i' \<ge> 2 then shiftGreater lessf swapf z (i' + 1) data2
                        else Some data2) of
                    None \<Rightarrow> None
                  | Some data3 \<Rightarrow> partialInsertionLoop lessf swapf a z steps i' data3))"
        using i'(1) ne big d1(1) by (simp add: second_def)
      also have "\<dots> = (case third of
                    None \<Rightarrow> None
                  | Some data3 \<Rightarrow> partialInsertionLoop lessf swapf a z steps i' data3)"
        unfolding d2(1) third_def by simp
      also have "\<dots> = Some (d', f)" unfolding d3(1) using d'(1) by simp
      finally show ?thesis using d'(2,4) kp by blast
    qed
  qed
qed

lemma partialInsertionSort_spec:
  assumes ops: "sliceOps lessf swapf view lt ok" and ag: "agrees lt key"
    and ok: "ok d" and r: "a < z" "z \<le> length (view d)" and iso: "isolated key a z (view d)"
  shows "\<exists>d' f. partialInsertionSort lessf swapf d a z = Some (d', f) \<and> ok d' \<and>
              keyPerm key a z (view d) (view d') \<and> (f \<longrightarrow> sortedSeg key a z (view d'))"
proof -
  have p: "a < a + 1" "a + 1 \<le> z" "sortedSeg key a (a + 1) (view d)"
    using r by (simp_all add: sortedSeg_empty)
  show ?thesis
    unfolding partialInsertionSort_def
    using partialInsertionLoop_spec [OF ops ag ok p(1) p(2) r(2) p(3) iso] .
qed

subsection \<open>Heap sort\<close>

lemma heapFromD:
  "heapFrom key first lo hi xs \<Longrightarrow> lo \<le> r \<Longrightarrow> isChild r c \<Longrightarrow> c < hi \<Longrightarrow>
   key (xs ! (first + c)) \<le> key (xs ! (first + r))"
  by (simp add: heapFrom_def)

lemma heapButD1:
  "heapBut key first lo hi root xs \<Longrightarrow> lo \<le> r \<Longrightarrow> r \<noteq> root \<Longrightarrow> isChild r c \<Longrightarrow> c < hi \<Longrightarrow>
   key (xs ! (first + c)) \<le> key (xs ! (first + r))"
  by (simp add: heapBut_def)

lemma heapButD2:
  "heapBut key first lo hi root xs \<Longrightarrow> lo \<le> p \<Longrightarrow> isChild p root \<Longrightarrow> isChild root c \<Longrightarrow> c < hi \<Longrightarrow>
   key (xs ! (first + c)) \<le> key (xs ! (first + p))"
  by (simp add: heapBut_def)

lemma isChild_parent: "isChild r c \<Longrightarrow> isChild r' c \<Longrightarrow> r = r'"
  by (auto simp add: isChild_def)

lemma isChild_less: "isChild r c \<Longrightarrow> r < c"
  by (auto simp add: isChild_def)

lemma heapBut_done:
  assumes h: "heapBut key first lo hi root xs"
    and r: "\<forall>c. isChild root c \<and> c < hi \<longrightarrow> key (xs ! (first + c)) \<le> key (xs ! (first + root))"
  shows "heapFrom key first lo hi xs"
  unfolding heapFrom_def
proof (intro allI impI)
  fix r c
  assume a: "lo \<le> r \<and> isChild r c \<and> c < hi"
  show "key (xs ! (first + c)) \<le> key (xs ! (first + r))"
  proof (cases "r = root")
    case True
    then show ?thesis using r a by simp
  next
    case False
    then show ?thesis using heapButD1 [OF h, of r c] a by simp
  qed
qed

lemma heapBut_step:
  assumes h: "heapBut key first lo hi root xs" and lo: "lo \<le> root"
    and c: "isChild root c'" "c' < hi" and n: "first + hi \<le> length xs"
    and m: "\<forall>c. isChild root c \<and> c < hi \<longrightarrow> key (xs ! (first + c)) \<le> key (xs ! (first + c'))"
    and l: "key (xs ! (first + root)) \<le> key (xs ! (first + c'))"
  shows "heapBut key first lo hi c'
           (xs[first + root := xs ! (first + c'), first + c' := xs ! (first + root)])"
proof -
  let ?ys = "xs[first + root := xs ! (first + c'), first + c' := xs ! (first + root)]"
  have rc: "root < c'" using c(1) by (rule isChild_less)
  have rl: "first + root < length xs" and cl: "first + c' < length xs" using rc c(2) n by arith+
  have nth: "?ys ! (first + k) =
      (if k = c' then xs ! (first + root) else if k = root then xs ! (first + c') else xs ! (first + k))"
    if "k < hi" for k
  proof -
    have "first + k < length xs" using that n by arith
    then show ?thesis using nth_swap2 [OF rl cl, of "first + k"] by simp
  qed
  have rh: "root < hi" using rc c(2) by arith
  show ?thesis
    unfolding heapBut_def
  proof (intro conjI allI impI)
    fix r c
    assume a: "lo \<le> r \<and> r \<noteq> c' \<and> isChild r c \<and> c < hi"
    have rlt: "r < c" using a isChild_less by blast
    then have rhi: "r < hi" using a by arith
    show "key (?ys ! (first + c)) \<le> key (?ys ! (first + r))"
    proof (cases "r = root")
      case True
      show ?thesis
      proof (cases "c = c'")
        case True
        then show ?thesis using nth [OF rh] nth [OF c(2)] \<open>r = root\<close> l rc by simp
      next
        case False
        have "c \<noteq> root" using rlt True by simp
        then have "?ys ! (first + c) = xs ! (first + c)" using nth [of c] a False by simp
        moreover have "key (xs ! (first + c)) \<le> key (xs ! (first + c'))"
          using m a True by simp
        ultimately show ?thesis using nth [OF rh] True rc by simp
      qed
    next
      case False
      have yr: "?ys ! (first + r) = xs ! (first + r)" using nth [OF rhi] a False by simp
      show ?thesis
      proof (cases "c = root")
        case True
        have "key (xs ! (first + c')) \<le> key (xs ! (first + r))"
          using heapButD2 [OF h, of r c'] a True c by simp
        then show ?thesis using nth [OF rh] True yr rc by simp
      next
        case nr: False
        have "c \<noteq> c'" using isChild_parent [of r c root] a c(1) False by auto
        then have "?ys ! (first + c) = xs ! (first + c)" using nth [of c] a nr by simp
        moreover have "key (xs ! (first + c)) \<le> key (xs ! (first + r))"
          using heapButD1 [OF h, of r c] a False by simp
        ultimately show ?thesis using yr by simp
      qed
    qed
  next
    fix p c
    assume a: "lo \<le> p \<and> isChild p c' \<and> isChild c' c \<and> c < hi"
    have p: "p = root" using isChild_parent [of p c' root] a c(1) by simp
    have cc: "c' < c" using a isChild_less by blast
    then have "c \<noteq> c'" "c \<noteq> root" using rc by arith+
    then have "?ys ! (first + c) = xs ! (first + c)" using nth [of c] a by simp
    moreover have "key (xs ! (first + c)) \<le> key (xs ! (first + c'))"
      using heapButD1 [OF h, of c' c] a lo rc by simp
    ultimately show "key (?ys ! (first + c)) \<le> key (?ys ! (first + p))"
      using nth [OF rh] p rc by simp
  qed
qed

lemma siftDownFrom_spec:
  assumes ops: "sliceOps lessf swapf view lt ok" and ag: "agrees lt key"
  shows "ok d \<Longrightarrow> first + hi \<le> length (view d) \<Longrightarrow> lo \<le> root \<Longrightarrow>
         heapBut key first lo hi root (view d) \<Longrightarrow>
         \<exists>d'. siftDownFrom lessf swapf hi first root d = Some d' \<and> ok d' \<and>
              segPerm first (first + hi) (view d) (view d') \<and> heapFrom key first lo hi (view d')"
proof (induction "hi - root" arbitrary: root d rule: less_induct)
  case less
  let ?xs = "view d"
  let ?child = "2 * root + 1"
  note ok = less.prems(1) and n = less.prems(2) and lo = less.prems(3) and h = less.prems(4)
  show ?case
  proof (cases "?child \<ge> hi")
    case True
    have "\<forall>c. isChild root c \<and> c < hi \<longrightarrow> key (?xs ! (first + c)) \<le> key (?xs ! (first + root))"
      using True by (auto simp add: isChild_def)
    then have "heapFrom key first lo hi ?xs" using heapBut_done [OF h] by blast
    then show ?thesis
      using True ok by (subst siftDownFrom.simps) (simp add: segPerm_refl)
  next
    case False
    then have ch: "?child < hi" by simp
    have cl: "first + ?child < length ?xs" using ch n by arith
    define pick where
      "pick = (if ?child + 1 < hi
               then (case lessf d (first + ?child) (first + ?child + 1) of
                       None \<Rightarrow> None
                     | Some c \<Rightarrow> Some (if c then ?child + 1 else ?child))
               else Some ?child)"
    have "\<exists>c'. pick = Some c' \<and> isChild root c' \<and> c' < hi \<and>
            (\<forall>c. isChild root c \<and> c < hi \<longrightarrow> key (?xs ! (first + c)) \<le> key (?xs ! (first + c')))"
    proof (cases "?child + 1 < hi")
      case one: False
      have "\<forall>c. isChild root c \<and> c < hi \<longrightarrow> c = ?child"
        using one by (auto simp add: isChild_def)
      then have "\<forall>c. isChild root c \<and> c < hi \<longrightarrow>
          key (?xs ! (first + c)) \<le> key (?xs ! (first + ?child))"
        by auto
      moreover have "pick = Some ?child" using one by (simp add: pick_def)
      moreover have "isChild root ?child" by (simp add: isChild_def)
      ultimately show ?thesis using ch by blast
    next
      case two: True
      have cl2: "first + ?child + 1 < length ?xs" using two n by arith
      have l: "lessf d (first + ?child) (first + ?child + 1) =
          Some (lt (?xs ! (first + ?child)) (?xs ! (first + ?child + 1)))"
        using sliceOps_less [OF ops ok cl cl2] .
      have cs: "c = ?child \<or> c = ?child + 1" if "isChild root c" for c
        using that by (auto simp add: isChild_def)
      show ?thesis
      proof (cases "lt (?xs ! (first + ?child)) (?xs ! (first + ?child + 1))")
        case True
        have k: "key (?xs ! (first + ?child)) \<le> key (?xs ! (first + (?child + 1)))"
          using agrees_lt [OF ag True] by (simp add: add.assoc)
        have "\<forall>c. isChild root c \<and> c < hi \<longrightarrow>
            key (?xs ! (first + c)) \<le> key (?xs ! (first + (?child + 1)))"
        proof (intro allI impI)
          fix c
          assume "isChild root c \<and> c < hi"
          then have "c = ?child \<or> c = ?child + 1" using cs by blast
          then show "key (?xs ! (first + c)) \<le> key (?xs ! (first + (?child + 1)))"
            using k by (elim disjE) simp_all
        qed
        moreover have "pick = Some (?child + 1)" using two l True by (simp add: pick_def)
        moreover have "isChild root (?child + 1)" by (simp add: isChild_def)
        ultimately show ?thesis using two by blast
      next
        case False
        have k: "key (?xs ! (first + (?child + 1))) \<le> key (?xs ! (first + ?child))"
          using agrees_not_lt [OF ag False] by (simp add: add.assoc)
        have "\<forall>c. isChild root c \<and> c < hi \<longrightarrow>
            key (?xs ! (first + c)) \<le> key (?xs ! (first + ?child))"
        proof (intro allI impI)
          fix c
          assume "isChild root c \<and> c < hi"
          then have "c = ?child \<or> c = ?child + 1" using cs by blast
          then show "key (?xs ! (first + c)) \<le> key (?xs ! (first + ?child))"
            using k by (elim disjE) simp_all
        qed
        moreover have "pick = Some ?child" using two l False by (simp add: pick_def)
        moreover have "isChild root ?child" by (simp add: isChild_def)
        ultimately show ?thesis using ch by blast
      qed
    qed
    then obtain c' where c': "pick = Some c'" "isChild root c'" "c' < hi"
        "\<forall>c. isChild root c \<and> c < hi \<longrightarrow> key (?xs ! (first + c)) \<le> key (?xs ! (first + c'))"
      by blast
    have rc: "root < c'" using c'(2) by (rule isChild_less)
    have rl: "first + root < length ?xs" and cl': "first + c' < length ?xs"
      using rc c'(3) n by arith+
    have l: "lessf d (first + root) (first + c') =
        Some (lt (?xs ! (first + root)) (?xs ! (first + c')))"
      using sliceOps_less [OF ops ok rl cl'] .
    have unfold: "siftDownFrom lessf swapf hi first root d =
        (case pick of
           None \<Rightarrow> None
         | Some child' \<Rightarrow>
             (case lessf d (first + root) (first + child') of
                None \<Rightarrow> None
              | Some False \<Rightarrow> Some d
              | Some True \<Rightarrow>
                  (case swapf d (first + root) (first + child') of
                     None \<Rightarrow> None
                   | Some data' \<Rightarrow> siftDownFrom lessf swapf hi first child' data')))"
      using False
      by (subst siftDownFrom.simps) (simp add: pick_def Let_def split: option.splits bool.splits)
    show ?thesis
    proof (cases "lt (?xs ! (first + root)) (?xs ! (first + c'))")
      case nl: False
      have k: "key (?xs ! (first + c')) \<le> key (?xs ! (first + root))"
        using agrees_not_lt [OF ag nl] .
      have "\<forall>c. isChild root c \<and> c < hi \<longrightarrow>
          key (?xs ! (first + c)) \<le> key (?xs ! (first + root))"
        using c'(4) k by (meson order_trans)
      then have "heapFrom key first lo hi ?xs" using heapBut_done [OF h] by blast
      then show ?thesis
        unfolding unfold using c'(1) l nl ok by (simp add: segPerm_refl)
    next
      case True
      obtain d1 where d1: "swapf d (first + root) (first + c') = Some d1" "ok d1"
          "view d1 = ?xs[first + root := ?xs ! (first + c'), first + c' := ?xs ! (first + root)]"
        using sliceOps_swap [OF ops ok rl cl'] by blast
      have h1: "heapBut key first lo hi c' (view d1)"
        unfolding d1(3)
        using heapBut_step [OF h lo c'(2) c'(3) n c'(4) agrees_lt [OF ag True]] .
      have p1: "segPerm first (first + hi) ?xs (view d1)"
        unfolding d1(3)
        using segPerm_swap [of first "first + root" "first + hi" "first + c'" ?xs] rc c'(3) n
        by simp
      have m: "hi - c' < hi - root" using rc c'(3) by arith
      have r: "first + hi \<le> length (view d1)" "lo \<le> c'" using n d1(3) lo rc by simp_all
      obtain d' where d': "siftDownFrom lessf swapf hi first c' d1 = Some d'" "ok d'"
          "segPerm first (first + hi) (view d1) (view d')" "heapFrom key first lo hi (view d')"
        using less.hyps [OF m d1(2) r h1] by blast
      have "segPerm first (first + hi) ?xs (view d')" using p1 d'(3) by (rule segPerm_trans)
      then show ?thesis
        unfolding unfold using c'(1) l True d1(1) d'(1,2,4) by simp
    qed
  qed
qed

lemma heapFrom_heapBut: "heapFrom key first (Suc k) hi xs \<Longrightarrow> heapBut key first k hi k xs"
  unfolding heapBut_def
proof (intro conjI allI impI)
  fix r c
  assume h: "heapFrom key first (Suc k) hi xs" and a: "k \<le> r \<and> r \<noteq> k \<and> isChild r c \<and> c < hi"
  then have "Suc k \<le> r" by arith
  then show "key (xs ! (first + c)) \<le> key (xs ! (first + r))" using heapFromD [OF h, of r c] a by simp
next
  fix p c
  assume a: "k \<le> p \<and> isChild p k \<and> isChild k c \<and> c < hi"
  then have "p < k" using isChild_less by blast
  then show "key (xs ! (first + c)) \<le> key (xs ! (first + p))" using a by simp
qed

lemma rev_upt_Suc: "rev [0..<Suc k] = k # rev [0..<k]"
  by simp

lemma build_spec:
  assumes ops: "sliceOps lessf swapf view lt ok" and ag: "agrees lt key"
  shows "ok d \<Longrightarrow> first + hi \<le> length (view d) \<Longrightarrow> heapFrom key first (Suc k) hi (view d) \<Longrightarrow>
         \<exists>d'. forEach (\<lambda>i d. siftDown lessf swapf d i hi first) (rev [0..<Suc k]) d = Some d' \<and>
              ok d' \<and> segPerm first (first + hi) (view d) (view d') \<and>
              heapFrom key first 0 hi (view d')"
proof (induction k arbitrary: d)
  case 0
  obtain d1 where d1: "siftDownFrom lessf swapf hi first 0 d = Some d1" "ok d1"
      "segPerm first (first + hi) (view d) (view d1)" "heapFrom key first 0 hi (view d1)"
    using siftDownFrom_spec [OF ops ag 0(1) 0(2) order_refl heapFrom_heapBut [OF 0(3)]] by blast
  then show ?case by (simp add: siftDown_def)
next
  case (Suc k)
  obtain d1 where d1: "siftDownFrom lessf swapf hi first (Suc k) d = Some d1" "ok d1"
      "segPerm first (first + hi) (view d) (view d1)" "heapFrom key first (Suc k) hi (view d1)"
    using siftDownFrom_spec [OF ops ag Suc.prems(1) Suc.prems(2) order_refl
        heapFrom_heapBut [OF Suc.prems(3)]] by blast
  have l1: "first + hi \<le> length (view d1)" using d1(3) Suc.prems(2) by (simp add: segPerm_def)
  obtain d' where d': "forEach (\<lambda>i d. siftDown lessf swapf d i hi first) (rev [0..<Suc k]) d1 = Some d'"
      "ok d'" "segPerm first (first + hi) (view d1) (view d')" "heapFrom key first 0 hi (view d')"
    using Suc.IH [OF d1(2) l1 d1(4)] by blast
  have p: "segPerm first (first + hi) (view d) (view d')" using d1(3) d'(3) by (rule segPerm_trans)
  have "forEach (\<lambda>i d. siftDown lessf swapf d i hi first) (rev [0..<Suc (Suc k)]) d = Some d'"
    unfolding rev_upt_Suc [of "Suc k"] using d1(1) d'(1) by (simp add: siftDown_def)
  then show ?case using d'(2,4) p by blast
qed

lemma heap_root_max:
  assumes h: "heapFrom key first 0 hi xs"
  shows "r < hi \<Longrightarrow> key (xs ! (first + r)) \<le> key (xs ! first)"
proof (induction r rule: less_induct)
  case (less r)
  show ?case
  proof (cases "r = 0")
    case True
    then show ?thesis by simp
  next
    case False
    define p where "p = (r - 1) div 2"
    have c: "isChild p r" using False by (auto simp add: isChild_def p_def)
    then have pr: "p < r" by (rule isChild_less)
    have "key (xs ! (first + r)) \<le> key (xs ! (first + p))"
      using heapFromD [OF h _ c less.prems] by simp
    moreover have "key (xs ! (first + p)) \<le> key (xs ! first)"
      using less.IH [OF pr] pr less.prems by simp
    ultimately show ?thesis by simp
  qed
qed

lemma extract_spec:
  assumes ops: "sliceOps lessf swapf view lt ok" and ag: "agrees lt key"
  shows "ok d \<Longrightarrow> k \<le> H \<Longrightarrow> first + H \<le> length (view d) \<Longrightarrow>
         heapFrom key first 0 k (view d) \<Longrightarrow>
         sortedSeg key (first + k) (first + H) (view d) \<Longrightarrow>
         (\<forall>p q. p < k \<and> k \<le> q \<and> q < H \<longrightarrow>
            key (view d ! (first + p)) \<le> key (view d ! (first + q))) \<Longrightarrow>
         \<exists>d'. forEach (\<lambda>i d. case swapf d first (first + i) of
                                 None \<Rightarrow> None
                               | Some d' \<Rightarrow> siftDown lessf swapf d' 0 i first)
                 (rev [0..<k]) d = Some d' \<and>
              ok d' \<and> segPerm first (first + H) (view d) (view d') \<and>
              sortedSeg key first (first + H) (view d')"
proof (induction k arbitrary: d)
  case 0
  then show ?case by (simp add: segPerm_refl)
next
  case (Suc k)
  let ?xs = "view d"
  note ok = Suc.prems(1) and kH = Suc.prems(2) and n = Suc.prems(3) and hp = Suc.prems(4)
    and srt = Suc.prems(5) and cross = Suc.prems(6)
  have fl: "first < length ?xs" and kl: "first + k < length ?xs" using kH n by arith+
  obtain d1 where d1: "swapf d first (first + k) = Some d1" "ok d1"
      "view d1 = ?xs[first := ?xs ! (first + k), first + k := ?xs ! first]"
    using sliceOps_swap [OF ops ok fl kl] by blast
  let ?ys = "view d1"
  have nth1: "?ys ! (first + i) =
      (if i = k then ?xs ! first else if i = 0 then ?xs ! (first + k) else ?xs ! (first + i))"
    if "i < H" for i
  proof -
    have "first + i < length ?xs" using that n by arith
    then show ?thesis unfolding d1(3) using nth_swap2 [OF fl kl, of "first + i"] by simp
  qed
  have l1: "length ?ys = length ?xs" using d1(3) by simp
  have p1: "segPerm first (first + H) ?xs ?ys"
    unfolding d1(3) using segPerm_swap [of first first "first + H" "first + k" ?xs] kH n by simp
  have hb: "heapBut key first 0 k 0 ?ys"
    unfolding heapBut_def
  proof (intro conjI allI impI)
    fix r c
    assume a: "0 \<le> r \<and> r \<noteq> 0 \<and> isChild r c \<and> c < k"
    have rc: "r < c" using a isChild_less by blast
    have "?ys ! (first + c) = ?xs ! (first + c)" using nth1 [of c] a rc kH by simp
    moreover have "?ys ! (first + r) = ?xs ! (first + r)" using nth1 [of r] a rc kH by simp
    moreover have "key (?xs ! (first + c)) \<le> key (?xs ! (first + r))"
      using heapFromD [OF hp, of r c] a by simp
    ultimately show "key (?ys ! (first + c)) \<le> key (?ys ! (first + r))" by simp
  next
    fix p c
    assume a: "0 \<le> p \<and> isChild p 0 \<and> isChild 0 c \<and> c < k"
    then have "p < 0" using isChild_less by blast
    then show "key (?ys ! (first + c)) \<le> key (?ys ! (first + p))" by simp
  qed
  have n1: "first + k \<le> length ?ys" using kl l1 by simp
  obtain d2 where d2: "siftDownFrom lessf swapf k first 0 d1 = Some d2" "ok d2"
      "segPerm first (first + k) ?ys (view d2)" "heapFrom key first 0 k (view d2)"
    using siftDownFrom_spec [OF ops ag d1(2) n1 order_refl hb] by blast
  let ?zs = "view d2"
  have l2: "length ?zs = length ?xs" using d2(3) l1 by (simp add: segPerm_def)
  have high: "?zs ! (first + q) = (if q = k then ?xs ! first else ?xs ! (first + q))"
    if "k \<le> q" "q < H" for q
  proof -
    have "first + q < length ?ys" using that n l1 by arith
    then have "?zs ! (first + q) = ?ys ! (first + q)"
      using segPerm_nth [OF d2(3), of "first + q"] that by simp
    then show ?thesis using nth1 [OF that(2)] that by simp
  qed
  have low: "\<exists>p'. p' < Suc k \<and> ?zs ! (first + p) = ?xs ! (first + p')" if "p < k" for p
  proof -
    have "first \<le> first + p" "first + p < first + k" using that by simp_all
    then obtain p1 where p1: "first \<le> p1" "p1 < first + k" "?ys ! p1 = ?zs ! (first + p)"
      using segPerm_in [OF d2(3) _ _ n1, of "first + p"] by blast
    define p0 where "p0 = p1 - first"
    have p0: "p1 = first + p0" "p0 < k" using p1 by (simp_all add: p0_def)
    have "p0 < H" using p0 kH by arith
    then have "?ys ! (first + p0) = (if p0 = 0 then ?xs ! (first + k) else ?xs ! (first + p0))"
      using nth1 [of p0] p0 by simp
    then have "\<exists>p'. p' < Suc k \<and> ?ys ! (first + p0) = ?xs ! (first + p')"
    proof (cases "p0 = 0")
      case True
      assume "?ys ! (first + p0) = (if p0 = 0 then ?xs ! (first + k) else ?xs ! (first + p0))"
      then have "k < Suc k \<and> ?ys ! (first + p0) = ?xs ! (first + k)" using True by simp
      then show ?thesis by blast
    next
      case False
      assume "?ys ! (first + p0) = (if p0 = 0 then ?xs ! (first + k) else ?xs ! (first + p0))"
      then have "p0 < Suc k \<and> ?ys ! (first + p0) = ?xs ! (first + p0)" using False p0(2) by simp
      then show ?thesis by blast
    qed
    then show ?thesis using p1(3) p0(1) by simp
  qed
  have srt2: "sortedSeg key (first + k) (first + H) ?zs"
    unfolding sortedSeg_def
  proof (intro allI impI)
    fix p q
    assume a: "first + k \<le> p \<and> p \<le> q \<and> q < first + H"
    define p0 where "p0 = p - first"
    define q0 where "q0 = q - first"
    have e: "p = first + p0" "q = first + q0" "k \<le> p0" "p0 \<le> q0" "q0 < H"
      using a by (simp_all add: p0_def q0_def) arith+
    have zp: "?zs ! p = (if p0 = k then ?xs ! first else ?xs ! (first + p0))"
      using high [of p0] e by simp
    have zq: "?zs ! q = (if q0 = k then ?xs ! first else ?xs ! (first + q0))"
      using high [of q0] e by simp
    show "key (?zs ! p) \<le> key (?zs ! q)"
    proof (cases "p0 = q0")
      case True
      then show ?thesis using e by simp
    next
      case ne: False
      then have q0k: "q0 \<noteq> k" "Suc k \<le> q0" using e by arith+
      show ?thesis
      proof (cases "p0 = k")
        case True
        have "key (?xs ! (first + 0)) \<le> key (?xs ! (first + q0))"
          using cross [rule_format, of 0 q0] q0k e by simp
        then show ?thesis using zp zq True q0k by simp
      next
        case False
        then have "first + Suc k \<le> first + p0" using e by arith
        then have "key (?xs ! (first + p0)) \<le> key (?xs ! (first + q0))"
          using sortedSegD [OF srt, of "first + p0" "first + q0"] e by simp
        then show ?thesis using zp zq False q0k by simp
      qed
    qed
  qed
  have cross2: "\<forall>p q. p < k \<and> k \<le> q \<and> q < H \<longrightarrow>
      key (?zs ! (first + p)) \<le> key (?zs ! (first + q))"
  proof (intro allI impI)
    fix p q
    assume a: "p < k \<and> k \<le> q \<and> q < H"
    obtain p' where p': "p' < Suc k" "?zs ! (first + p) = ?xs ! (first + p')"
      using low [of p] a by blast
    show "key (?zs ! (first + p)) \<le> key (?zs ! (first + q))"
    proof (cases "q = k")
      case True
      have "key (?xs ! (first + p')) \<le> key (?xs ! first)"
        using heap_root_max [OF hp p'(1)] .
      then show ?thesis using high [of q] a True p'(2) by simp
    next
      case False
      then have "key (?xs ! (first + p')) \<le> key (?xs ! (first + q))"
        using cross [rule_format, of p' q] p'(1) a by simp
      then show ?thesis using high [of q] a False p'(2) by simp
    qed
  qed
  have r: "k \<le> H" "first + H \<le> length ?zs" using kH n l2 by simp_all
  obtain d' where d': "forEach (\<lambda>i d. case swapf d first (first + i) of
                                 None \<Rightarrow> None
                               | Some d' \<Rightarrow> siftDown lessf swapf d' 0 i first)
                 (rev [0..<k]) d2 = Some d'"
      "ok d'" "segPerm first (first + H) ?zs (view d')" "sortedSeg key first (first + H) (view d')"
    using Suc.IH [OF d2(2) r d2(4) srt2 cross2] by blast
  have "segPerm first (first + H) ?ys ?zs" using segPerm_mono [OF d2(3), of first "first + H"] kH by simp
  then have "segPerm first (first + H) ?xs ?zs" using p1 segPerm_trans by blast
  then have p: "segPerm first (first + H) ?xs (view d')" using d'(3) by (rule segPerm_trans)
  have "forEach (\<lambda>i d. case swapf d first (first + i) of
                                 None \<Rightarrow> None
                               | Some d' \<Rightarrow> siftDown lessf swapf d' 0 i first)
                 (rev [0..<Suc k]) d = Some d'"
    unfolding rev_upt_Suc [of k] using d1(1) d2(1) d'(1) by (simp add: siftDown_def)
  then show ?case using d'(2,4) p by blast
qed

lemma heapSort_spec:
  assumes ops: "sliceOps lessf swapf view lt ok" and ag: "agrees lt key"
    and ok: "ok d" and r: "a \<le> z" "z \<le> length (view d)"
  shows "\<exists>d'. heapSort lessf swapf d a z = Some d' \<and> ok d' \<and>
              segPerm a z (view d) (view d') \<and> sortedSeg key a z (view d')"
proof -
  define hi where "hi = z - a"
  define k where "k = (hi - 1) div 2"
  have z: "z = a + hi" using r by (simp add: hi_def)
  have n: "a + hi \<le> length (view d)" using r z by simp
  have h0: "heapFrom key a (Suc k) hi (view d)"
    unfolding heapFrom_def
  proof (intro allI impI)
    fix r c
    assume a: "Suc k \<le> r \<and> isChild r c \<and> c < hi"
    then have "2 * Suc k + 1 \<le> c" by (auto simp add: isChild_def)
    moreover have "hi \<le> 2 * k + 2" by (simp add: k_def)
    ultimately have False using a by arith
    then show "key (view d ! (a + c)) \<le> key (view d ! (a + r))" by simp
  qed
  obtain d1 where d1: "forEach (\<lambda>i d. siftDown lessf swapf d i hi a) (rev [0..<Suc k]) d = Some d1"
      "ok d1" "segPerm a (a + hi) (view d) (view d1)" "heapFrom key a 0 hi (view d1)"
    using build_spec [OF ops ag ok n h0] by blast
  have n1: "a + hi \<le> length (view d1)" using d1(3) n by (simp add: segPerm_def)
  have s1: "sortedSeg key (a + hi) (a + hi) (view d1)" by (simp add: sortedSeg_empty)
  have c1: "\<forall>p q. p < hi \<and> hi \<le> q \<and> q < hi \<longrightarrow>
      key (view d1 ! (a + p)) \<le> key (view d1 ! (a + q))"
    by simp
  obtain d' where d': "forEach (\<lambda>i d. case swapf d a (a + i) of
                                 None \<Rightarrow> None
                               | Some d' \<Rightarrow> siftDown lessf swapf d' 0 i a)
                 (rev [0..<hi]) d1 = Some d'"
      "ok d'" "segPerm a (a + hi) (view d1) (view d')" "sortedSeg key a (a + hi) (view d')"
    using extract_spec [OF ops ag d1(2) order_refl n1 d1(4) s1 c1] by blast
  have p: "segPerm a (a + hi) (view d) (view d')" using d1(3) d'(3) by (rule segPerm_trans)
  have "heapSort lessf swapf d a z = Some d'"
    unfolding heapSort_def Let_def hi_def [symmetric] k_def [symmetric] using d1(1) d'(1) by simp
  then show ?thesis using d'(2,4) p z by simp
qed

subsection \<open>The loop of pdqsort\<close>

lemma splitAtD1: "splitAt key a mid z xs \<Longrightarrow> a \<le> k \<Longrightarrow> k < mid \<Longrightarrow> key (xs ! k) \<le> key (xs ! mid)"
  by (simp add: splitAt_def)

lemma splitAtD2: "splitAt key a mid z xs \<Longrightarrow> mid < k \<Longrightarrow> k < z \<Longrightarrow> key (xs ! mid) \<le> key (xs ! k)"
  by (simp add: splitAt_def)

lemma leastBlockD:
  "leastBlock key a mid z xs \<Longrightarrow> a \<le> k \<Longrightarrow> k < mid \<Longrightarrow> a \<le> j \<Longrightarrow> j < z \<Longrightarrow>
   key (xs ! k) \<le> key (xs ! j)"
  by (simp add: leastBlock_def)

lemma splitAt_left:
  assumes p: "keyPerm key a mid xs ys" and s: "splitAt key a mid z xs"
    and r: "a \<le> mid" "mid < z" "z \<le> length xs"
  shows "splitAt key a mid z ys"
  unfolding splitAt_def
proof (intro conjI allI impI)
  have m: "key (ys ! mid) = key (xs ! mid)" using keyPerm_nth [OF p, of mid] r by simp
  {
    fix k
    assume k: "a \<le> k \<and> k < mid"
    have ml: "mid \<le> length xs" using r by arith
    obtain k' where k': "a \<le> k'" "k' < mid" "key (xs ! k') = key (ys ! k)"
      using keyPerm_in [OF p _ _ ml, of k] k by blast
    have "key (xs ! k') \<le> key (xs ! mid)" using splitAtD1 [OF s k'(1,2)] .
    then show "key (ys ! k) \<le> key (ys ! mid)" using k'(3) m by simp
  }
  {
    fix k
    assume k: "mid < k \<and> k < z"
    have "key (ys ! k) = key (xs ! k)" using keyPerm_nth [OF p, of k] k r by simp
    moreover have "key (xs ! mid) \<le> key (xs ! k)" using s k by (simp add: splitAt_def)
    ultimately show "key (ys ! mid) \<le> key (ys ! k)" using m by simp
  }
qed

lemma splitAt_right:
  assumes p: "keyPerm key (mid + 1) z xs ys" and s: "splitAt key a mid z xs"
    and r: "a \<le> mid" "mid < z" "z \<le> length xs"
  shows "splitAt key a mid z ys"
  unfolding splitAt_def
proof (intro conjI allI impI)
  have m: "key (ys ! mid) = key (xs ! mid)" using keyPerm_nth [OF p, of mid] r by simp
  {
    fix k
    assume k: "a \<le> k \<and> k < mid"
    have "key (ys ! k) = key (xs ! k)" using keyPerm_nth [OF p, of k] k r by simp
    moreover have "key (xs ! k) \<le> key (xs ! mid)" using s k by (simp add: splitAt_def)
    ultimately show "key (ys ! k) \<le> key (ys ! mid)" using m by simp
  }
  {
    fix k
    assume k: "mid < k \<and> k < z"
    obtain k' where k': "mid + 1 \<le> k'" "k' < z" "key (xs ! k') = key (ys ! k)"
      using keyPerm_in [OF p _ _ r(3), of k] k by auto
    have "key (xs ! mid) \<le> key (xs ! k')" using splitAtD2 [OF s, of k'] k'(1,2) by simp
    then show "key (ys ! mid) \<le> key (ys ! k)" using k'(3) m by simp
  }
qed

lemma sortedSeg_outside:
  assumes p: "keyPerm key a' z' xs ys" and s: "sortedSeg key a z xs"
    and r: "z \<le> a' \<or> z' \<le> a" "z \<le> length xs"
  shows "sortedSeg key a z ys"
proof (rule sortedSeg_cong [OF _ s], intro allI impI)
  fix k
  assume "a \<le> k \<and> k < z"
  then show "key (ys ! k) = key (xs ! k)" using keyPerm_nth [OF p, of k] r by auto
qed

lemma sortedSeg_join:
  assumes s: "splitAt key a mid z xs" and l: "sortedSeg key a mid xs"
    and h: "sortedSeg key (mid + 1) z xs"
  shows "sortedSeg key a z xs"
  unfolding sortedSeg_def
proof (intro allI impI)
  fix p q
  assume a: "a \<le> p \<and> p \<le> q \<and> q < z"
  have low: "key (xs ! k) \<le> key (xs ! mid)" if "a \<le> k" "k \<le> mid" for k
  proof (cases "k = mid")
    case True
    then show ?thesis by simp
  next
    case False
    then show ?thesis using s that by (simp add: splitAt_def)
  qed
  have high: "key (xs ! mid) \<le> key (xs ! k)" if "mid \<le> k" "k < z" for k
  proof (cases "k = mid")
    case True
    then show ?thesis by simp
  next
    case False
    then show ?thesis using s that by (simp add: splitAt_def)
  qed
  show "key (xs ! p) \<le> key (xs ! q)"
  proof (cases "q < mid")
    case True
    then show ?thesis using sortedSegD [OF l, of p q] a by simp
  next
    case qm: False
    show ?thesis
    proof (cases "mid < p")
      case True
      then show ?thesis using sortedSegD [OF h, of p q] a by simp
    next
      case False
      have "key (xs ! p) \<le> key (xs ! mid)" using low [of p] a False by simp
      moreover have "key (xs ! mid) \<le> key (xs ! q)" using high [of q] a qm by simp
      ultimately show ?thesis by simp
    qed
  qed
qed

lemma isolated_right:
  assumes i: "isolated key a z xs" and s: "splitAt key a mid z xs" and r: "a \<le> mid" "mid < z"
  shows "isolated key (mid + 1) z xs"
  unfolding isolated_def
proof (intro allI impI)
  fix p q
  assume a: "p < mid + 1 \<and> mid + 1 \<le> q \<and> q < z"
  have h: "key (xs ! mid) \<le> key (xs ! q)" using s a by (simp add: splitAt_def)
  show "key (xs ! p) \<le> key (xs ! q)"
  proof (cases "p < a")
    case True
    then show ?thesis using isolatedD [OF i, of p q] a r by simp
  next
    case False
    show ?thesis
    proof (cases "p = mid")
      case True
      then show ?thesis using h by simp
    next
      case ne: False
      then have "key (xs ! p) \<le> key (xs ! mid)" using s a False by (simp add: splitAt_def)
      then show ?thesis using h by simp
    qed
  qed
qed

lemma isolated_left: "isolated key a z xs \<Longrightarrow> mid \<le> z \<Longrightarrow> isolated key a mid xs"
  by (simp add: isolated_def)

lemma isolated_block:
  assumes i: "isolated key a z xs" and s: "leastBlock key a mid z xs" and r: "a \<le> mid"
  shows "isolated key mid z xs"
  unfolding isolated_def
proof (intro allI impI)
  fix p q
  assume a: "p < mid \<and> mid \<le> q \<and> q < z"
  show "key (xs ! p) \<le> key (xs ! q)"
  proof (cases "p < a")
    case True
    show ?thesis
    proof (cases "a \<le> q")
      case True
      then show ?thesis using isolatedD [OF i, of p q] a \<open>p < a\<close> by simp
    next
      case False
      then show ?thesis using a r by simp
    qed
  next
    case False
    then have "a \<le> q" using a by arith
    then show ?thesis using leastBlockD [OF s, of p q] a False by simp
  qed
qed

lemma sortedSeg_block:
  assumes p: "keyPerm key mid z xs ys" and s: "leastBlock key a mid z xs"
    and h: "sortedSeg key mid z ys" and r: "a \<le> mid" "mid \<le> z" "z \<le> length xs"
  shows "sortedSeg key a z ys"
  unfolding sortedSeg_def
proof (intro allI impI)
  fix p' q
  assume a: "a \<le> p' \<and> p' \<le> q \<and> q < z"
  show "key (ys ! p') \<le> key (ys ! q)"
  proof (cases "p' < mid")
    case False
    then show ?thesis using sortedSegD [OF h, of p' q] a by simp
  next
    case True
    have kp: "key (ys ! p') = key (xs ! p')" using keyPerm_nth [OF p, of p'] True a r by simp
    have "\<exists>q'. a \<le> q' \<and> q' < z \<and> key (xs ! q') = key (ys ! q)"
    proof (cases "q < mid")
      case True
      have "key (ys ! q) = key (xs ! q)" using keyPerm_nth [OF p, of q] True a r by simp
      then show ?thesis using a by (intro exI [of _ q]) simp
    next
      case False
      then obtain q' where "mid \<le> q'" "q' < z" "key (xs ! q') = key (ys ! q)"
        using keyPerm_in [OF p _ _ r(3), of q] a by auto
      then show ?thesis using r by (intro exI [of _ q']) simp
    qed
    then obtain q' where q': "a \<le> q'" "q' < z" "key (xs ! q') = key (ys ! q)" by blast
    have "key (xs ! p') \<le> key (xs ! q')" using leastBlockD [OF s _ True q'(1,2)] a by simp
    then show ?thesis using kp q'(3) by simp
  qed
qed

lemma pdqsortTurn_spec:
  assumes ops: "sliceOps lessf swapf view lt ok" and ag: "agrees lt key"
    and ok: "ok d" and r: "a \<le> z" "z \<le> length (view d)" and iso: "isolated key a z (view d)"
  shows "\<exists>t. pdqsortTurn lessf swapf a z limit wasBalanced wasPartitioned d = Some t \<and>
             turnPost key view ok a z (view d) t"
proof (cases "z - a \<le> 12")
  case True
  obtain d' where d': "insertionSort lessf swapf d a z = Some d'" "ok d'"
      "segPerm a z (view d) (view d')" "sortedSeg key a z (view d')"
    using insertionSort_sorts [OF ops ag ok r(2)] by blast
  have "pdqsortTurn lessf swapf a z limit wasBalanced wasPartitioned d = Some (Return d')"
    using True d'(1) by (simp add: pdqsortTurn_def)
  moreover have "turnPost key view ok a z (view d) (Return d')"
    using d'(2,4) segPerm_keyPerm [OF d'(3)] by (simp add: turnPost_def)
  ultimately show ?thesis by blast
next
  case long: False
  show ?thesis
  proof (cases "limit = 0")
    case True
    obtain d' where d': "heapSort lessf swapf d a z = Some d'" "ok d'"
        "segPerm a z (view d) (view d')" "sortedSeg key a z (view d')"
      using heapSort_spec [OF ops ag ok r] by blast
    have "pdqsortTurn lessf swapf a z limit wasBalanced wasPartitioned d = Some (Return d')"
      using long True d'(1) by (simp add: pdqsortTurn_def)
    moreover have "turnPost key view ok a z (view d) (Return d')"
      using d'(2,4) segPerm_keyPerm [OF d'(3)] by (simp add: turnPost_def)
    ultimately show ?thesis by blast
  next
    case lim: False
    let ?xs = "view d"
    have "\<exists>d1 l1. (if \<not> wasBalanced
              then do { d' \<leftarrow> breakPatterns swapf d a z; Some (d', limit - 1) }
              else Some (d, limit)) = Some (d1, l1) \<and> ok d1 \<and> segPerm a z ?xs (view d1)"
    proof (cases wasBalanced)
      case True
      then show ?thesis using ok by (simp add: segPerm_refl)
    next
      case False
      obtain d1 where "breakPatterns swapf d a z = Some d1" "ok d1" "segPerm a z ?xs (view d1)"
        using breakPatterns_spec [OF ops ok r] by blast
      then show ?thesis using False by simp
    qed
    then obtain d1 l1 where f1: "(if \<not> wasBalanced
              then do { d' \<leftarrow> breakPatterns swapf d a z; Some (d', limit - 1) }
              else Some (d, limit)) = Some (d1, l1)"
        and d1: "ok d1" "segPerm a z ?xs (view d1)"
      by blast
    have n1: "z \<le> length (view d1)" using d1(2) r(2) by (simp add: segPerm_def)
    have big: "12 < z - a" using long by simp
    obtain pivot hint where f2: "choosePivot lessf d1 a z = Some (pivot, hint)"
        and pv: "a \<le> pivot" "pivot < z"
      using choosePivot_spec [OF ops d1(1) big n1] by blast
    have "\<exists>d2 pivot2 hint2. (if hint = decreasingHint
              then do { d' \<leftarrow> reverseRange swapf d1 a z;
                        Some (d', (z - 1) - (pivot - a), increasingHint) }
              else Some (d1, pivot, hint)) = Some (d2, pivot2, hint2) \<and> ok d2 \<and>
            segPerm a z (view d1) (view d2) \<and> a \<le> pivot2 \<and> pivot2 < z"
    proof (cases "hint = decreasingHint")
      case False
      then show ?thesis using d1(1) pv by (simp add: segPerm_refl)
    next
      case True
      obtain d2 where "reverseRange swapf d1 a z = Some d2" "ok d2" "segPerm a z (view d1) (view d2)"
        using reverseRange_spec [OF ops d1(1) n1] by blast
      moreover have "a \<le> (z - 1) - (pivot - a)" "(z - 1) - (pivot - a) < z" using pv by arith+
      ultimately show ?thesis using True by simp
    qed
    then obtain d2 pivot2 hint2 where f3: "(if hint = decreasingHint
              then do { d' \<leftarrow> reverseRange swapf d1 a z;
                        Some (d', (z - 1) - (pivot - a), increasingHint) }
              else Some (d1, pivot, hint)) = Some (d2, pivot2, hint2)"
        and d2: "ok d2" "segPerm a z (view d1) (view d2)" and pv2: "a \<le> pivot2" "pivot2 < z"
      by blast
    have p2: "segPerm a z ?xs (view d2)" using d1(2) d2(2) by (rule segPerm_trans)
    have n2: "z \<le> length (view d2)" using p2 r(2) by (simp add: segPerm_def)
    have iso2: "isolated key a z (view d2)"
      using isolated_keyPerm [OF segPerm_keyPerm [OF p2] iso r(2)] .
    have az: "a < z" using big by arith
    have "\<exists>d3 srt. (if wasBalanced \<and> wasPartitioned \<and> hint2 = increasingHint
              then partialInsertionSort lessf swapf d2 a z
              else Some (d2, False)) = Some (d3, srt) \<and> ok d3 \<and>
            keyPerm key a z (view d2) (view d3) \<and> (srt \<longrightarrow> sortedSeg key a z (view d3))"
    proof (cases "wasBalanced \<and> wasPartitioned \<and> hint2 = increasingHint")
      case False
      then show ?thesis using d2(1) by (auto simp add: keyPerm_refl)
    next
      case True
      show ?thesis
        using partialInsertionSort_spec [OF ops ag d2(1) az n2 iso2] True by simp
    qed
    then obtain d3 srt where f4: "(if wasBalanced \<and> wasPartitioned \<and> hint2 = increasingHint
              then partialInsertionSort lessf swapf d2 a z
              else Some (d2, False)) = Some (d3, srt)"
        and d3: "ok d3" "keyPerm key a z (view d2) (view d3)"
          "srt \<longrightarrow> sortedSeg key a z (view d3)"
      by blast
    have p3: "keyPerm key a z ?xs (view d3)"
      using keyPerm_trans [OF segPerm_keyPerm [OF p2] d3(2)] .
    have n3: "z \<le> length (view d3)" using keyPerm_length [OF p3] r(2) by simp
    have iso3: "isolated key a z (view d3)" using isolated_keyPerm [OF p3 iso r(2)] .
    have start: "pdqsortTurn lessf swapf a z limit wasBalanced wasPartitioned d =
       (if srt then Some (Return d3)
        else do {
          equal \<leftarrow>
            (if a > 0 then do { l \<leftarrow> lessf d3 (a - 1) pivot2; Some (\<not> l) }
             else Some False);
          if equal then do {
            (data4, mid) \<leftarrow> partitionEqual lessf swapf d3 a z pivot2;
            Some (Equal data4 mid l1)
          } else do {
            (data4, mid, alreadyPartitioned) \<leftarrow> partition' lessf swapf d3 a z pivot2;
            Some (Split data4 mid alreadyPartitioned l1)
          }
        })"
      unfolding pdqsortTurn_def Let_def using long lim f1 f2 f3 f4 by simp
    show ?thesis
    proof (cases srt)
      case True
      have "turnPost key view ok a z ?xs (Return d3)"
        using d3(1,3) p3 True by (simp add: turnPost_def)
      then show ?thesis unfolding start using True by simp
    next
      case ns: False
      have pl: "pivot2 < length (view d3)" using pv2 n3 by arith
      define equal where "equal = (a > 0 \<and> \<not> lt (view d3 ! (a - 1)) (view d3 ! pivot2))"
      have f5: "(if a > 0 then do { l \<leftarrow> lessf d3 (a - 1) pivot2; Some (\<not> l) }
                 else Some False) = Some equal"
      proof (cases "a > 0")
        case False
        then show ?thesis by (simp add: equal_def)
      next
        case True
        have "a - 1 < length (view d3)" using az n3 by arith
        then show ?thesis
          using sliceOps_less [OF ops d3(1) _ pl, of "a - 1"] True by (simp add: equal_def)
      qed
      show ?thesis
      proof (cases equal)
        case True
        obtain d4 mid where d4: "partitionEqual lessf swapf d3 a z pivot2 = Some (d4, mid)" "ok d4"
            "segPerm a z (view d3) (view d4)" "a < mid" "mid \<le> z"
            "\<forall>k. a \<le> k \<and> k < mid \<longrightarrow> key (view d4 ! k) \<le> key (view d3 ! pivot2)"
            "\<forall>k. mid \<le> k \<and> k < z \<longrightarrow> key (view d3 ! pivot2) \<le> key (view d4 ! k)"
          using partitionEqual_spec [OF ops ag d3(1) pv2 n3] by blast
        have a0: "0 < a" and nl: "\<not> lt (view d3 ! (a - 1)) (view d3 ! pivot2)"
          using True by (simp_all add: equal_def)
        have least: "key (view d3 ! pivot2) \<le> key (view d4 ! j)" if j: "a \<le> j" "j < z" for j
        proof -
          obtain j' where j': "a \<le> j'" "j' < z" "view d3 ! j' = view d4 ! j"
            using segPerm_in [OF d4(3) j n3] by blast
          have "key (view d3 ! pivot2) \<le> key (view d3 ! (a - 1))"
            using agrees_not_lt [OF ag nl] .
          moreover have "key (view d3 ! (a - 1)) \<le> key (view d3 ! j')"
            using isolatedD [OF iso3, of "a - 1" j'] a0 j' by simp
          ultimately show ?thesis using j'(3) by simp
        qed
        have lb: "leastBlock key a mid z (view d4)"
          unfolding leastBlock_def
        proof (intro allI impI)
          fix k j
          assume a: "a \<le> k \<and> k < mid \<and> a \<le> j \<and> j < z"
          have "key (view d4 ! k) \<le> key (view d3 ! pivot2)" using d4(6) a by simp
          moreover have "key (view d3 ! pivot2) \<le> key (view d4 ! j)" using least [of j] a by simp
          ultimately show "key (view d4 ! k) \<le> key (view d4 ! j)" by simp
        qed
        have p4: "keyPerm key a z ?xs (view d4)"
          using keyPerm_trans [OF p3 segPerm_keyPerm [OF d4(3)]] .
        have "turnPost key view ok a z ?xs (Equal d4 mid l1)"
          using d4(2,4,5) p4 lb by (simp add: turnPost_def)
        then show ?thesis unfolding start f5 using ns True d4(1) by simp
      next
        case False
        obtain d4 mid f where d4: "partition' lessf swapf d3 a z pivot2 = Some (d4, mid, f)" "ok d4"
            "segPerm a z (view d3) (view d4)" "a \<le> mid" "mid < z"
            "\<forall>k. a \<le> k \<and> k < mid \<longrightarrow> key (view d4 ! k) \<le> key (view d4 ! mid)"
            "\<forall>k. mid < k \<and> k < z \<longrightarrow> key (view d4 ! mid) \<le> key (view d4 ! k)"
          using partition_spec [OF ops ag d3(1) pv2 n3] by blast
        have p4: "keyPerm key a z ?xs (view d4)"
          using keyPerm_trans [OF p3 segPerm_keyPerm [OF d4(3)]] .
        have "turnPost key view ok a z ?xs (Split d4 mid f l1)"
          using d4(2,4,5,6,7) p4 by (simp add: turnPost_def splitAt_def)
        then show ?thesis unfolding start f5 using ns False d4(1) by simp
      qed
    qed
  qed
qed

lemma pdqsortLoop_unfold:
  "pdqsortLoop (lessf, swapf, a, z, limit, wasBalanced, wasPartitioned, d) =
     (case pdqsortTurn lessf swapf a z limit wasBalanced wasPartitioned d of
        None \<Rightarrow> None
      | Some (Return data') \<Rightarrow> Some data'
      | Some (Equal data' mid limit') \<Rightarrow>
          pdqsortLoop (lessf, swapf, mid, z, limit', wasBalanced, wasPartitioned, data')
      | Some (Split data' mid alreadyPartitioned limit') \<Rightarrow>
          (if mid - a < z - mid then
             (case pdqsortLoop (lessf, swapf, a, mid, limit', True, True, data') of
                None \<Rightarrow> None
              | Some data'' \<Rightarrow>
                  pdqsortLoop (lessf, swapf, mid + 1, z, limit',
                    mid - a \<ge> (z - a) div 8, alreadyPartitioned, data''))
           else
             (case pdqsortLoop (lessf, swapf, mid + 1, z, limit', True, True, data') of
                None \<Rightarrow> None
              | Some data'' \<Rightarrow>
                  pdqsortLoop (lessf, swapf, a, mid, limit',
                    z - mid \<ge> (z - a) div 8, alreadyPartitioned, data''))))"
  by (subst pdqsortLoop.simps)
    (simp add: Let_def split: option.splits turn.splits Option.bind_splits)

lemma pdqsortLoop_sorts:
  assumes ops: "sliceOps lessf swapf view lt ok" and ag: "agrees lt key"
  shows "ok d \<Longrightarrow> a \<le> z \<Longrightarrow> z \<le> length (view d) \<Longrightarrow> isolated key a z (view d) \<Longrightarrow>
         \<exists>d'. pdqsortLoop (lessf, swapf, a, z, limit, wasBalanced, wasPartitioned, d) = Some d' \<and>
              ok d' \<and> keyPerm key a z (view d) (view d') \<and> sortedSeg key a z (view d')"
proof (induction "z - a" arbitrary: a z limit wasBalanced wasPartitioned d rule: less_induct)
  case less
  let ?xs = "view d"
  note ok = less.prems(1) and az = less.prems(2) and n = less.prems(3) and iso = less.prems(4)
  obtain t where t: "pdqsortTurn lessf swapf a z limit wasBalanced wasPartitioned d = Some t"
      "turnPost key view ok a z ?xs t"
    using pdqsortTurn_spec [OF ops ag ok az n iso] by blast
  show ?case
  proof (cases t)
    case (Return d')
    then show ?thesis
      unfolding pdqsortLoop_unfold [of lessf swapf a z] using t by (simp add: turnPost_def)
  next
    case (Equal d1 mid limit')
    have d1: "ok d1" "keyPerm key a z ?xs (view d1)" "a < mid" "mid \<le> z"
        "leastBlock key a mid z (view d1)"
      using t(2) Equal by (simp_all add: turnPost_def)
    have n1: "z \<le> length (view d1)" using keyPerm_length [OF d1(2)] n by simp
    have iso1: "isolated key a z (view d1)" using isolated_keyPerm [OF d1(2) iso n] .
    have isom: "isolated key mid z (view d1)" using isolated_block [OF iso1 d1(5)] d1(3) by simp
    have m: "z - mid < z - a" using d1(3,4) by arith
    obtain d' where d': "pdqsortLoop (lessf, swapf, mid, z, limit', wasBalanced, wasPartitioned, d1)
          = Some d'" "ok d'" "keyPerm key mid z (view d1) (view d')" "sortedSeg key mid z (view d')"
      using less.hyps [OF m d1(1) d1(4) n1 isom] by blast
    have am: "a \<le> mid" using d1(3) by simp
    have s: "sortedSeg key a z (view d')"
      using sortedSeg_block [OF d'(3) d1(5) d'(4) am d1(4) n1] .
    have "keyPerm key a z (view d1) (view d')" using keyPerm_mono [OF d'(3), of a z] am by simp
    then have p: "keyPerm key a z ?xs (view d')" using d1(2) keyPerm_trans by blast
    show ?thesis
      unfolding pdqsortLoop_unfold [of lessf swapf a z] using t(1) Equal d'(1,2) s p by simp
  next
    case (Split d1 mid alreadyPartitioned limit')
    have d1: "ok d1" "keyPerm key a z ?xs (view d1)" "a \<le> mid" "mid < z"
        "splitAt key a mid z (view d1)"
      using t(2) Split by (simp_all add: turnPost_def)
    have n1: "z \<le> length (view d1)" using keyPerm_length [OF d1(2)] n by simp
    have iso1: "isolated key a z (view d1)" using isolated_keyPerm [OF d1(2) iso n] .
    have ml: "z - (mid + 1) < z - a" and mr: "mid - a < z - a" using d1(3,4) by arith+
    have mz: "mid + 1 \<le> z" "mid \<le> z" using d1(4) by arith+
    show ?thesis
    proof (cases "mid - a < z - mid")
      case True
      have nm: "mid \<le> length (view d1)" using mz n1 by arith
      obtain d2 where d2: "pdqsortLoop (lessf, swapf, a, mid, limit', True, True, d1) = Some d2"
          "ok d2" "keyPerm key a mid (view d1) (view d2)" "sortedSeg key a mid (view d2)"
        using less.hyps [OF mr d1(1) d1(3) nm isolated_left [OF iso1 mz(2)]] by blast
      have p2: "keyPerm key a z (view d1) (view d2)"
        using keyPerm_mono [OF d2(3), of a z] mz by simp
      have n2: "z \<le> length (view d2)" using keyPerm_length [OF p2] n1 by simp
      have iso2: "isolated key a z (view d2)" using isolated_keyPerm [OF p2 iso1 n1] .
      have sp2: "splitAt key a mid z (view d2)"
        using splitAt_left [OF d2(3) d1(5) d1(3) d1(4) n1] .
      have isor: "isolated key (mid + 1) z (view d2)"
        using isolated_right [OF iso2 sp2 d1(3) d1(4)] .
      obtain d3 where d3: "pdqsortLoop (lessf, swapf, mid + 1, z, limit',
            mid - a \<ge> (z - a) div 8, alreadyPartitioned, d2) = Some d3"
          "ok d3" "keyPerm key (mid + 1) z (view d2) (view d3)"
          "sortedSeg key (mid + 1) z (view d3)"
        using less.hyps [OF ml d2(2) mz(1) n2 isor] by blast
      have sp3: "splitAt key a mid z (view d3)"
        using splitAt_right [OF d3(3) sp2 d1(3) d1(4) n2] .
      have nm2: "mid \<le> length (view d2)" using mz n2 by arith
      have sl3: "sortedSeg key a mid (view d3)"
        using sortedSeg_outside [OF d3(3) d2(4) _ nm2] by simp
      have s: "sortedSeg key a z (view d3)" using sortedSeg_join [OF sp3 sl3 d3(4)] .
      have "keyPerm key a z (view d2) (view d3)"
        using keyPerm_mono [OF d3(3), of a z] d1(3) by simp
      then have p: "keyPerm key a z ?xs (view d3)"
        using keyPerm_trans [OF keyPerm_trans [OF d1(2) p2]] by blast
      show ?thesis
        unfolding pdqsortLoop_unfold [of lessf swapf a z]
        using t(1) Split True d2(1) d3(1,2) s p by simp
    next
      case False
      have isor: "isolated key (mid + 1) z (view d1)"
        using isolated_right [OF iso1 d1(5) d1(3) d1(4)] .
      obtain d2 where d2: "pdqsortLoop (lessf, swapf, mid + 1, z, limit', True, True, d1) = Some d2"
          "ok d2" "keyPerm key (mid + 1) z (view d1) (view d2)"
          "sortedSeg key (mid + 1) z (view d2)"
        using less.hyps [OF ml d1(1) mz(1) n1 isor] by blast
      have p2: "keyPerm key a z (view d1) (view d2)"
        using keyPerm_mono [OF d2(3), of a z] d1(3) by simp
      have n2: "z \<le> length (view d2)" using keyPerm_length [OF p2] n1 by simp
      have iso2: "isolated key a z (view d2)" using isolated_keyPerm [OF p2 iso1 n1] .
      have sp2: "splitAt key a mid z (view d2)"
        using splitAt_right [OF d2(3) d1(5) d1(3) d1(4) n1] .
      have nm2: "mid \<le> length (view d2)" using mz n2 by arith
      obtain d3 where d3: "pdqsortLoop (lessf, swapf, a, mid, limit',
            z - mid \<ge> (z - a) div 8, alreadyPartitioned, d2) = Some d3"
          "ok d3" "keyPerm key a mid (view d2) (view d3)" "sortedSeg key a mid (view d3)"
        using less.hyps [OF mr d2(2) d1(3) nm2 isolated_left [OF iso2 mz(2)]] by blast
      have sp3: "splitAt key a mid z (view d3)"
        using splitAt_left [OF d3(3) sp2 d1(3) d1(4) n2] .
      have sr3: "sortedSeg key (mid + 1) z (view d3)"
        using sortedSeg_outside [OF d3(3) d2(4) _ n2] by simp
      have s: "sortedSeg key a z (view d3)" using sortedSeg_join [OF sp3 d3(4) sr3] .
      have "keyPerm key a z (view d2) (view d3)"
        using keyPerm_mono [OF d3(3), of a z] mz by simp
      then have p: "keyPerm key a z ?xs (view d3)"
        using keyPerm_trans [OF keyPerm_trans [OF d1(2) p2]] by blast
      show ?thesis
        unfolding pdqsortLoop_unfold [of lessf swapf a z]
        using t(1) Split False d2(1) d3(1,2) s p by simp
    qed
  qed
qed


text \<open>
  \<open>pdqsort\<close> on a whole slice, with a comparison that agrees with the keys: it returns,
  and the slice is the old one rearranged with ascending keys.
\<close>

lemma pdqsort_sorts:
  assumes ops: "sliceOps lessf swapf view lt ok" and ag: "agrees lt key" and ok: "ok d"
  shows "\<exists>d'. pdqsort lessf swapf d 0 (length (view d)) limit = Some d' \<and> ok d' \<and>
              mset (view d') = mset (view d) \<and> sorted (map key (view d'))"
proof -
  let ?n = "length (view d)"
  have iso: "isolated key 0 ?n (view d)" by (simp add: isolated_def)
  obtain d' where d': "pdqsortLoop (lessf, swapf, 0, ?n, limit, True, True, d) = Some d'"
      "ok d'" "keyPerm key 0 ?n (view d) (view d')" "sortedSeg key 0 ?n (view d')"
    using pdqsortLoop_sorts [OF ops ag ok _ order_refl iso] by blast
  have l: "length (view d') = ?n" using keyPerm_length [OF d'(3)] .
  have m: "mset (view d') = mset (view d)" using d'(3) by (simp add: keyPerm_def)
  have s: "sorted (map key (view d'))"
    unfolding sorted_iff_nth_mono
  proof (intro allI impI)
    fix i j
    assume "i \<le> j" "j < length (map key (view d'))"
    then show "map key (view d') ! i \<le> map key (view d') ! j"
      using sortedSegD [OF d'(4), of i j] l by simp
  qed
  show ?thesis using d'(1,2) m s by (simp add: pdqsort_def)
qed

subsection \<open>The two sorts of the palette builders\<close>

lemma sliceOps_palette: "sliceOps Less Swap palette (lessNRGBA cols) (\<lambda>d. colors d = cols)"
  by (simp add: sliceOps_def Less_def Swap_def)

lemma agrees_category: "agrees (lessNRGBA cols) category"
  by (auto simp add: agrees_def lessNRGBA_category)

lemma sliceOps_gray:
  "sliceOps (lessGray cols) swapSlice (\<lambda>xs. xs) (\<lambda>x y. get cols x - get cols y > 0) (\<lambda>xs. True)"
  by (simp add: sliceOps_def lessGray_def swapSlice_def)

lemma agrees_constant: "agrees lt (\<lambda>x. 0)"
  by (simp add: agrees_def)

lemma pdqsort_palette:
  "\<exists>s'. pdqsort Less Swap s 0 (Len s) limit = Some s' \<and> colors s' = colors s \<and>
        mset (palette s') = mset (palette s) \<and> catSorted (palette s')"
  using pdqsort_sorts [OF sliceOps_palette [of "colors s"] agrees_category [of "colors s"],
      where d = s and limit = limit]
  by (simp add: Len_def catSorted_def)

lemma pdqsort_gray:
  "\<exists>xs'. pdqsort (lessGray cols) swapSlice xs 0 (length xs) limit = Some xs' \<and> mset xs' = mset xs"
  using pdqsort_sorts [OF sliceOps_gray [of cols] agrees_constant, where d = xs and limit = limit]
  by auto

text \<open>The library's sort returns, with the slice rearranged.\<close>

lemma librarySort_returns: "librarySort pf \<Longrightarrow> sortReturns pf"
  unfolding sortReturns_def
proof (intro conjI allI)
  fix s
  assume l: "librarySort pf"
  obtain s'' where "pdqsort Less Swap s 0 (Len s) (bitsLen (Len s)) = Some s''"
      "mset (palette s'') = mset (palette s)"
    using pdqsort_palette [of s "bitsLen (Len s)"] by blast
  then show "\<exists>s'. pdqsortNRGBA pf s = Some s' \<and> mset (palette s') = mset (palette s)"
    using l by (simp add: librarySort_def)
next
  fix cols xs
  assume l: "librarySort pf"
  obtain xs'' where "pdqsort (lessGray cols) swapSlice xs 0 (length xs) (bitsLen (length xs)) = Some xs''"
      "mset xs'' = mset xs"
    using pdqsort_gray [of cols xs "bitsLen (length xs)"] by blast
  then show "\<exists>xs'. pdqsortGray pf cols xs = Some xs' \<and> mset xs' = mset xs"
    using l by (simp add: librarySort_def)
qed

text \<open>
  \<^verbatim>\<open>sort.Sort\<close> on the palette sorter, for a slice of at most 12 colours or with the
  library's sort: it returns the colours rearranged in category order.
\<close>

lemma sortSort_sorted:
  assumes "Len s \<le> 12 \<or> librarySort pf"
  shows "\<exists>s'. sortSort pf s = Some s' \<and> colors s' = colors s \<and>
           mset (palette s') = mset (palette s) \<and> catSorted (palette s')"
proof (cases "Len s \<le> 12")
  case True
  then show ?thesis by (rule sortSort_small)
next
  case False
  then have "pdqsortNRGBA pf s = pdqsort Less Swap s 0 (Len s) (bitsLen (Len s))"
    using assms by (simp add: librarySort_def)
  then show ?thesis
    using False pdqsort_palette [of s "bitsLen (Len s)"] by (simp add: sortSort_def Let_def)
qed

text \<open>
  The palette of an image with at most 12 colours, or of any image with the library's
  sort: every colour of the image once, in category order.
\<close>

lemma paletteFromNRGBA_sorted:
  assumes "enumerates (rangeNRGBA pf (frequencies (pixelsNRGBA im))) (frequencies (pixelsNRGBA im))"
      and "card (set (pixelsNRGBA im)) \<le> 12 \<or> librarySort pf"
  shows "\<exists>xs. paletteFromNRGBA pf im hint = Some (map ColorNRGBA xs) \<and> distinct xs \<and>
           set xs = set (pixelsNRGBA im) \<and> catSorted xs"
proof -
  let ?cols = "frequencies (pixelsNRGBA im)"
  let ?raw = "rangeNRGBA pf ?cols"
  let ?s = "\<lparr>colors = ?cols, palette = ?raw\<rparr>"
  have d: "distinct ?raw" and st: "set ?raw = set (pixelsNRGBA im)"
    using assms(1) by (simp_all add: enumerates_def dom_frequencies)
  have "length ?raw = card (set (pixelsNRGBA im))"
    using d st by (metis distinct_card)
  then have "Len ?s \<le> 12 \<or> librarySort pf" using assms(2) by (simp add: Len_def)
  from sortSort_sorted [OF this]
  obtain s' where s': "sortSort pf ?s = Some s'" "mset (palette s') = mset ?raw"
    "catSorted (palette s')" by auto
  have "distinct (palette s')" using s'(2) d by (metis mset_eq_imp_distinct_iff)
  moreover have "set (palette s') = set (pixelsNRGBA im)"
    using s'(2) st by (metis mset_eq_setD)
  moreover have "paletteFromNRGBA pf im hint = Some (map ColorNRGBA (palette s'))"
    using s'(1) by (simp add: paletteFromNRGBA_def Let_def)
  ultimately show ?thesis
    using s'(3) by blast
qed

section \<open>The selector\<close>

lemma bestFrom_first_min:
  assumes "k < length pre"
      and "\<forall>j < length pre. length (b (pre ! k)) \<le> length (b (pre ! j))"
      and "\<forall>j < k. length (b (pre ! k)) < length (b (pre ! j))"
  shows "\<exists>i < length (pre @ vs).
           bestFrom vs (b (pre ! k)) (as (pre ! k)) = (b ((pre @ vs) ! i), as ((pre @ vs) ! i)) \<and>
           (\<forall>j < length (pre @ vs). length (b ((pre @ vs) ! i)) \<le> length (b ((pre @ vs) ! j))) \<and>
           (\<forall>j < i. length (b ((pre @ vs) ! i)) < length (b ((pre @ vs) ! j)))"
  using assms
proof (induction vs arbitrary: pre k)
  case Nil
  then show ?case by auto
next
  case (Cons vv vs)
  let ?pre = "pre @ [vv]"
  show ?case
  proof (cases "length (b vv) < length (b (pre ! k))")
    case True
    have k': "length pre < length ?pre" by simp
    have le: "\<forall>j < length ?pre. length (b (?pre ! length pre)) \<le> length (b (?pre ! j))"
    proof (intro allI impI)
      fix j assume "j < length ?pre"
      then consider "j < length pre" | "j = length pre" by fastforce
      then show "length (b (?pre ! length pre)) \<le> length (b (?pre ! j))"
      proof cases
        case 1
        then show ?thesis
          using True Cons.prems(2)
          by (simp add: nth_append) (meson le_less_trans less_imp_le_nat not_le)
      next
        case 2
        then show ?thesis by simp
      qed
    qed
    have lt: "\<forall>j < length pre. length (b (?pre ! length pre)) < length (b (?pre ! j))"
      using True Cons.prems(2) by (simp add: nth_append) (meson le_less_trans not_le)
    from Cons.IH [OF k' le lt] show ?thesis
      using True by simp
  next
    case False
    have k': "k < length ?pre" using Cons.prems(1) by simp
    have at: "?pre ! k = pre ! k" using Cons.prems(1) by (simp add: nth_append)
    have le: "\<forall>j < length ?pre. length (b (?pre ! k)) \<le> length (b (?pre ! j))"
      using False Cons.prems(1,2) by (auto simp: nth_append)
    have lt: "\<forall>j < k. length (b (?pre ! k)) < length (b (?pre ! j))"
      using Cons.prems(1,3) by (auto simp: nth_append)
    from Cons.IH [OF k' le lt] show ?thesis
      using False at by simp
  qed
qed

text \<open>
  C5. For a non-empty list of variants, \<open>best\<close> returns the buffer and the label of one
  entry of the list; no entry has a shorter buffer; and every entry before it (generated
  earlier) has a strictly longer buffer, so that among entries of the same smallest
  length the first one is returned. The list is in generation order: each generator
  appends the direct variant first, then the grayscale one, then the indexed one.
\<close>

theorem best_smallest_first:
  assumes "v \<noteq> []"
  shows "\<exists>i < length v.
           best v = Inr (b (v ! i), as (v ! i)) \<and>
           (\<forall>j < length v. length (b (v ! i)) \<le> length (b (v ! j))) \<and>
           (\<forall>j < i. length (b (v ! i)) < length (b (v ! j)))"
proof -
  obtain v0 vs where v: "v = v0 # vs" using assms by (cases v) auto
  have "\<exists>i < length ([v0] @ vs).
           bestFrom vs (b ([v0] ! 0)) (as ([v0] ! 0)) = (b (([v0] @ vs) ! i), as (([v0] @ vs) ! i)) \<and>
           (\<forall>j < length ([v0] @ vs). length (b (([v0] @ vs) ! i)) \<le> length (b (([v0] @ vs) ! j))) \<and>
           (\<forall>j < i. length (b (([v0] @ vs) ! i)) < length (b (([v0] @ vs) ! j)))"
    by (rule bestFrom_first_min) simp_all
  then show ?thesis by (simp add: v best_def)
qed

theorem best_smallest_first_witness:
  "exampleVariants \<noteq> [] \<and> best exampleVariants = Inr ([1, 2], ''gray'')"
proof -
  have h: "exampleVariants \<noteq> []" by (simp add: exampleVariants_def)
  have e: "best exampleVariants = Inr ([1, 2], ''gray'')"
    by (simp add: exampleVariants_def best_def)
  show ?thesis using h e best_smallest_first [OF h] by simp
qed

section \<open>Palette order\<close>

lemma pixels_twoOpaque: "pixelsNRGBA twoOpaque = [opaqueX, opaqueX, opaqueY]"
  by code_simp

lemma pixels_twoClear: "pixelsNRGBA twoClear = [opaqueX, clearBlack, clearRed]"
  by code_simp

lemma pixels_oneClear: "pixelsNRGBA oneClear = [opaqueX, opaqueY, clearRed, opaqueX]"
  by code_simp

text \<open>
  Two colours of one category with different frequencies leave \<^verbatim>\<open>sort.Sort\<close> in the
  reverse of the order they came in, whichever of the two is the more frequent.
\<close>

lemma two_colours_reversed:
  assumes "category c1 = category c2" and "get cols c1 \<noteq> get cols c2"
  shows "sortSort pf \<lparr>colors = cols, palette = [c1, c2]\<rparr> =
           Some \<lparr>colors = cols, palette = [c2, c1]\<rparr>"
proof -
  let ?s = "\<lparr>colors = cols, palette = [c1, c2]\<rparr>"
  have lt: "lessNRGBA cols c2 c1"
    using assms by (auto simp: lessNRGBA_category)
  have "\<exists>d'. insertionInner Less Swap 0 1 ?s = Some d' \<and> colors d' = cols \<and>
          palette d' = shiftLeft (lessNRGBA cols) (palette ?s ! 1) (rev (take 1 (palette ?s)))
            (drop (Suc 1) (palette ?s))"
    by (rule inner_generic [where ok = "\<lambda>d. colors d = cols" and view = palette])
      (simp_all add: Less_def Swap_def)
  then obtain d' where d': "insertionInner Less Swap 0 1 ?s = Some d'" "colors d' = cols"
    "palette d' = [c2, c1]"
    using lt by auto
  have "d' = \<lparr>colors = cols, palette = [c2, c1]\<rparr>"
    using d'(2,3) by (cases d') simp
  then have "insertionInner Less Swap 0 (Suc 0) ?s = Some \<lparr>colors = cols, palette = [c2, c1]\<rparr>"
    using d'(1) by simp
  then have "insertionOuter Less Swap 0 (Suc (Suc 0)) (Suc 0) ?s =
      Some \<lparr>colors = cols, palette = [c2, c1]\<rparr>"
    by (subst insertionOuter.simps, simp, subst insertionOuter.simps, simp)
  then show ?thesis
    by (simp add: sortSort_def Len_def insertionSort_def numeral_2_eq_2)
qed

text \<open>
  C1. The comment of \<^verbatim>\<open>Less\<close> asks for the more frequent colour first inside a
  category, and the comment of \<^verbatim>\<open>paletteFromGray\<close> for an order from the more frequent
  to the less frequent. The comparison \<^verbatim>\<open>colors[ci]-colors[cj] > 0\<close> on \<^verbatim>\<open>uint\<close>
  holds whenever the two frequencies differ (\<open>uint_diff_pos\<close>), so the builder does not
  produce that order. Here the frequency table is \<open>opaqueX \<mapsto> 2, opaqueY \<mapsto> 1\<close>, both
  colours are opaque, \<^verbatim>\<open>range\<close> visits \<open>opaqueX\<close> first, and the palette comes out with
  the less frequent \<open>opaqueY\<close> at index 0.
\<close>

theorem palette_ascending_frequency:
  "enumerates (rangeNRGBA twoOpaquePlatform (frequencies (pixelsNRGBA twoOpaque)))
     (frequencies (pixelsNRGBA twoOpaque)) \<and>
   get (frequencies (pixelsNRGBA twoOpaque)) opaqueX = 2 \<and>
   get (frequencies (pixelsNRGBA twoOpaque)) opaqueY = 1 \<and>
   category opaqueX = category opaqueY \<and>
   paletteFromNRGBA twoOpaquePlatform twoOpaque 2 = Some [ColorNRGBA opaqueY, ColorNRGBA opaqueX]"
proof -
  have "rangeNRGBA twoOpaquePlatform (frequencies (pixelsNRGBA twoOpaque)) = [opaqueX, opaqueY]"
    by (simp add: twoOpaquePlatform_def examplePlatform_def)
  moreover have "distinct [opaqueX, opaqueY]"
    by (simp add: opaqueX_def opaqueY_def)
  ultimately have "enumerates (rangeNRGBA twoOpaquePlatform (frequencies (pixelsNRGBA twoOpaque)))
     (frequencies (pixelsNRGBA twoOpaque))"
    by (auto simp: enumerates_def dom_frequencies pixels_twoOpaque)
  moreover have "get (frequencies (pixelsNRGBA twoOpaque)) opaqueX = 2"
    by code_simp
  moreover have "get (frequencies (pixelsNRGBA twoOpaque)) opaqueY = 1"
    by code_simp
  moreover have "category opaqueX = category opaqueY"
    by code_simp
  moreover have "paletteFromNRGBA twoOpaquePlatform twoOpaque 2 =
      Some [ColorNRGBA opaqueY, ColorNRGBA opaqueX]"
    by code_simp
  ultimately show ?thesis by blast
qed

text \<open>The grayscale builder on the table \<open>7 \<mapsto> 2, 9 \<mapsto> 1\<close>, with 7 visited first.\<close>

lemma gray_palette_ascending_frequency:
  "get (frequencies (pixelsGray twoGrays)) 7 = 2 \<and>
   get (frequencies (pixelsGray twoGrays)) 9 = 1 \<and>
   paletteFromGray twoGraysPlatform twoGrays 2 = Some [ColorGray 9, ColorGray 7]"
  by code_simp

text \<open>
  C4, as stated: a fully transparent colour of the image is at index 0 of every palette
  that contains it. The image \<open>twoClear\<close> has the two fully transparent colours
  \<open>clearBlack\<close> and \<open>clearRed\<close>; both are palette entries, and \<open>clearRed\<close> is at
  index 1.
\<close>

theorem transparent_not_first_counterexample:
  "enumerates (rangeNRGBA twoClearPlatform (frequencies (pixelsNRGBA twoClear)))
     (frequencies (pixelsNRGBA twoClear)) \<and>
   clearRed \<in> set (pixelsNRGBA twoClear) \<and> A clearRed = 0 \<and>
   paletteFromNRGBA twoClearPlatform twoClear 3 =
     Some [ColorNRGBA clearBlack, ColorNRGBA clearRed, ColorNRGBA opaqueX] \<and>
   [ColorNRGBA clearBlack, ColorNRGBA clearRed, ColorNRGBA opaqueX] ! 1 = ColorNRGBA clearRed \<and>
   [ColorNRGBA clearBlack, ColorNRGBA clearRed, ColorNRGBA opaqueX] ! 0 \<noteq> ColorNRGBA clearRed"
proof -
  have rng: "rangeNRGBA twoClearPlatform (frequencies (pixelsNRGBA twoClear)) =
      [opaqueX, clearBlack, clearRed]"
    by (simp add: twoClearPlatform_def examplePlatform_def)
  have "distinct [opaqueX, clearBlack, clearRed]"
    by (simp add: opaqueX_def clearBlack_def clearRed_def)
  then have enum: "enumerates (rangeNRGBA twoClearPlatform (frequencies (pixelsNRGBA twoClear)))
      (frequencies (pixelsNRGBA twoClear))"
    unfolding rng by (auto simp: enumerates_def dom_frequencies pixels_twoClear)
  have pal: "paletteFromNRGBA twoClearPlatform twoClear 3 =
      Some [ColorNRGBA clearBlack, ColorNRGBA clearRed, ColorNRGBA opaqueX]"
    by code_simp
  have mem: "clearRed \<in> set (pixelsNRGBA twoClear)" by (simp add: pixels_twoClear)
  have clear: "A clearRed = 0" by (simp add: clearRed_def)
  have "ColorNRGBA clearBlack \<noteq> ColorNRGBA clearRed"
    by (simp add: clearBlack_def clearRed_def)
  with enum pal mem clear show ?thesis by simp
qed

text \<open>The samples of a one-row image, and the image of fifty colours.\<close>

lemma upto_row: "map (\<lambda>x. ps ! nat x) [0..int (length ps) - 1] = ps"
proof (rule nth_equalityI)
  show "length (map (\<lambda>x. ps ! nat x) [0..int (length ps) - 1]) = length ps" by simp
next
  fix i
  assume "i < length (map (\<lambda>x. ps ! nat x) [0..int (length ps) - 1])"
  then have i: "i < length ps" by simp
  then show "map (\<lambda>x. ps ! nat x) [0..int (length ps) - 1] ! i = ps ! i" by simp
qed

lemma pixelsNRGBA_rowImage: "pixelsNRGBA (rowImage ps outside) = ps"
proof -
  have "pixelsNRGBA (rowImage ps outside) =
      map (\<lambda>x. NRGBAAt (rowImage ps outside) x 0) [0..int (length ps) - 1]"
    by (simp add: pixelsNRGBA_def scan_def Bounds_def rowImage_def comp_def)
  also have "\<dots> = map (\<lambda>x. ps ! nat x) [0..int (length ps) - 1]"
    by (rule map_cong) (auto simp add: NRGBAAt_def In_def rowImage_def)
  finally show ?thesis by (simp add: upto_row)
qed

lemma shade_inj: "n < 256 \<Longrightarrow> m < 256 \<Longrightarrow> shade n = shade m \<Longrightarrow> n = m"
proof -
  assume n: "n < 256" and m: "m < 256" and e: "shade n = shade m"
  then have "(of_nat n :: 8 word) = of_nat m" by (simp add: shade_def)
  then have "unat (of_nat n :: 8 word) = unat (of_nat m :: 8 word)" by simp
  then show "n = m" using n m by (simp add: unat_of_nat)
qed

lemma distinct_fifty: "distinct (map shade [0..<49] @ [clearRed])"
proof -
  have "inj_on shade (set [0..<49])"
    by (rule inj_onI) (auto intro: shade_inj)
  then have "distinct (map shade [0..<49])" by (simp add: distinct_map)
  moreover have "clearRed \<notin> set (map shade [0..<49])"
    by (auto simp add: shade_def clearRed_def)
  ultimately show ?thesis by simp
qed

lemma pixels_fifty: "pixelsNRGBA fiftyColours = map shade [0..<49] @ [clearRed]"
  by (simp add: fiftyColours_def pixelsNRGBA_rowImage)

lemma library_fifty: "librarySort fiftyPlatform"
  by (simp add: librarySort_def fiftyPlatform_def)

lemma card_fifty: "card (set (pixelsNRGBA fiftyColours)) = 50"
  using distinct_card [OF distinct_fifty] by (simp add: pixels_fifty)

lemma enum_fifty: "enumerates (rangeNRGBA fiftyPlatform (frequencies (pixelsNRGBA fiftyColours)))
     (frequencies (pixelsNRGBA fiftyColours))"
proof -
  have "rangeNRGBA fiftyPlatform (frequencies (pixelsNRGBA fiftyColours)) =
      map shade [0..<49] @ [clearRed]"
    by (simp add: fiftyPlatform_def examplePlatform_def)
  then show ?thesis
    using distinct_fifty by (simp add: enumerates_def dom_frequencies pixels_fifty)
qed

lemma only_fifty: "\<forall>c' \<in> set (pixelsNRGBA fiftyColours). A c' = 0 \<longrightarrow> c' = clearRed"
  by (auto simp add: pixels_fifty shade_def)

text \<open>
  C4, amended. \<^verbatim>\<open>Less\<close> puts a fully transparent colour before every colour that is
  not fully transparent, and never the other way round. Take an image with at most 12
  distinct colours (a palette that \<^verbatim>\<open>sort.Sort\<close> orders by insertion sort), or any
  image when the platform sorts a long slice with the library's pattern-defeating
  quicksort (\<open>librarySort\<close>), and whatever order \<^verbatim>\<open>range\<close> visits the frequency table
  in. If some pixel is fully transparent, then the palette is built, its index 0 holds a
  fully transparent colour of the image, and the fully transparent colours come before all
  other entries; if the image has exactly one fully transparent colour, index 0 holds
  that colour.
\<close>

theorem transparent_first:
  assumes "enumerates (rangeNRGBA pf (frequencies (pixelsNRGBA im))) (frequencies (pixelsNRGBA im))"
      and "card (set (pixelsNRGBA im)) \<le> 12 \<or> librarySort pf"
      and "c \<in> set (pixelsNRGBA im)" and "A c = 0"
  shows "(\<forall>cols t c'. A t = 0 \<and> A c' \<noteq> 0 \<longrightarrow> lessNRGBA cols t c' \<and> \<not> lessNRGBA cols c' t) \<and>
         (\<exists>xs. paletteFromNRGBA pf im hint = Some (map ColorNRGBA xs) \<and> xs \<noteq> [] \<and>
            A (xs ! 0) = 0 \<and> xs ! 0 \<in> set (pixelsNRGBA im) \<and>
            (\<forall>i j. i < j \<and> j < length xs \<and> A (xs ! j) = 0 \<longrightarrow> A (xs ! i) = 0) \<and>
            ((\<forall>c' \<in> set (pixelsNRGBA im). A c' = 0 \<longrightarrow> c' = c) \<longrightarrow> xs ! 0 = c))"
proof -
  have cmp: "\<forall>cols t c'. A t = 0 \<and> A c' \<noteq> 0 \<longrightarrow> lessNRGBA cols t c' \<and> \<not> lessNRGBA cols c' t"
    by (simp add: lessNRGBA_def)
  from paletteFromNRGBA_sorted [OF assms(1,2), of hint]
  obtain xs where xs: "paletteFromNRGBA pf im hint = Some (map ColorNRGBA xs)"
    "set xs = set (pixelsNRGBA im)" "catSorted xs" by blast
  have mem: "c \<in> set xs" using xs(2) assms(3) by simp
  then obtain x rest where cons: "xs = x # rest" by (cases xs) auto
  have "category x \<le> category c"
    using xs(3) mem by (auto simp: cons catSorted_def)
  moreover have "category c = 0" using assms(4) by (simp add: category_def)
  ultimately have x0: "A x = 0" by (simp add: category_def split: if_splits)
  have xin: "x \<in> set (pixelsNRGBA im)" using xs(2) cons by auto
  have front: "A (xs ! i) = 0" if "i < j" "j < length xs" "A (xs ! j) = 0" for i j
  proof -
    have "category (xs ! i) \<le> category (xs ! j)"
      using xs(3) that(1,2) by (simp add: catSorted_def sorted_iff_nth_mono)
    moreover have "category (xs ! j) = 0" using that(3) by (simp add: category_def)
    ultimately show ?thesis by (simp add: category_def split: if_splits)
  qed
  have "xs \<noteq> [] \<and> A (xs ! 0) = 0 \<and> xs ! 0 \<in> set (pixelsNRGBA im) \<and>
      (\<forall>i j. i < j \<and> j < length xs \<and> A (xs ! j) = 0 \<longrightarrow> A (xs ! i) = 0) \<and>
      ((\<forall>c' \<in> set (pixelsNRGBA im). A c' = 0 \<longrightarrow> c' = c) \<longrightarrow> xs ! 0 = c)"
    using x0 xin front by (auto simp: cons)
  with cmp xs(1) show ?thesis by blast
qed

text \<open>
  The image of fifty colours with the library's sort: the palette is built and its
  index 0 holds \<open>clearRed\<close>, the one fully transparent colour, which \<^verbatim>\<open>range\<close>
  visited last.
\<close>

theorem transparent_first_witness:
  "enumerates (rangeNRGBA fiftyPlatform (frequencies (pixelsNRGBA fiftyColours)))
     (frequencies (pixelsNRGBA fiftyColours)) \<and>
   card (set (pixelsNRGBA fiftyColours)) = 50 \<and> librarySort fiftyPlatform \<and>
   clearRed \<in> set (pixelsNRGBA fiftyColours) \<and> A clearRed = 0 \<and>
   (\<exists>xs. paletteFromNRGBA fiftyPlatform fiftyColours 50 = Some (map ColorNRGBA xs) \<and>
      xs ! 0 = clearRed)"
proof -
  have h2: "card (set (pixelsNRGBA fiftyColours)) \<le> 12 \<or> librarySort fiftyPlatform"
    using library_fifty by simp
  have h3: "clearRed \<in> set (pixelsNRGBA fiftyColours)" by (simp add: pixels_fifty)
  have h4: "A clearRed = 0" by (simp add: clearRed_def)
  show ?thesis
    using enum_fifty card_fifty library_fifty h3 h4 only_fifty
      transparent_first [OF enum_fifty h2 h3 h4, of 50]
    by blast
qed
section \<open>The colour classifier\<close>

lemma set_scan: "set (scan r) = {(x, y). In x y r}"
  by (auto simp: scan_def In_def)


lemma pixel_in_pixelsNRGBA: "In x y (Rect im) \<Longrightarrow> NRGBAAt im x y \<in> set (pixelsNRGBA im)"
proof -
  assume "In x y (Rect im)"
  then have "(x, y) \<in> set (scan (Bounds im))" by (simp add: set_scan Bounds_def)
  then have "(\<lambda>(x, y). NRGBAAt im x y) (x, y) \<in> set (pixelsNRGBA im)"
    unfolding pixelsNRGBA_def set_map by (rule imageI)
  then show ?thesis by simp
qed

lemma foldl_countStep:
  "foldl countStep (cols, t, p, g) cs =
     (cols \<union> set cs, t \<or> (\<exists>c \<in> set cs. A c = 0), p \<or> (\<exists>c \<in> set cs. A c \<noteq> 0 \<and> A c < 255),
      g \<and> (\<forall>c \<in> set cs. R c = G c \<and> R c = B c))"
proof (induction cs arbitrary: cols t p g)
  case Nil
  show ?case by simp
next
  case (Cons c cs)
  have step: "countStep (cols, t, p, g) c =
      (insert c cols, t \<or> A c = 0, p \<or> (A c \<noteq> 0 \<and> A c < 255), g \<and> R c = G c \<and> R c = B c)"
    by (auto simp: countStep_def)
  show ?case
    unfolding foldl_Cons step Cons.IH by auto
qed

lemma countNRGBAColors_eq:
  "countNRGBAColors im =
     (card (set (pixelsNRGBA im)), (\<exists>c \<in> set (pixelsNRGBA im). A c = 0),
      (\<exists>c \<in> set (pixelsNRGBA im). A c \<noteq> 0 \<and> A c < 255),
      (\<forall>c \<in> set (pixelsNRGBA im). R c = G c \<and> R c = B c))"
  by (simp add: countNRGBAColors_def foldl_countStep)

lemma sortSort_returns:
  assumes "sortReturns pf"
  shows "\<exists>s'. sortSort pf s = Some s' \<and> mset (palette s') = mset (palette s)"
proof (cases "Len s \<le> 12")
  case True
  from sortSort_small [OF True, of pf] show ?thesis by blast
next
  case False
  obtain s' where "pdqsortNRGBA pf s = Some s'" "mset (palette s') = mset (palette s)"
    using assms unfolding sortReturns_def by blast
  then show ?thesis using False by (simp add: sortSort_def Let_def)
qed

text \<open>
  When \<^verbatim>\<open>range\<close> visits every key once and the sort returns, the palette builder
  returns a palette with every colour of the image once.
\<close>

lemma paletteFromNRGBA_returns:
  assumes "enumerates (rangeNRGBA pf (frequencies (pixelsNRGBA im))) (frequencies (pixelsNRGBA im))"
      and "sortReturns pf"
  shows "\<exists>xs. paletteFromNRGBA pf im hint = Some (map ColorNRGBA xs) \<and> distinct xs \<and>
           set xs = set (pixelsNRGBA im)"
proof -
  let ?cols = "frequencies (pixelsNRGBA im)"
  let ?raw = "rangeNRGBA pf ?cols"
  let ?s = "\<lparr>colors = ?cols, palette = ?raw\<rparr>"
  have d: "distinct ?raw" and st: "set ?raw = set (pixelsNRGBA im)"
    using assms(1) by (simp_all add: enumerates_def dom_frequencies)
  from sortSort_returns [OF assms(2), of ?s]
  obtain s' where s': "sortSort pf ?s = Some s'" "mset (palette s') = mset ?raw" by auto
  have "distinct (palette s')" using s'(2) d by (metis mset_eq_imp_distinct_iff)
  moreover have "set (palette s') = set (pixelsNRGBA im)"
    using s'(2) st by (metis mset_eq_setD)
  moreover have "paletteFromNRGBA pf im hint = Some (map ColorNRGBA (palette s'))"
    using s'(1) by (simp add: paletteFromNRGBA_def Let_def)
  ultimately show ?thesis by blast
qed

text \<open>
  C9. When two pixels inside the bounds are fully transparent and differ in their colour
  channels, the classifier's count is the number of distinct \<^verbatim>\<open>color.NRGBA\<close> values
  (at least 2), which is more than the number of colours left after all fully transparent
  pixels are taken as one colour; and the palette builder returns a palette with as many
  entries as the classifier counts, which holds the two colours at two different indices
  (\<^verbatim>\<open>range\<close> visiting every key of the table once, and the sort returning).
\<close>

theorem transparent_colours_counted_apart:
  assumes "In x1 y1 (Rect im)" and "In x2 y2 (Rect im)"
      and "A (NRGBAAt im x1 y1) = 0" and "A (NRGBAAt im x2 y2) = 0"
      and "NRGBAAt im x1 y1 \<noteq> NRGBAAt im x2 y2"
  shows "fst (countNRGBAColors im) = card (set (pixelsNRGBA im)) \<and>
         2 \<le> fst (countNRGBAColors im) \<and>
         card (unifyTransparent ` set (pixelsNRGBA im)) < fst (countNRGBAColors im) \<and>
         (\<forall>pf hint.
            enumerates (rangeNRGBA pf (frequencies (pixelsNRGBA im))) (frequencies (pixelsNRGBA im)) \<and>
            sortReturns pf \<longrightarrow>
            (\<exists>pal i j. paletteFromNRGBA pf im hint = Some pal \<and>
               length pal = fst (countNRGBAColors im) \<and>
               i < length pal \<and> j < length pal \<and> i \<noteq> j \<and>
               pal ! i = ColorNRGBA (NRGBAAt im x1 y1) \<and> pal ! j = ColorNRGBA (NRGBAAt im x2 y2)))"
proof -
  let ?c1 = "NRGBAAt im x1 y1" and ?c2 = "NRGBAAt im x2 y2"
  let ?S = "set (pixelsNRGBA im)"
  have mem: "?c1 \<in> ?S" "?c2 \<in> ?S"
    using assms(1,2) by (simp_all add: pixel_in_pixelsNRGBA)
  have n: "fst (countNRGBAColors im) = card ?S"
    by (simp add: countNRGBAColors_eq)
  have "card {?c1, ?c2} \<le> card ?S"
    using mem by (intro card_mono) auto
  then have two: "2 \<le> card ?S" using assms(5) by simp
  have "unifyTransparent ?c1 = unifyTransparent ?c2"
    using assms(3,4) by (simp add: unifyTransparent_def)
  then have "\<not> inj_on unifyTransparent ?S"
    using mem assms(5) by (auto simp: inj_on_def)
  then have "card (unifyTransparent ` ?S) \<noteq> card ?S"
    using eq_card_imp_inj_on [of ?S unifyTransparent] by auto
  then have less: "card (unifyTransparent ` ?S) < card ?S"
    using card_image_le [of ?S unifyTransparent] by simp
  have pal: "\<exists>pal i j. paletteFromNRGBA pf im hint = Some pal \<and> length pal = card ?S \<and>
               i < length pal \<and> j < length pal \<and> i \<noteq> j \<and>
               pal ! i = ColorNRGBA ?c1 \<and> pal ! j = ColorNRGBA ?c2"
    if "enumerates (rangeNRGBA pf (frequencies (pixelsNRGBA im))) (frequencies (pixelsNRGBA im))"
      "sortReturns pf" for pf hint
  proof -
    from paletteFromNRGBA_returns [OF that]
    obtain xs where xs: "paletteFromNRGBA pf im hint = Some (map ColorNRGBA xs)"
      "distinct xs" "set xs = ?S" by blast
    have len: "length xs = card ?S" using xs(2,3) by (metis distinct_card)
    obtain i j where ij: "i < length xs" "xs ! i = ?c1" "j < length xs" "xs ! j = ?c2"
      using mem xs(3) by (metis in_set_conv_nth)
    moreover from this have "i \<noteq> j" using assms(5) by auto
    ultimately show ?thesis
      using xs(1) len
      by (intro exI [of _ "map ColorNRGBA xs"] exI [of _ i] exI [of _ j]) simp
  qed
  from pal have "\<forall>pf hint.
      enumerates (rangeNRGBA pf (frequencies (pixelsNRGBA im))) (frequencies (pixelsNRGBA im)) \<and>
      sortReturns pf \<longrightarrow>
      (\<exists>pal i j. paletteFromNRGBA pf im hint = Some pal \<and> length pal = card ?S \<and>
         i < length pal \<and> j < length pal \<and> i \<noteq> j \<and>
         pal ! i = ColorNRGBA ?c1 \<and> pal ! j = ColorNRGBA ?c2)"
    by blast
  with n two less show ?thesis by simp
qed

theorem transparent_colours_counted_apart_witness:
  "In 1 0 (Rect twoClear) \<and> In 2 0 (Rect twoClear) \<and>
   A (NRGBAAt twoClear 1 0) = 0 \<and> A (NRGBAAt twoClear 2 0) = 0 \<and>
   NRGBAAt twoClear 1 0 \<noteq> NRGBAAt twoClear 2 0 \<and>
   fst (countNRGBAColors twoClear) = 3 \<and>
   card (unifyTransparent ` set (pixelsNRGBA twoClear)) < fst (countNRGBAColors twoClear) \<and>
   enumerates (rangeNRGBA twoClearPlatform (frequencies (pixelsNRGBA twoClear)))
     (frequencies (pixelsNRGBA twoClear)) \<and>
   sortReturns twoClearPlatform \<and>
   paletteFromNRGBA twoClearPlatform twoClear 3 =
     Some [ColorNRGBA clearBlack, ColorNRGBA clearRed, ColorNRGBA opaqueX] \<and>
   (\<exists>pal i j. paletteFromNRGBA twoClearPlatform twoClear 3 = Some pal \<and> length pal = 3 \<and>
      i < length pal \<and> j < length pal \<and> i \<noteq> j \<and>
      pal ! i = ColorNRGBA clearBlack \<and> pal ! j = ColorNRGBA clearRed)"
proof -
  have h1: "In 1 0 (Rect twoClear)" and h2: "In 2 0 (Rect twoClear)"
    by (simp_all add: twoClear_def rowImage_def In_def)
  have c1: "NRGBAAt twoClear 1 0 = clearBlack" and c2: "NRGBAAt twoClear 2 0 = clearRed"
    by (simp_all add: twoClear_def rowImage_def NRGBAAt_def In_def)
  have h3: "A (NRGBAAt twoClear 1 0) = 0" and h4: "A (NRGBAAt twoClear 2 0) = 0"
    by (simp_all add: c1 c2 clearBlack_def clearRed_def)
  have h5: "NRGBAAt twoClear 1 0 \<noteq> NRGBAAt twoClear 2 0"
    by (simp add: c1 c2 clearBlack_def clearRed_def)
  have n: "card (set (pixelsNRGBA twoClear)) = 3"
    by (simp add: pixels_twoClear opaqueX_def clearBlack_def clearRed_def)
  have e: "enumerates (rangeNRGBA twoClearPlatform (frequencies (pixelsNRGBA twoClear)))
     (frequencies (pixelsNRGBA twoClear))"
    by (auto simp: enumerates_def dom_frequencies pixels_twoClear twoClearPlatform_def
        examplePlatform_def opaqueX_def clearBlack_def clearRed_def)
  have r: "sortReturns twoClearPlatform"
    by (simp add: sortReturns_def twoClearPlatform_def examplePlatform_def)
  have p: "paletteFromNRGBA twoClearPlatform twoClear 3 =
     Some [ColorNRGBA clearBlack, ColorNRGBA clearRed, ColorNRGBA opaqueX]"
    by code_simp
  note t = transparent_colours_counted_apart [OF h1 h2 h3 h4 h5]
  have cnt: "fst (countNRGBAColors twoClear) = 3" using t n by simp
  have less: "card (unifyTransparent ` set (pixelsNRGBA twoClear)) < fst (countNRGBAColors twoClear)"
    using t by simp
  have "\<exists>pal i j. paletteFromNRGBA twoClearPlatform twoClear 3 = Some pal \<and>
      length pal = fst (countNRGBAColors twoClear) \<and>
      i < length pal \<and> j < length pal \<and> i \<noteq> j \<and>
      pal ! i = ColorNRGBA (NRGBAAt twoClear 1 0) \<and> pal ! j = ColorNRGBA (NRGBAAt twoClear 2 0)"
    using t e r by blast
  then have ex: "\<exists>pal i j. paletteFromNRGBA twoClearPlatform twoClear 3 = Some pal \<and>
      length pal = 3 \<and> i < length pal \<and> j < length pal \<and> i \<noteq> j \<and>
      pal ! i = ColorNRGBA clearBlack \<and> pal ! j = ColorNRGBA clearRed"
    unfolding c1 c2 cnt .
  show ?thesis
    using h1 h2 h3 h4 h5 cnt less e r p ex by blast
qed
section \<open>The variant generators\<close>


lemma Dx_imageRect: "0 \<le> w \<Longrightarrow> Dx (imageRect 0 0 w h) = w"
  by (simp add: Dx_def imageRect_def)

lemma Dy_imageRect: "0 \<le> h \<Longrightarrow> Dy (imageRect 0 0 w h) = h"
  by (simp add: Dy_def imageRect_def)

lemma scan_nonempty: "0 < Dx r \<Longrightarrow> 0 < Dy r \<Longrightarrow> scan r \<noteq> []"
proof -
  assume "0 < Dx r" "0 < Dy r"
  then have "(MinX r, MinY r) \<in> set (scan r)"
    by (simp add: set_scan In_def Dx_def Dy_def)
  then show ?thesis by auto
qed

lemma pixelsNRGBA_nonempty:
  "0 < Dx (Bounds v) \<Longrightarrow> 0 < Dy (Bounds v) \<Longrightarrow> pixelsNRGBA v \<noteq> []"
  by (simp add: pixelsNRGBA_def scan_nonempty)

lemma pixelsGray_nonempty:
  "0 < Dx (Bounds v) \<Longrightarrow> 0 < Dy (Bounds v) \<Longrightarrow> pixelsGray v \<noteq> []"
  by (simp add: pixelsGray_def scan_nonempty)

text \<open>The example platforms encode as \<^verbatim>\<open>png.Encoder\<close> does, and their sorts return.\<close>

lemma encodes_example: "encodes (examplePlatform decoded orderNRGBA orderGray)"
  unfolding encodes_def
proof (intro allI impI)
  fix im
  assume "encodable im"
  then have "strictEncode im = exampleEncode im"
    by (auto simp: strictEncode_def encodable_def sizeOk_def Let_def)
  moreover have "\<exists>buf. exampleEncode im = Inr buf" by (cases im) simp_all
  ultimately show "\<exists>buf. Encode (examplePlatform decoded orderNRGBA orderGray) im = Inr buf"
    by (simp add: examplePlatform_def)
qed


lemma sortReturns_example: "sortReturns (examplePlatform decoded orderNRGBA orderGray)"
  by (simp add: sortReturns_def examplePlatform_def)

lemma encodes_fifty: "encodes fiftyPlatform"
  using encodes_example [of "ImageNRGBA fiftyColours" "map shade [0..<49] @ [clearRed]" "[]"]
  by (simp add: encodes_def fiftyPlatform_def)

lemma sortReturns_fifty: "sortReturns fiftyPlatform"
  using library_fifty by (rule librarySort_returns)

lemma encodable_fifty: "encodable (ImageNRGBA fiftyColours)"
  by (simp add: encodable_def sizeOk_def fiftyColours_def rowImage_def Bounds_def Dx_def Dy_def)









lemma best_nonempty: "vs \<noteq> [] \<Longrightarrow> best vs \<noteq> Inl e"
  by (simp add: best_def)


lemma foldl_insert: "foldl (\<lambda>cols c. insert c cols) S cs = S \<union> set cs"
  by (induction cs arbitrary: S) auto

lemma countGrayColors_eq: "countGrayColors im = card (set (pixelsGray im))"
  by (simp add: countGrayColors_def foldl_insert)

lemma countGrayColors_le: "countGrayColors im \<le> 256"
proof -
  have "card (set (pixelsGray im)) \<le> card (UNIV :: uint8 set)"
    by (rule card_mono) simp_all
  then show ?thesis by (simp add: countGrayColors_eq card_word)
qed

lemma sortSlice_returns:
  assumes "sortReturns pf"
  shows "\<exists>xs'. sortSlice pf cols xs = Some xs' \<and> mset xs' = mset xs"
proof (cases "length xs \<le> 12")
  case True
  then show ?thesis by (rule sortSlice_small)
next
  case False
  obtain xs' where "pdqsortGray pf cols xs = Some xs'" "mset xs' = mset xs"
    using assms unfolding sortReturns_def by blast
  then show ?thesis using False by (simp add: sortSlice_def Let_def)
qed

lemma paletteFromGray_returns:
  assumes "enumerates (rangeGray pf (frequencies (pixelsGray im))) (frequencies (pixelsGray im))"
      and "sortReturns pf"
  shows "\<exists>xs. paletteFromGray pf im hint = Some (map ColorGray xs) \<and> distinct xs \<and>
           set xs = set (pixelsGray im)"
proof -
  let ?cols = "frequencies (pixelsGray im)"
  let ?raw = "rangeGray pf ?cols"
  have d: "distinct ?raw" and st: "set ?raw = set (pixelsGray im)"
    using assms(1) by (simp_all add: enumerates_def dom_frequencies)
  from sortSlice_returns [OF assms(2), of ?cols ?raw]
  obtain xs where xs: "sortSlice pf ?cols ?raw = Some xs" "mset xs = mset ?raw" by auto
  have "distinct xs" using xs(2) d by (metis mset_eq_imp_distinct_iff)
  moreover have "set xs = set (pixelsGray im)" using xs(2) st by (metis mset_eq_setD)
  moreover have "paletteFromGray pf im hint = Some (map ColorGray xs)"
    using xs(1) by (simp add: paletteFromGray_def Let_def)
  ultimately show ?thesis by blast
qed

text \<open>
  The indexed encoding is returned for a palette of 1 to 256 entries over an image that
  the encoder accepts.
\<close>

lemma asPaletted_returns:
  assumes "encodes pf" and "encodable src" and "1 \<le> length pal" and "length pal \<le> 256"
  shows "\<exists>buf. asPaletted pf src pal = Inr buf"
proof -
  let ?p = "\<lparr>Rect = imageRect 0 0 (Dx (imageBounds src)) (Dy (imageBounds src)),
             Pix = DrawPaletted pf src pal, Palette = pal\<rparr>"
  have "encodable (ImagePaletted ?p)"
    using assms(2-4) by (simp add: encodable_def sizeOk_def Let_def Bounds_def Dx_imageRect Dy_imageRect)
  then obtain buf where "Encode pf (ImagePaletted ?p) = Inr buf"
    using assms(1) unfolding encodes_def by blast
  then show ?thesis by (simp add: asPaletted_def Let_def)
qed

text \<open>
  The generator for an NRGBA image returns: the direct variant first and, for at most
  256 colours, the indexed variant last, over a palette with every colour once.
\<close>

lemma variantsNRGBA_total:
  assumes "encodes pf" and "sortReturns pf" and "encodable (ImageNRGBA v)"
      and "enumerates (rangeNRGBA pf (frequencies (pixelsNRGBA v))) (frequencies (pixelsNRGBA v))"
  shows "\<exists>b0 rest. Encode pf (ImageNRGBA v) = Inr b0 \<and>
           variantsNRGBA pf v = Inr (\<lparr>b = b0, as = ''src (nrgba/rgb)''\<rparr> # rest) \<and>
           (card (set (pixelsNRGBA v)) \<le> 256 \<longrightarrow>
              (\<exists>xs buf. distinct xs \<and> set xs = set (pixelsNRGBA v) \<and>
                 paletteFromNRGBA pf v (card (set (pixelsNRGBA v))) = Some (map ColorNRGBA xs) \<and>
                 asPaletted pf (ImageNRGBA v) (map ColorNRGBA xs) = Inr buf \<and>
                 last (\<lparr>b = b0, as = ''src (nrgba/rgb)''\<rparr> # rest) = \<lparr>b = buf, as = ''paletted''\<rparr>))"
proof -
  let ?S = "set (pixelsNRGBA v)"
  let ?src = "\<lparr>b = b0, as = ''src (nrgba/rgb)''\<rparr>"
  have dx: "0 < Dx (Bounds v)" "Dx (Bounds v) < 2 ^ 32" "0 < Dy (Bounds v)" "Dy (Bounds v) < 2 ^ 32"
    using assms(3) by (simp_all add: encodable_def sizeOk_def Let_def)
  obtain b0 where b0: "Encode pf (ImageNRGBA v) = Inr b0"
    using assms(1,3) unfolding encodes_def by blast
  have "encodable (ImageGray (nrgba2gray v))"
    using dx by (simp add: encodable_def sizeOk_def Let_def nrgba2gray_def Bounds_def Dx_imageRect Dy_imageRect)
  then obtain b1 where b1: "Encode pf (ImageGray (nrgba2gray v)) = Inr b1"
    using assms(1) unfolding encodes_def by blast
  obtain xs where xs: "paletteFromNRGBA pf v (card ?S) = Some (map ColorNRGBA xs)"
      "distinct xs" "set xs = ?S"
    using paletteFromNRGBA_returns [OF assms(4,2)] by blast
  have len: "length xs = card ?S" using xs(2,3) by (metis distinct_card)
  have "pixelsNRGBA v \<noteq> []" using dx by (simp add: pixelsNRGBA_nonempty)
  then have pos: "1 \<le> card ?S" by (simp add: Suc_le_eq card_gt_0_iff)
  obtain t p g where cn: "countNRGBAColors v = (card ?S, t, p, g)"
    by (simp add: countNRGBAColors_eq)
  define grays where "grays = (if g \<and> \<not> (t \<or> p) then [\<lparr>b = b1, as = ''gray''\<rparr>] else [])"
  show ?thesis
  proof (cases "card ?S \<le> 256")
    case True
    obtain b2 where b2: "asPaletted pf (ImageNRGBA v) (map ColorNRGBA xs) = Inr b2"
      using asPaletted_returns [OF assms(1,3), of "map ColorNRGBA xs"] True len pos by auto
    have "variantsNRGBA pf v =
        Inr (\<lparr>b = b0, as = ''src (nrgba/rgb)''\<rparr> # grays @ [\<lparr>b = b2, as = ''paletted''\<rparr>])"
      using True by (cases "g \<and> \<not> (t \<or> p)")
        (simp_all add: variantsNRGBA_def cn Let_def b0 b1 xs(1) b2 grays_def)
    then show ?thesis using b0 xs b2 by fastforce
  next
    case False
    have "variantsNRGBA pf v = Inr (\<lparr>b = b0, as = ''src (nrgba/rgb)''\<rparr> # grays)"
      using False by (cases "g \<and> \<not> (t \<or> p)")
        (simp_all add: variantsNRGBA_def cn Let_def b0 b1 grays_def)
    then show ?thesis using b0 False by simp
  qed
qed

lemma variantsGray_total:
  assumes "encodes pf" and "sortReturns pf" and "encodable (ImageGray v)"
      and "enumerates (rangeGray pf (frequencies (pixelsGray v))) (frequencies (pixelsGray v))"
  shows "\<exists>b0 xs buf. Encode pf (ImageGray v) = Inr b0 \<and>
           distinct xs \<and> set xs = set (pixelsGray v) \<and>
           paletteFromGray pf v (card (set (pixelsGray v))) = Some (map ColorGray xs) \<and>
           asPaletted pf (ImageGray v) (map ColorGray xs) = Inr buf \<and>
           variantsGray pf v = Inr [\<lparr>b = b0, as = ''src (gray)''\<rparr>, \<lparr>b = buf, as = ''paletted''\<rparr>]"
proof -
  let ?S = "set (pixelsGray v)"
  have dx: "0 < Dx (Bounds v)" "0 < Dy (Bounds v)"
    using assms(3) by (simp_all add: encodable_def sizeOk_def Let_def)
  obtain b0 where b0: "Encode pf (ImageGray v) = Inr b0"
    using assms(1,3) unfolding encodes_def by blast
  obtain xs where xs: "paletteFromGray pf v (card ?S) = Some (map ColorGray xs)"
      "distinct xs" "set xs = ?S"
    using paletteFromGray_returns [OF assms(4,2)] by blast
  have len: "length xs = card ?S" using xs(2,3) by (metis distinct_card)
  have "pixelsGray v \<noteq> []" using dx by (simp add: pixelsGray_nonempty)
  then have pos: "1 \<le> card ?S" by (simp add: Suc_le_eq card_gt_0_iff)
  have le: "card ?S \<le> 256" using countGrayColors_le [of v] by (simp add: countGrayColors_eq)
  obtain b2 where b2: "asPaletted pf (ImageGray v) (map ColorGray xs) = Inr b2"
    using asPaletted_returns [OF assms(1,3), of "map ColorGray xs"] le len pos by auto
  have "variantsGray pf v = Inr [\<lparr>b = b0, as = ''src (gray)''\<rparr>, \<lparr>b = b2, as = ''paletted''\<rparr>]"
    using le by (simp add: variantsGray_def countGrayColors_eq Let_def b0 xs(1) b2)
  then show ?thesis using b0 xs b2 by blast
qed





lemma variantsPaletted_labels:
  "variantsPaletted pf v = Inr vs \<Longrightarrow> \<forall>x \<in> set vs. as x \<noteq> ''paletted''"
  by (auto simp: variantsPaletted_def Let_def split: sum.splits if_splits option.splits)

text \<open>
  C7, as stated: an image with at most 256 distinct colours gets an indexed variant.
  The 16-bit grayscale image \<open>deepGray\<close> has one colour; it goes through the
  \<^verbatim>\<open>default\<close> branch of \<^verbatim>\<open>Optimize\<close>, whose only candidate is the direct re-encode.
\<close>

theorem indexed_variant_missing_counterexample:
  "card (set (samples deepGray)) \<le> 256 \<and>
   generatedVariants deepGrayPlatform (ImageGray16 deepGray) = Inr [\<lparr>b = [0, 0], as = []\<rparr>]"
proof -
  have "samples deepGray = [5]" by code_simp
  moreover have "generatedVariants deepGrayPlatform (ImageGray16 deepGray) =
      Inr [\<lparr>b = [0, 0], as = []\<rparr>]"
    by code_simp
  ultimately show ?thesis by simp
qed

text \<open>
  C7, amended. For every NRGBA image that \<^verbatim>\<open>png.Encoder\<close> accepts (and every RGBA
  image, after its conversion) with at most 256 distinct colours, the generator returns
  a list of variants whose last entry is the encoding of the image over the palette
  that \<^verbatim>\<open>paletteFromNRGBA\<close> builds from the frequency table of all pixels, labelled
  \<^verbatim>\<open>paletted\<close>; for every Gray image, which never has more than 256 levels, it returns
  a list whose last entry is the one over the palette of \<^verbatim>\<open>paletteFromGray\<close>. In
  both cases the palette holds every colour of the image once. Here the encoder returns
  the bytes for every image it accepts, \<^verbatim>\<open>range\<close> visits every key of the frequency
  table once, and the sort returns. For every other colour model (indexed, 16 bits per
  channel) no list that the generator returns has a variant labelled \<^verbatim>\<open>paletted\<close>.
\<close>

theorem indexed_variant_by_model:
  "(\<forall>v. (im = ImageNRGBA v \<or> (\<exists>r. im = ImageRGBA r \<and> v = RGBA2NRGBA pf r)) \<and>
        card (set (pixelsNRGBA v)) \<le> 256 \<and>
        encodes pf \<and> sortReturns pf \<and> encodable im \<and> ranges pf im \<longrightarrow>
        (\<exists>xs buf vs. distinct xs \<and> set xs = set (pixelsNRGBA v) \<and>
           paletteFromNRGBA pf v (card (set (pixelsNRGBA v))) = Some (map ColorNRGBA xs) \<and>
           asPaletted pf (ImageNRGBA v) (map ColorNRGBA xs) = Inr buf \<and>
           generatedVariants pf im = Inr vs \<and> last vs = \<lparr>b = buf, as = ''paletted''\<rparr>)) \<and>
   (\<forall>v. im = ImageGray v \<and> encodes pf \<and> sortReturns pf \<and> encodable im \<and> ranges pf im \<longrightarrow>
        card (set (pixelsGray v)) \<le> 256 \<and>
        (\<exists>xs buf vs. distinct xs \<and> set xs = set (pixelsGray v) \<and>
           paletteFromGray pf v (card (set (pixelsGray v))) = Some (map ColorGray xs) \<and>
           asPaletted pf (ImageGray v) (map ColorGray xs) = Inr buf \<and>
           generatedVariants pf im = Inr vs \<and> last vs = \<lparr>b = buf, as = ''paletted''\<rparr>)) \<and>
   ((\<forall>v. im \<noteq> ImageNRGBA v) \<and> (\<forall>v. im \<noteq> ImageRGBA v) \<and> (\<forall>v. im \<noteq> ImageGray v) \<longrightarrow>
      (\<forall>vs. generatedVariants pf im = Inr vs \<longrightarrow> (\<forall>x \<in> set vs. as x \<noteq> ''paletted'')))"
proof -
  have nrgba: "\<exists>xs buf vs. distinct xs \<and> set xs = set (pixelsNRGBA v) \<and>
           paletteFromNRGBA pf v (card (set (pixelsNRGBA v))) = Some (map ColorNRGBA xs) \<and>
           asPaletted pf (ImageNRGBA v) (map ColorNRGBA xs) = Inr buf \<and>
           variantsNRGBA pf v = Inr vs \<and> last vs = \<lparr>b = buf, as = ''paletted''\<rparr>"
    if "card (set (pixelsNRGBA v)) \<le> 256" "encodes pf" "sortReturns pf"
      "encodable (ImageNRGBA v)"
      "enumerates (rangeNRGBA pf (frequencies (pixelsNRGBA v))) (frequencies (pixelsNRGBA v))"
    for v
    using variantsNRGBA_total [OF that(2-5)] that(1) by blast
  have gray: "card (set (pixelsGray v)) \<le> 256 \<and>
        (\<exists>xs buf vs. distinct xs \<and> set xs = set (pixelsGray v) \<and>
           paletteFromGray pf v (card (set (pixelsGray v))) = Some (map ColorGray xs) \<and>
           asPaletted pf (ImageGray v) (map ColorGray xs) = Inr buf \<and>
           variantsGray pf v = Inr vs \<and> last vs = \<lparr>b = buf, as = ''paletted''\<rparr>)"
    if "encodes pf" "sortReturns pf" "encodable (ImageGray v)"
      "enumerates (rangeGray pf (frequencies (pixelsGray v))) (frequencies (pixelsGray v))"
    for v
  proof -
    from variantsGray_total [OF that]
    obtain b0 xs buf where "distinct xs" "set xs = set (pixelsGray v)"
      "paletteFromGray pf v (card (set (pixelsGray v))) = Some (map ColorGray xs)"
      "asPaletted pf (ImageGray v) (map ColorGray xs) = Inr buf"
      "variantsGray pf v = Inr [\<lparr>b = b0, as = ''src (gray)''\<rparr>, \<lparr>b = buf, as = ''paletted''\<rparr>]"
      by blast
    moreover have "last [\<lparr>b = b0, as = ''src (gray)''\<rparr>, \<lparr>b = buf, as = ''paletted''\<rparr>] =
        \<lparr>b = buf, as = ''paletted''\<rparr>" by simp
    moreover have "card (set (pixelsGray v)) \<le> 256"
      using countGrayColors_le [of v] by (simp add: countGrayColors_eq)
    ultimately show ?thesis by metis
  qed
  show ?thesis
  proof (cases im)
    case (ImageRGBA r)
    have "encodable (ImageNRGBA (RGBA2NRGBA pf r))" if "encodable im"
      using that ImageRGBA
      by (simp add: encodable_def sizeOk_def Let_def RGBA2NRGBA_def Bounds_def Dx_imageRect Dy_imageRect)
    then show ?thesis using ImageRGBA nrgba [of "RGBA2NRGBA pf r"] by auto
  next
    case (ImageNRGBA v)
    then show ?thesis using nrgba [of v] by auto
  next
    case (ImagePaletted v)
    then show ?thesis using variantsPaletted_labels [of pf v] by simp
  next
    case (ImageGray v)
    then show ?thesis using gray [of v] by auto
  qed (auto split: sum.splits)
qed

theorem indexed_variant_by_model_witness:
  "card (set (pixelsNRGBA fiftyColours)) \<le> 256 \<and>
   encodes fiftyPlatform \<and> sortReturns fiftyPlatform \<and> encodable (ImageNRGBA fiftyColours) \<and>
   ranges fiftyPlatform (ImageNRGBA fiftyColours) \<and>
   (\<exists>xs vs. distinct xs \<and> set xs = set (pixelsNRGBA fiftyColours) \<and> length xs = 50 \<and>
      paletteFromNRGBA fiftyPlatform fiftyColours 50 = Some (map ColorNRGBA xs) \<and>
      asPaletted fiftyPlatform (ImageNRGBA fiftyColours) (map ColorNRGBA xs) =
        Inr (replicate 200 0) \<and>
      generatedVariants fiftyPlatform (ImageNRGBA fiftyColours) = Inr vs \<and>
      last vs = \<lparr>b = replicate 200 0, as = ''paletted''\<rparr>) \<and>
   encodes twoGraysPlatform \<and> sortReturns twoGraysPlatform \<and> encodable (ImageGray twoGrays) \<and>
   ranges twoGraysPlatform (ImageGray twoGrays) \<and>
   card (set (pixelsGray twoGrays)) = 2 \<and>
   paletteFromGray twoGraysPlatform twoGrays 2 = Some [ColorGray 9, ColorGray 7] \<and>
   asPaletted twoGraysPlatform (ImageGray twoGrays) [ColorGray 9, ColorGray 7] =
     Inr (replicate 9 0) \<and>
   generatedVariants twoGraysPlatform (ImageGray twoGrays) =
     Inr [\<lparr>b = replicate 3 0, as = ''src (gray)''\<rparr>, \<lparr>b = replicate 9 0, as = ''paletted''\<rparr>]"
proof -
  have h: "card (set (pixelsNRGBA fiftyColours)) \<le> 256 \<and>
      encodes fiftyPlatform \<and> sortReturns fiftyPlatform \<and>
      encodable (ImageNRGBA fiftyColours) \<and> ranges fiftyPlatform (ImageNRGBA fiftyColours)"
    using card_fifty encodes_fifty sortReturns_fifty encodable_fifty enum_fifty by simp
  have "\<exists>xs buf vs. distinct xs \<and> set xs = set (pixelsNRGBA fiftyColours) \<and>
      paletteFromNRGBA fiftyPlatform fiftyColours (card (set (pixelsNRGBA fiftyColours))) =
        Some (map ColorNRGBA xs) \<and>
      asPaletted fiftyPlatform (ImageNRGBA fiftyColours) (map ColorNRGBA xs) = Inr buf \<and>
      generatedVariants fiftyPlatform (ImageNRGBA fiftyColours) = Inr vs \<and>
      last vs = \<lparr>b = buf, as = ''paletted''\<rparr>"
    using indexed_variant_by_model [of "ImageNRGBA fiftyColours" fiftyPlatform] h by blast
  then obtain xs buf vs where x: "distinct xs" "set xs = set (pixelsNRGBA fiftyColours)"
      "paletteFromNRGBA fiftyPlatform fiftyColours 50 = Some (map ColorNRGBA xs)"
      "asPaletted fiftyPlatform (ImageNRGBA fiftyColours) (map ColorNRGBA xs) = Inr buf"
      "generatedVariants fiftyPlatform (ImageNRGBA fiftyColours) = Inr vs"
      "last vs = \<lparr>b = buf, as = ''paletted''\<rparr>"
    unfolding card_fifty by blast
  have len: "length xs = 50" using x(1,2) card_fifty by (metis distinct_card)
  have sc: "length (scan (imageRect 0 0 50 1)) = 50" by code_simp
  have "asPaletted fiftyPlatform (ImageNRGBA fiftyColours) (map ColorNRGBA xs) =
      Inr (replicate 200 0)"
    using len sc
    by (simp add: asPaletted_def fiftyPlatform_def examplePlatform_def strictEncode_def Let_def
        fiftyColours_def rowImage_def Bounds_def Dx_def Dy_def imageRect_def)
  then have "buf = replicate 200 0" using x(4) by simp
  then have fifty: "\<exists>xs vs. distinct xs \<and> set xs = set (pixelsNRGBA fiftyColours) \<and>
      length xs = 50 \<and>
      paletteFromNRGBA fiftyPlatform fiftyColours 50 = Some (map ColorNRGBA xs) \<and>
      asPaletted fiftyPlatform (ImageNRGBA fiftyColours) (map ColorNRGBA xs) =
        Inr (replicate 200 0) \<and>
      generatedVariants fiftyPlatform (ImageNRGBA fiftyColours) = Inr vs \<and>
      last vs = \<lparr>b = replicate 200 0, as = ''paletted''\<rparr>"
    using x len by blast
  have px: "pixelsGray twoGrays = [7, 7, 9]" by code_simp
  have g1: "encodes twoGraysPlatform" and g2: "sortReturns twoGraysPlatform"
    unfolding twoGraysPlatform_def by (rule encodes_example, rule sortReturns_example)
  have g3: "encodable (ImageGray twoGrays)"
    by (simp add: encodable_def sizeOk_def twoGrays_def rowImage_def Bounds_def Dx_def Dy_def)
  have g4: "ranges twoGraysPlatform (ImageGray twoGrays)"
    by (auto simp: enumerates_def dom_frequencies px twoGraysPlatform_def examplePlatform_def)
  have g5: "card (set (pixelsGray twoGrays)) = 2" by (simp add: px)
  have g6: "paletteFromGray twoGraysPlatform twoGrays 2 = Some [ColorGray 9, ColorGray 7]"
    by code_simp
  have g7: "asPaletted twoGraysPlatform (ImageGray twoGrays) [ColorGray 9, ColorGray 7] =
     Inr (replicate 9 0)"
    by code_simp
  have g8: "generatedVariants twoGraysPlatform (ImageGray twoGrays) =
     Inr [\<lparr>b = replicate 3 0, as = ''src (gray)''\<rparr>, \<lparr>b = replicate 9 0, as = ''paletted''\<rparr>]"
    by code_simp
  show ?thesis
    using h fifty g1 g2 g3 g4 g5 g6 g7 g8
      indexed_variant_by_model [of "ImageGray twoGrays" twoGraysPlatform]
    by blast
qed
section \<open>The commit\<close>

text \<open>What the method \<^verbatim>\<open>savePNG\<close> does to the disk, by the call that fails.\<close>

lemma savePNG_cases:
  "PNGOptimizer_savePNG fl d path buf =
     (case createFault fl of
        Some e \<Rightarrow> (d, Some (OSError e))
      | None \<Rightarrow>
          (case writeFault fl of
             Some (n, e) \<Rightarrow>
               (d(path @ ''.pngtmp'' \<mapsto> afterClose fl (take n buf)), Some (OSError e))
           | None \<Rightarrow>
               (case renameFault fl of
                  Some e \<Rightarrow> (d(path @ ''.pngtmp'' \<mapsto> afterClose fl buf), Some (OSError e))
                | None \<Rightarrow>
                    ((d(path \<mapsto> afterClose fl buf))(path @ ''.pngtmp'' := None), None))))"
  by (auto simp: PNGOptimizer_savePNG_def savePNG_def osCreate_def WriteTo_def osClose_def
      osRename_def Let_def fun_upd_twist split: option.splits prod.splits)

lemma afterClose_None: "closeFault fl = None \<Longrightarrow> afterClose fl content = content"
  by (simp add: afterClose_def)

text \<open>
  C8, as stated: when the write of the temporary file fails, the temporary path is
  removed. The program never removes a file. Here the write fails after 4 bytes and the
  temporary path, absent before, holds these 4 bytes afterwards.
\<close>

theorem temp_file_left_counterexample:
  "createFault writeFails = None \<and> writeFault writeFails = Some (4, ''no space left on device'') \<and>
   snd (PNGOptimizer_savePNG writeFails exampleDisk ''a.png'' (replicate 9 0)) =
     Some (OSError ''no space left on device'') \<and>
   exampleDisk ''a.png.pngtmp'' = None \<and>
   fst (PNGOptimizer_savePNG writeFails exampleDisk ''a.png'' (replicate 9 0)) ''a.png.pngtmp'' =
     Some (replicate 4 0)"
  by (simp add: savePNG_cases afterClose_def writeFails_def noFaults_def exampleDisk_def)

text \<open>
  C8, amended. When the temporary file is created and its write fails, \<^verbatim>\<open>savePNG\<close>
  returns the error of the write; the temporary path stays on the disk with the bytes
  written before the failure, as \<^verbatim>\<open>Close\<close> leaves them (all of them when \<^verbatim>\<open>Close\<close>
  reports no error); nothing else on the disk changes and no rename is tried.
\<close>

theorem temp_file_left_after_failed_write:
  assumes "createFault fl = None" and "writeFault fl = Some (n, e)"
  shows "PNGOptimizer_savePNG fl d path buf =
           (d(path @ ''.pngtmp'' \<mapsto> afterClose fl (take n buf)), Some (OSError e)) \<and>
         (closeFault fl = None \<longrightarrow>
            PNGOptimizer_savePNG fl d path buf =
              (d(path @ ''.pngtmp'' \<mapsto> take n buf), Some (OSError e)))"
  using assms by (simp add: savePNG_cases afterClose_None)

theorem temp_file_left_after_failed_write_witness:
  "createFault writeFails = None \<and> writeFault writeFails = Some (4, ''no space left on device'') \<and>
   closeFault writeFails = None \<and>
   PNGOptimizer_savePNG writeFails exampleDisk ''a.png'' [1, 2, 3, 4, 5, 6] =
     (exampleDisk(''a.png.pngtmp'' \<mapsto> [1, 2, 3, 4]), Some (OSError ''no space left on device''))"
proof -
  have h1: "createFault writeFails = None"
    and h2: "writeFault writeFails = Some (4, ''no space left on device'')"
    and h3: "closeFault writeFails = None"
    by (simp_all add: writeFails_def noFaults_def)
  show ?thesis
    using h1 h2 h3
      temp_file_left_after_failed_write [OF h1 h2, of exampleDisk "''a.png''" "[1, 2, 3, 4, 5, 6]"]
    by (simp add: afterClose_def)
qed

lemma Optimize_cases:
  assumes "loadPNG pf fl d path = Inr loaded" and "optimizeImage pf (img loaded) = Inr (opt, label)"
  shows "Optimize pf fl d path =
     (if size' loaded - int (length opt) \<le> 0 then (d, Inr 0)
      else (case PNGOptimizer_savePNG fl d path opt of
              (d', Some e) \<Rightarrow> (d', Inl e)
            | (d', None) \<Rightarrow> (d', Inr (word_of_int (size' loaded - int (length opt))))))"
  using assms by (simp add: Optimize_def Let_def)

lemma loadPNG_size:
  "loadPNG pf fl d path = Inr loaded \<Longrightarrow>
   \<exists>content. d path = Some content \<and> size' loaded = int (length content)"
  by (auto simp: loadPNG_def split: option.splits sum.splits)

text \<open>
  C2, as stated: the file is replaced if and only if the selected variant is strictly
  smaller than the original. In this run the selected variant has 9 bytes, the file has
  20, the rename fails, and \<^verbatim>\<open>Optimize\<close> returns the error with the file as it was.
\<close>

theorem replaced_iff_smaller_counterexample:
  "loadPNG twoOpaquePlatform renameFails exampleDisk ''a.png'' =
     Inr \<lparr>size' = 20, img = ImageNRGBA twoOpaque\<rparr> \<and>
   optimizeImage twoOpaquePlatform (ImageNRGBA twoOpaque) = Inr (replicate 9 0, ''paletted'') \<and>
   fst (Optimize twoOpaquePlatform renameFails exampleDisk ''a.png'') ''a.png'' =
     Some (replicate 20 0) \<and>
   snd (Optimize twoOpaquePlatform renameFails exampleDisk ''a.png'') =
     Inl (OSError ''permission denied'')"
proof -
  have l: "loadPNG twoOpaquePlatform renameFails exampleDisk ''a.png'' =
     Inr \<lparr>size' = 20, img = ImageNRGBA twoOpaque\<rparr>"
    by (simp add: loadPNG_def renameFails_def noFaults_def exampleDisk_def
        twoOpaquePlatform_def examplePlatform_def)
  have o: "optimizeImage twoOpaquePlatform (ImageNRGBA twoOpaque) =
      Inr (replicate 9 0, ''paletted'')"
    by code_simp
  have o': "optimizeImage twoOpaquePlatform (img \<lparr>size' = 20, img = ImageNRGBA twoOpaque\<rparr>) =
      Inr (replicate 9 0, ''paletted'')"
    using o by simp
  have "Optimize twoOpaquePlatform renameFails exampleDisk ''a.png'' =
      (exampleDisk(''a.png.pngtmp'' \<mapsto> replicate 9 0), Inl (OSError ''permission denied''))"
    unfolding Optimize_cases [OF l o'] savePNG_cases
    by (simp add: renameFails_def noFaults_def afterClose_def)
  then show ?thesis using l o by (simp add: exampleDisk_def)
qed

text \<open>
  C2, amended. For a file that loads and an image whose variants are generated:
  if the selected variant is strictly smaller than the file and no call of the commit
  (create, write, rename) fails, the file is replaced: it holds the variant as \<^verbatim>\<open>Close\<close>
  left it in the temporary file (the whole variant when \<^verbatim>\<open>Close\<close> reports no error), the
  temporary path is gone and \<^verbatim>\<open>Optimize\<close> returns the difference of the two lengths;
  if it is strictly smaller and a call of the commit fails, \<^verbatim>\<open>Optimize\<close> returns that
  error and the file holds what it held;
  if it is not smaller, \<^verbatim>\<open>Optimize\<close> returns 0 and the disk is unchanged.
\<close>

theorem commit_policy:
  assumes "d path = Some content" and "loadPNG pf fl d path = Inr loaded"
      and "optimizeImage pf (img loaded) = Inr (opt, label)"
  shows "(length opt < length content \<and>
            createFault fl = None \<and> writeFault fl = None \<and> renameFault fl = None \<longrightarrow>
            Optimize pf fl d path =
              ((d(path \<mapsto> afterClose fl opt))(path @ ''.pngtmp'' := None),
               Inr (word_of_int (int (length content) - int (length opt))))) \<and>
         (length opt < length content \<and>
            createFault fl = None \<and> writeFault fl = None \<and> closeFault fl = None \<and>
            renameFault fl = None \<longrightarrow>
            Optimize pf fl d path =
              ((d(path \<mapsto> opt))(path @ ''.pngtmp'' := None),
               Inr (word_of_int (int (length content) - int (length opt))))) \<and>
         (length opt < length content \<and>
            (createFault fl \<noteq> None \<or> writeFault fl \<noteq> None \<or> renameFault fl \<noteq> None) \<longrightarrow>
            fst (Optimize pf fl d path) path = Some content \<and>
            (\<exists>e. snd (Optimize pf fl d path) = Inl (OSError e))) \<and>
         (length content \<le> length opt \<longrightarrow> Optimize pf fl d path = (d, Inr 0))"
proof -
  have sz: "size' loaded = int (length content)"
    using loadPNG_size [OF assms(2)] assms(1) by auto
  show ?thesis
    unfolding Optimize_cases [OF assms(2,3)] sz savePNG_cases
    using assms(1) by (auto simp: afterClose_None split: option.splits)
qed

theorem commit_policy_witness:
  "exampleDisk ''a.png'' = Some (replicate 20 0) \<and>
   loadPNG twoOpaquePlatform noFaults exampleDisk ''a.png'' =
     Inr \<lparr>size' = 20, img = ImageNRGBA twoOpaque\<rparr> \<and>
   optimizeImage twoOpaquePlatform (ImageNRGBA twoOpaque) = Inr (replicate 9 0, ''paletted'') \<and>
   Optimize twoOpaquePlatform noFaults exampleDisk ''a.png'' =
     ((exampleDisk(''a.png'' \<mapsto> replicate 9 0))(''a.png.pngtmp'' := None), Inr 11)"
proof -
  have h1: "exampleDisk ''a.png'' = Some (replicate 20 0)"
    by (simp add: exampleDisk_def)
  have h2: "loadPNG twoOpaquePlatform noFaults exampleDisk ''a.png'' =
     Inr \<lparr>size' = 20, img = ImageNRGBA twoOpaque\<rparr>"
    by (simp add: loadPNG_def noFaults_def exampleDisk_def twoOpaquePlatform_def
        examplePlatform_def)
  have h3: "optimizeImage twoOpaquePlatform (img \<lparr>size' = 20, img = ImageNRGBA twoOpaque\<rparr>) =
      Inr (replicate 9 0, ''paletted'')"
    by code_simp
  show ?thesis
    using h1 h2 h3 commit_policy [OF h1 h2 h3]
    by (simp add: noFaults_def afterClose_def)
qed



end
